(* ===== verification/Go_Prelude.thy ===== *)
theory Go_Prelude
  imports Main "HOL-Library.Word" "HOL-Library.List_Lexorder" "HOL-Library.Char_ord"
    "HOL-Library.Sublist"
begin

text \<open>
  The prelude of the totem library: what the Go source uses of the language and of its
  standard library, shared by every component.

  \<^item> errors: \<open>go_error\<close> with \<open>errors.Is\<close>, gRPC status values, and the three ways a
    piece of sequential Go code can end, \<open>outcome\<close> (it runs on, it blocks on a channel,
    it panics);
  \<^item> channels: a buffer, a capacity and a closed flag, with send, receive and close as in
    the language definition;
  \<^item> contexts (package context) and the record \<open>lib\<close> of the third-party functions the
    source calls, which are parameters of every definition that uses them;
  \<^item> the byte-string functions of package strings that the source uses;
  \<^item> the generic lemmas on lists, maps and channels that the components share.
\<close>

named_theorems chan_defs \<open>definitions of the channel operations\<close>
named_theorems md_defs \<open>definitions of the metadata conversions\<close>
named_theorems ctl_defs \<open>definitions of the controller operations\<close>

subsection \<open>Errors and outcomes\<close>

type_synonym bytes = "8 word list"
type_synonym tag = "64 word"
type_synonym metadata = "(string \<times> string list) list"

text \<open>
  The gRPC codes the source names; every other code is \<open>OtherCode\<close>. A status is the pair
  of a code and a message that \<open>status.New\<close> and \<open>status.Errorf\<close> take.
\<close>

datatype code = OK | Canceled | Unknown | NotFound | Unimplemented | Internal | Unavailable
  | OtherCode nat

record rpc_status =
  st_code :: code
  st_message :: string

datatype ctx_error = CtxCanceled | CtxDeadlineExceeded

datatype go_error =
    EOF
  | CtxErr ctx_error
  | StatusError rpc_status
  | ErrorString string
  | WrapError string go_error

text \<open>\<open>errors.Is(err, io.EOF)\<close>: the error or one it wraps is \<open>io.EOF\<close>.\<close>

fun errors_Is_EOF :: "go_error \<Rightarrow> bool" where
  "errors_Is_EOF EOF = True"
| "errors_Is_EOF (WrapError _ e) = errors_Is_EOF e"
| "errors_Is_EOF _ = False"

datatype 'a outcome = Done 'a | Blocks | Panics string

fun obind :: "'a outcome \<Rightarrow> ('a \<Rightarrow> 'b outcome) \<Rightarrow> 'b outcome" where
  "obind (Done x) f = f x"
| "obind Blocks f = Blocks"
| "obind (Panics s) f = Panics s"

lemma obind_Done_iff [simp]: "obind r f = Done y \<longleftrightarrow> (\<exists>x. r = Done x \<and> f x = Done y)"
  by (cases r) auto

subsection \<open>Channels\<close>

text \<open>
  A Go channel of capacity at least one. A send on a closed channel panics, a send on a
  full channel blocks; a receive takes the oldest value, blocks on an empty open channel
  and returns the zero value on an empty closed one.
\<close>

record 'a chan =
  chan_buf :: "'a list"
  chan_cap :: nat
  chan_closed :: bool

definition make_chan :: "nat \<Rightarrow> 'a chan" where
  "make_chan n = \<lparr>chan_buf = [], chan_cap = n, chan_closed = False\<rparr>"

definition chan_send :: "'a \<Rightarrow> 'a chan \<Rightarrow> 'a chan outcome" where
  "chan_send x c =
     (if chan_closed c then Panics ''send on closed channel''
      else if chan_cap c \<le> length (chan_buf c) then Blocks
      else Done (c\<lparr>chan_buf := chan_buf c @ [x]\<rparr>))"

definition chan_close :: "'a chan \<Rightarrow> 'a chan outcome" where
  "chan_close c =
     (if chan_closed c then Panics ''close of closed channel''
      else Done (c\<lparr>chan_closed := True\<rparr>))"

text \<open>The receive \<open>v, ok := <-c\<close>: \<open>None\<close> is the zero value with \<open>ok = false\<close>.\<close>

definition chan_recv :: "'a chan \<Rightarrow> ('a option \<times> 'a chan) outcome" where
  "chan_recv c =
     (case chan_buf c of
        x # xs \<Rightarrow> Done (Some x, c\<lparr>chan_buf := xs\<rparr>)
      | [] \<Rightarrow> if chan_closed c then Done (None, c) else Blocks)"

declare make_chan_def [chan_defs] chan_send_def [chan_defs] chan_close_def [chan_defs]
  chan_recv_def [chan_defs]

text \<open>The invariant of a channel: it never holds more than its capacity.\<close>

definition chan_ok :: "'a chan \<Rightarrow> bool" where
  "chan_ok c \<longleftrightarrow> length (chan_buf c) \<le> chan_cap c"

text \<open>
  The contract of a bounded first-in first-out queue, what the goroutines of the source
  rely on of the channels between them: \<open>contents\<close> is what is in it, a send that goes
  through appends, a receive takes the front.
\<close>

locale fifo_queue =
  fixes contents :: "'q \<Rightarrow> 'a list"
    and bound :: "'q \<Rightarrow> nat"
    and send :: "'a \<Rightarrow> 'q \<Rightarrow> 'q outcome"
    and recv :: "'q \<Rightarrow> ('a option \<times> 'q) outcome"
  assumes send_contents: "send x q = Done q' \<Longrightarrow> contents q' = contents q @ [x]"
    and send_bound: "send x q = Done q' \<Longrightarrow> length (contents q) < bound q \<and> bound q' = bound q"
    and recv_contents: "recv q = Done (Some x, q') \<Longrightarrow> contents q = x # contents q'"
    and recv_bound: "recv q = Done (y, q') \<Longrightarrow> bound q' = bound q"
    and recv_nonempty: "contents q = x # xs \<Longrightarrow> \<exists>q'. recv q = Done (Some x, q')"
begin

lemma send_keeps_bound:
  "length (contents q) \<le> bound q \<Longrightarrow> send x q = Done q' \<Longrightarrow> length (contents q') \<le> bound q'"
  using send_contents [of x q q'] send_bound [of x q q'] by simp

lemma recv_keeps_bound:
  "length (contents q) \<le> bound q \<Longrightarrow> recv q = Done (Some x, q') \<Longrightarrow>
   length (contents q') \<le> bound q'"
  using recv_contents [of q x q'] recv_bound [of q "Some x" q'] by simp

lemma send_recv_front:
  "contents q = [] \<Longrightarrow> send x q = Done q' \<Longrightarrow> \<exists>q''. recv q' = Done (Some x, q'') \<and> contents q'' = []"
  using send_contents [of x q q'] recv_nonempty [of q' x "[]"] recv_contents by fastforce

end

interpretation chq: fifo_queue chan_buf chan_cap chan_send chan_recv
  by unfold_locales
    (auto simp: chan_send_def chan_recv_def split: if_splits list.splits)

lemma chan_ok_make [simp]: "chan_ok (make_chan n)"
  by (simp add: chan_ok_def make_chan_def)

lemma chan_ok_send: "chan_ok c \<Longrightarrow> chan_send x c = Done c' \<Longrightarrow> chan_ok c'"
  unfolding chan_ok_def by (rule chq.send_keeps_bound)

lemma chan_send_Done:
  "\<not> chan_closed c \<Longrightarrow> length (chan_buf c) < chan_cap c \<Longrightarrow>
   chan_send x c = Done (c\<lparr>chan_buf := chan_buf c @ [x]\<rparr>)"
  by (simp add: chan_send_def)

lemma chan_close_Done: "\<not> chan_closed c \<Longrightarrow> chan_close c = Done (c\<lparr>chan_closed := True\<rparr>)"
  by (simp add: chan_close_def)

lemma make_chan_simps [simp]:
  "chan_buf (make_chan n) = []" "chan_cap (make_chan n) = n" "\<not> chan_closed (make_chan n)"
  by (simp_all add: make_chan_def)

subsection \<open>Contexts and third-party functions\<close>

text \<open>
  A \<open>context.Context\<close>: its identity (contexts are compared by pointer), its values
  (what \<open>WithValue\<close> put in, newest first) and its error, \<open>Some\<close> once it is done.
\<close>

record ctx =
  ctx_id :: nat
  ctx_values :: "(string \<times> metadata) list"
  ctx_err :: "go_error option"

text \<open>
  Functions of packages that are not part of the repository, as the source calls them.
  A nil pointer or a nil error is \<open>None\<close>.

  \<^item> package codes: \<open>code_String\<close> is \<open>Code.String\<close>;
  \<^item> package status: \<open>status_Convert e\<close> is \<open>status.Convert(e).Proto()\<close>, \<open>status_Err s\<close>
    is \<open>status.FromProto(s).Err()\<close>, \<open>status_Code e\<close> is \<open>status.Code(e)\<close>;
  \<^item> package metadata: the context accessors and \<open>Join\<close>;
  \<^item> \<open>fmt_q\<close> is the verb \<open>%q\<close> of package fmt, \<open>err_Error\<close> the method \<open>Error\<close> of an error;
  \<^item> \<open>TracingEnabled\<close> with the text map propagator of package otel.
\<close>

record lib =
  code_String :: "code \<Rightarrow> string"
  status_Convert :: "go_error option \<Rightarrow> rpc_status option"
  status_Err :: "rpc_status \<Rightarrow> go_error option"
  status_Code :: "go_error option \<Rightarrow> code"
  FromOutgoingContext :: "ctx \<Rightarrow> metadata option"
  FromIncomingContext :: "ctx \<Rightarrow> metadata option"
  NewOutgoingContext :: "ctx \<Rightarrow> metadata \<Rightarrow> ctx"
  NewIncomingContext :: "ctx \<Rightarrow> metadata \<Rightarrow> ctx"
  md_Join :: "metadata \<Rightarrow> metadata \<Rightarrow> metadata"
  fmt_q :: "string \<Rightarrow> string"
  err_Error :: "go_error \<Rightarrow> string"
  TracingEnabled :: bool
  otel_Inject :: "ctx \<Rightarrow> metadata \<Rightarrow> metadata"
  otel_Extract :: "ctx \<Rightarrow> metadata \<Rightarrow> ctx"

text \<open>
  Documented laws of package status that some properties rely on: \<open>Err\<close> is nil exactly
  for code OK and otherwise represents the status, and converting an error of the package
  gives its status back.
\<close>

definition status_laws :: "lib \<Rightarrow> bool" where
  "status_laws G \<longleftrightarrow>
     (\<forall>s. status_Err G s = (if st_code s = OK then None else Some (StatusError s))) \<and>
     (\<forall>s. status_Convert G (Some (StatusError s)) = Some s)"

text \<open>The documented law of the outgoing context: what was attached is what is read.\<close>

definition outgoing_laws :: "lib \<Rightarrow> bool" where
  "outgoing_laws G \<longleftrightarrow>
     (\<forall>c md. FromOutgoingContext G (NewOutgoingContext G c md) = Some md)"

text \<open>
  A concrete library that satisfies these laws, for evaluating the model: metadata is kept
  in the context's values, joining appends the values of equal keys, an error that carries
  no status converts to code Unknown, and a nil error converts to a nil status.
\<close>

definition std_Convert :: "go_error option \<Rightarrow> rpc_status option" where
  "std_Convert e =
     (case e of
        None \<Rightarrow> None
      | Some (StatusError s) \<Rightarrow> Some s
      | Some _ \<Rightarrow> Some \<lparr>st_code = Unknown, st_message = []\<rparr>)"

definition std_Join :: "metadata \<Rightarrow> metadata \<Rightarrow> metadata" where
  "std_Join a b =
     map (\<lambda>(k, vs). (k, vs @ (case map_of b k of None \<Rightarrow> [] | Some ws \<Rightarrow> ws))) a @
     filter (\<lambda>(k, vs). map_of a k = None) b"

definition std_lib :: lib where
  "std_lib = \<lparr>
     code_String = (\<lambda>c. case c of OK \<Rightarrow> ''OK'' | Unknown \<Rightarrow> ''Unknown'' | _ \<Rightarrow> ''Other''),
     status_Convert = std_Convert,
     status_Err = (\<lambda>s. if st_code s = OK then None else Some (StatusError s)),
     status_Code = (\<lambda>e. case std_Convert e of None \<Rightarrow> OK | Some s \<Rightarrow> st_code s),
     FromOutgoingContext = (\<lambda>c. map_of (ctx_values c) ''outgoing''),
     FromIncomingContext = (\<lambda>c. map_of (ctx_values c) ''incoming''),
     NewOutgoingContext = (\<lambda>c md. c\<lparr>ctx_values := (''outgoing'', md) # ctx_values c\<rparr>),
     NewIncomingContext = (\<lambda>c md. c\<lparr>ctx_values := (''incoming'', md) # ctx_values c\<rparr>),
     md_Join = std_Join,
     fmt_q = (\<lambda>s. s),
     err_Error = (\<lambda>e. case e of ErrorString s \<Rightarrow> s | _ \<Rightarrow> ''error''),
     TracingEnabled = False,
     otel_Inject = (\<lambda>c md. md),
     otel_Extract = (\<lambda>c md. c)\<rparr>"

lemma std_lib_laws [simp]: "status_laws std_lib" "outgoing_laws std_lib"
  by (simp_all add: status_laws_def outgoing_laws_def std_lib_def std_Convert_def)

lemma status_Err_laws:
  "status_laws G \<Longrightarrow> status_Err G s = (if st_code s = OK then None else Some (StatusError s))"
  by (simp add: status_laws_def)

lemma status_Convert_StatusError [simp]:
  "status_laws G \<Longrightarrow> status_Convert G (Some (StatusError s)) = Some s"
  by (simp add: status_laws_def)

subsection \<open>Byte strings\<close>

text \<open>
  Go strings are byte sequences, as \<open>string\<close> is. \<open>strings.Split\<close>, \<open>SplitN\<close> (with n = 2)
  with a one-byte separator, \<open>strings.Join\<close> and \<open>strings.HasSuffix\<close>.
\<close>

fun str_split :: "char \<Rightarrow> string \<Rightarrow> string list" where
  "str_split c [] = [[]]"
| "str_split c (x # xs) =
     (if x = c then [] # str_split c xs
      else (x # hd (str_split c xs)) # tl (str_split c xs))"

fun str_join :: "string \<Rightarrow> string list \<Rightarrow> string" where
  "str_join sep [] = []"
| "str_join sep [x] = x"
| "str_join sep (x # y # zs) = x @ sep @ str_join sep (y # zs)"

definition has_suffix :: "string \<Rightarrow> string \<Rightarrow> bool" where
  "has_suffix s suf \<longleftrightarrow>
     length suf \<le> length s \<and> drop (length s - length suf) s = suf"

definition str_splitN2 :: "char \<Rightarrow> string \<Rightarrow> string list" where
  "str_splitN2 c s =
     (if c \<in> set s then [takeWhile (\<lambda>x. x \<noteq> c) s, tl (dropWhile (\<lambda>x. x \<noteq> c) s)] else [s])"

text \<open>The verb \<open>%d\<close> of package fmt on an unsigned number.\<close>

fun show_nat :: "nat \<Rightarrow> string" where
  "show_nat n =
     (if n < 10 then [''0123456789'' ! n] else show_nat (n div 10) @ [''0123456789'' ! (n mod 10)])"

declare show_nat.simps [simp del]

lemma str_split_ne [simp]: "str_split c s \<noteq> []"
  by (cases s) auto

lemma length_str_split: "length (str_split c s) = Suc (count_list s c)"
  by (induction s) auto

lemma str_split_no_sep: "c \<notin> set s \<Longrightarrow> str_split c s = [s]"
  by (induction s) auto

lemma str_split_append:
  "c \<notin> set s \<Longrightarrow> str_split c (s @ c # t) = s # str_split c t"
  by (induction s) auto

lemma str_join_cons: "xs \<noteq> [] \<Longrightarrow> str_join sep (x # xs) = x @ sep @ str_join sep xs"
  by (cases xs) auto

lemma str_join_split: "str_join [c] (str_split c s) = s"
proof (induction s)
  case Nil
  then show ?case by simp
next
  case (Cons x xs)
  obtain p ps where "str_split c xs = p # ps"
    by (metis list.exhaust str_split_ne)
  with Cons show ?case
    by (cases ps) (auto simp: str_join_cons)
qed

lemma str_split_sep_free: "p \<in> set (str_split c s) \<Longrightarrow> c \<notin> set p"
proof (induction s arbitrary: p)
  case Nil
  then show ?case by simp
next
  case (Cons x xs)
  obtain q qs where "str_split c xs = q # qs"
    by (metis list.exhaust str_split_ne)
  with Cons show ?case
    by (auto split: if_splits)
qed

subsection \<open>Maps and words\<close>

lemma inj_on_map_upd_fresh:
  "inj_on m (dom m) \<Longrightarrow> v \<notin> ran m \<Longrightarrow> inj_on (m(k \<mapsto> v)) (dom (m(k \<mapsto> v)))"
  by (auto simp: inj_on_def ran_def dom_def)

lemma inj_on_map_delete:
  "inj_on m (dom m) \<Longrightarrow> inj_on (m(k := None)) (dom (m(k := None)))"
  by (auto simp: inj_on_def dom_def)

lemma ran_delete_inj:
  assumes "inj_on m (dom m)" and "m k = Some v"
  shows "v \<notin> ran (m(k := None))"
  using assms by (auto simp: ran_def inj_on_def dom_def split: if_splits)

lemma unat_inc_less:
  fixes w :: "'a::len word"
  assumes "Suc (unat w) < 2 ^ LENGTH('a)"
  shows "unat (w + 1) = Suc (unat w)"
  using assms by (simp add: unat_word_ariths)

end
