(* ===== verification/Messages.thy ===== *)
theory Messages
  imports Go_Prelude
begin

text \<open>
  The messages of the totem protocol (totem.pb.go, extensions.pb.go), their nil-safe
  getters, and the conversions on them: metadata.go, status.go and the naming functions of
  util.go. A pointer that may be nil is an \<open>option\<close>. A Go map that is ranged over is the
  list of its entries in the order the iteration visits them.
\<close>

subsection \<open>Message types\<close>

record MDValues =
  Items :: "string list"

record MD =
  Data :: "(string \<times> MDValues) list"

record Response =
  Response_bytes :: bytes
  StatusProto :: "rpc_status option"

record ServerStreamMessage =
  Headers :: "MD option"
  SSM_Response :: bytes

datatype RPC_Content =
    RPC_Request bytes
  | RPC_Response "Response option"
  | RPC_ServerStreamMsg "ServerStreamMessage option"

record RPC =
  Tag :: tag
  ServiceName :: string
  MethodName :: string
  Content :: "RPC_Content option"
  Metadata :: "MD option"

record DiscoveryRequest =
  Initiator :: string
  Visited :: "string list"
  RemainingHops :: "32 word"

text \<open>
  The extensions of extensions.proto and the fields of the descriptor messages that the
  source reads (\<open>descriptorpb\<close> is a generated package of the protobuf module). An enum
  of proto3 is open: a value that has no name is \<open>ReplicationStrategy_Other\<close>.
\<close>

datatype ReplicationStrategy = ReplicationStrategy_First | ReplicationStrategy_Broadcast
  | ReplicationStrategy_Other "32 word"

record QOS =
  qos_ReplicationStrategy :: ReplicationStrategy

record Visibility =
  SplicedClients :: bool

record MethodDescriptor =
  md_Name :: string
  md_InputType :: string
  md_OutputType :: string
  md_ClientStreaming :: bool
  md_ServerStreaming :: bool
  md_Qos :: "QOS option"

record ServiceDescriptor =
  sd_Name :: string
  sd_Method :: "MethodDescriptor list"
  sd_Visibility :: "Visibility option"

record ServiceInfo =
  Services :: "ServiceDescriptor list"

subsection \<open>Getters\<close>

definition GetTag :: "RPC option \<Rightarrow> tag" where
  "GetTag x = (case x of Some r \<Rightarrow> Tag r | None \<Rightarrow> 0)"

definition GetServiceName :: "RPC option \<Rightarrow> string" where
  "GetServiceName x = (case x of Some r \<Rightarrow> ServiceName r | None \<Rightarrow> [])"

definition GetMethodName :: "RPC option \<Rightarrow> string" where
  "GetMethodName x = (case x of Some r \<Rightarrow> MethodName r | None \<Rightarrow> [])"

definition GetContent :: "RPC option \<Rightarrow> RPC_Content option" where
  "GetContent x = (case x of Some r \<Rightarrow> Content r | None \<Rightarrow> None)"

definition GetRequest :: "RPC option \<Rightarrow> bytes" where
  "GetRequest x = (case GetContent x of Some (RPC_Request b) \<Rightarrow> b | _ \<Rightarrow> [])"

definition GetResponse :: "RPC option \<Rightarrow> Response option" where
  "GetResponse x = (case GetContent x of Some (RPC_Response r) \<Rightarrow> r | _ \<Rightarrow> None)"

definition GetServerStreamMsg :: "RPC option \<Rightarrow> ServerStreamMessage option" where
  "GetServerStreamMsg x =
     (case GetContent x of Some (RPC_ServerStreamMsg m) \<Rightarrow> m | _ \<Rightarrow> None)"

definition GetMetadata :: "RPC option \<Rightarrow> MD option" where
  "GetMetadata x = (case x of Some r \<Rightarrow> Metadata r | None \<Rightarrow> None)"

definition Response_GetResponse :: "Response option \<Rightarrow> bytes" where
  "Response_GetResponse x = (case x of Some r \<Rightarrow> Response_bytes r | None \<Rightarrow> [])"

definition GetStatusProto :: "Response option \<Rightarrow> rpc_status option" where
  "GetStatusProto x = (case x of Some r \<Rightarrow> StatusProto r | None \<Rightarrow> None)"

definition MD_GetData :: "MD option \<Rightarrow> (string \<times> MDValues) list" where
  "MD_GetData x = (case x of Some m \<Rightarrow> Data m | None \<Rightarrow> [])"

definition SSM_GetHeaders :: "ServerStreamMessage option \<Rightarrow> MD option" where
  "SSM_GetHeaders x = (case x of Some m \<Rightarrow> Headers m | None \<Rightarrow> None)"

definition SSM_GetResponse :: "ServerStreamMessage option \<Rightarrow> bytes" where
  "SSM_GetResponse x = (case x of Some m \<Rightarrow> SSM_Response m | None \<Rightarrow> [])"

definition GetServices :: "ServiceInfo option \<Rightarrow> ServiceDescriptor list" where
  "GetServices x = (case x of Some i \<Rightarrow> Services i | None \<Rightarrow> [])"

lemmas getter_defs = GetTag_def GetServiceName_def GetMethodName_def GetContent_def
  GetRequest_def GetResponse_def GetServerStreamMsg_def GetMetadata_def
  Response_GetResponse_def GetStatusProto_def MD_GetData_def SSM_GetHeaders_def
  SSM_GetResponse_def GetServices_def

subsection \<open>metadata.go\<close>

definition ToMD :: "MD option \<Rightarrow> metadata" where
  "ToMD md = map (\<lambda>(k, v). (k, Items v)) (MD_GetData md)"

definition FromMD :: "metadata option \<Rightarrow> MD option" where
  "FromMD md =
     (case md of
        None \<Rightarrow> None
      | Some m \<Rightarrow> Some \<lparr>Data = map (\<lambda>(k, v). (k, \<lparr>Items = v\<rparr>)) m\<rparr>)"

definition MD_Keys :: "MD option \<Rightarrow> string list" where
  "MD_Keys md = map fst (MD_GetData md)"

datatype attr_value = AttrString string | AttrStringSlice "string list"

definition MD_KV :: "MD option \<Rightarrow> (string \<times> attr_value) list" where
  "MD_KV md =
     map (\<lambda>(k, v). if length (Items v) = 1 then (k, AttrString (Items v ! 0))
                   else (k, AttrStringSlice (Items v))) (MD_GetData md)"

declare ToMD_def [md_defs] FromMD_def [md_defs] MD_Keys_def [md_defs] MD_KV_def [md_defs]

subsection \<open>status.go\<close>

definition GetStatus :: "lib \<Rightarrow> Response option \<Rightarrow> rpc_status" where
  "GetStatus G r =
     (case r of
        None \<Rightarrow> \<lparr>st_code = Unknown, st_message = code_String G Unknown\<rparr>
      | Some x \<Rightarrow>
          (case StatusProto x of
             None \<Rightarrow> \<lparr>st_code = Unknown, st_message = code_String G Unknown\<rparr>
           | Some s \<Rightarrow> s))"

subsection \<open>util.go\<close>

definition ServiceNames :: "ServiceInfo option \<Rightarrow> string list" where
  "ServiceNames i = sort (map sd_Name (GetServices i))"

definition slashName :: "string \<Rightarrow> string \<Rightarrow> string" where
  "slashName svc m = ''/'' @ svc @ ''/'' @ m"

definition MethodNames :: "ServiceInfo option \<Rightarrow> string list" where
  "MethodNames i =
     sort (concat (map (\<lambda>svc. map (\<lambda>m. slashName (sd_Name svc) (md_Name m)) (sd_Method svc))
       (GetServices i)))"

definition parseQualifiedMethod :: "string \<Rightarrow> go_error + (string \<times> string)" where
  "parseQualifiedMethod method =
     (let parts = str_split (CHR ''/'') method in
      if length parts \<noteq> 3 then Inl (ErrorString (''invalid method name: '' @ method))
      else Inr (parts ! 1, parts ! 2))"

definition QualifiedMethodName :: "RPC option \<Rightarrow> string" where
  "QualifiedMethodName r =
     (case GetContent r of
        Some (RPC_Request _) \<Rightarrow> slashName (GetServiceName r) (GetMethodName r)
      | Some (RPC_Response _) \<Rightarrow> ''(response)''
      | _ \<Rightarrow> ''(unknown)'')"

subsection \<open>Lemmas on the conversions\<close>

lemma ToMD_FromMD [simp]: "ToMD (FromMD (Some md)) = md"
  by (simp add: md_defs getter_defs o_def case_prod_beta)

lemma ToMD_FromMD_None [simp]: "ToMD (FromMD None) = []"
  by (simp add: md_defs getter_defs)

lemma FromMD_ToMD [simp]: "FromMD (Some (ToMD (Some m))) = Some m"
proof -
  have "map ((\<lambda>(k, v). (k, \<lparr>Items = v\<rparr>)) \<circ> (\<lambda>(k, v). (k, Items v))) xs = xs"
    for xs :: "(string \<times> MDValues) list"
    by (induction xs) auto
  then show ?thesis by (simp add: md_defs getter_defs)
qed

lemma str_split_three:
  "str_split c s = [a, b, d] \<longleftrightarrow>
   s = a @ c # b @ c # d \<and> c \<notin> set a \<and> c \<notin> set b \<and> c \<notin> set d"
proof
  assume h: "str_split c s = [a, b, d]"
  then have "c \<notin> set a" "c \<notin> set b" "c \<notin> set d"
    using str_split_sep_free [of _ c s] by auto
  moreover have "s = a @ c # b @ c # d"
    using str_join_split [of c s] h by simp
  ultimately show "s = a @ c # b @ c # d \<and> c \<notin> set a \<and> c \<notin> set b \<and> c \<notin> set d" by blast
next
  assume "s = a @ c # b @ c # d \<and> c \<notin> set a \<and> c \<notin> set b \<and> c \<notin> set d"
  then show "str_split c s = [a, b, d]"
    by (simp add: str_split_append str_split_no_sep)
qed

lemma parseQualifiedMethod_Inr:
  "parseQualifiedMethod s = Inr (svc, m) \<longleftrightarrow>
   (\<exists>pre. s = pre @ slashName svc m \<and> CHR ''/'' \<notin> set pre \<and> CHR ''/'' \<notin> set svc \<and>
          CHR ''/'' \<notin> set m)"
proof -
  have "parseQualifiedMethod s = Inr (svc, m) \<longleftrightarrow>
        (\<exists>pre. str_split (CHR ''/'') s = [pre, svc, m])"
    by (cases "str_split (CHR ''/'') s")
      (auto simp: parseQualifiedMethod_def Let_def length_Suc_conv numeral_3_eq_3)
  then show ?thesis
    by (auto simp: str_split_three slashName_def)
qed

end
