(* ===== verification/Grpc_Metadata.thy ===== *)
theory Grpc_Metadata
  imports Messages
begin

text \<open>
  The header validation of grpc_metadata.go. A byte of a Go string is a \<open>char\<close>; its value
  is \<open>of_char\<close>. The error values carry the texts of the source;
  the verb \<open>%q\<close> is the parameter \<open>fmt_q\<close>.
\<close>

subsection \<open>The validators\<close>

definition not_printable :: "char \<Rightarrow> bool" where
  "not_printable c \<longleftrightarrow> (of_char c :: nat) < 0x20 \<or> 0x7E < (of_char c :: nat)"

text \<open>The loop of \<open>hasNotPrintable\<close> returns at the first byte out of range.\<close>

fun hasNotPrintable :: "string \<Rightarrow> bool" where
  "hasNotPrintable [] = False"
| "hasNotPrintable (c # cs) = (if not_printable c then True else hasNotPrintable cs)"

definition illegal_key_char :: "char \<Rightarrow> bool" where
  "illegal_key_char r \<longleftrightarrow>
     \<not> (CHR ''a'' \<le> r \<and> r \<le> CHR ''z'') \<and> \<not> (CHR ''0'' \<le> r \<and> r \<le> CHR ''9'') \<and>
     r \<noteq> CHR ''.'' \<and> r \<noteq> CHR ''-'' \<and> r \<noteq> CHR ''_''"

fun check_key :: "lib \<Rightarrow> string \<Rightarrow> string \<Rightarrow> go_error option" where
  "check_key G key [] = None"
| "check_key G key (r # rs) =
     (if illegal_key_char r then
        Some (ErrorString (''header key '' @ fmt_q G key @ '' contains illegal characters not in [0-9a-z-_.]''))
      else check_key G key rs)"

fun check_vals :: "lib \<Rightarrow> string \<Rightarrow> string list \<Rightarrow> go_error option" where
  "check_vals G key [] = None"
| "check_vals G key (v # vs) =
     (if hasNotPrintable v then
        Some (ErrorString (''header key '' @ fmt_q G key @ '' contains value with non-printable ASCII characters''))
      else check_vals G key vs)"

definition validatePair :: "lib \<Rightarrow> string \<Rightarrow> string list \<Rightarrow> go_error option" where
  "validatePair G key vals =
     (case key of
        [] \<Rightarrow> Some (ErrorString ''there is an empty key in the header'')
      | c # _ \<Rightarrow>
          if c = CHR '':'' then None
          else (case check_key G key key of
                  Some e \<Rightarrow> Some e
                | None \<Rightarrow> if has_suffix key ''-bin'' then None else check_vals G key vals))"

fun validateMetadata :: "lib \<Rightarrow> metadata \<Rightarrow> go_error option" where
  "validateMetadata G [] = None"
| "validateMetadata G ((k, vals) # md) =
     (case validatePair G k vals of Some e \<Rightarrow> Some e | None \<Rightarrow> validateMetadata G md)"

subsection \<open>What the validators decide\<close>

definition printable :: "string \<Rightarrow> bool" where
  "printable s \<longleftrightarrow> (\<forall>c \<in> set s. 0x20 \<le> (of_char c :: nat) \<and> (of_char c :: nat) \<le> 0x7E)"

definition legal_key :: "string \<Rightarrow> bool" where
  "legal_key k \<longleftrightarrow>
     (\<forall>c \<in> set k. c \<in> set ''abcdefghijklmnopqrstuvwxyz0123456789_-.'')"

text \<open>The four rules in the comment of \<open>validatePair\<close>, as one predicate.\<close>

definition valid_header :: "string \<Rightarrow> string list \<Rightarrow> bool" where
  "valid_header k vals \<longleftrightarrow>
     k \<noteq> [] \<and>
     (hd k = CHR '':'' \<or>
      legal_key k \<and> (suffix ''-bin'' k \<or> list_all printable vals))"

lemma hasNotPrintable_iff [simp]: "hasNotPrintable s \<longleftrightarrow> \<not> printable s"
  by (induction s) (auto simp: printable_def not_printable_def)

lemma illegal_key_char_iff:
  "illegal_key_char c \<longleftrightarrow> c \<notin> set ''abcdefghijklmnopqrstuvwxyz0123456789_-.''"
proof (cases c)
  case (Char b0 b1 b2 b3 b4 b5 b6 b7)
  then show ?thesis
    by (cases b0; cases b1; cases b2; cases b3; cases b4; cases b5; cases b6; cases b7)
      (simp_all add: illegal_key_char_def less_eq_char_def)
qed

lemma check_key_None: "check_key G key cs = None \<longleftrightarrow> legal_key cs"
  by (induction cs) (simp_all add: legal_key_def illegal_key_char_iff)

lemma check_vals_None: "check_vals G key vals = None \<longleftrightarrow> list_all printable vals"
  by (induction vals) auto

lemma has_suffix_iff: "has_suffix s t \<longleftrightarrow> suffix t s"
  by (metis has_suffix_def suffix_take suffix_def suffix_length_le append_eq_conv_conj
      append_take_drop_id diff_le_self length_append add_diff_cancel_right')

lemma validatePair_None: "validatePair G k vals = None \<longleftrightarrow> valid_header k vals"
proof (cases k)
  case Nil
  then show ?thesis by (simp add: validatePair_def valid_header_def)
next
  case (Cons c cs)
  have "check_key G k k = None \<longleftrightarrow> legal_key k" by (rule check_key_None)
  with Cons show ?thesis
    by (cases "check_key G k k")
      (simp_all add: validatePair_def valid_header_def has_suffix_iff check_vals_None
        del: check_key.simps)
qed

text \<open>
  C33: \<open>validatePair\<close> accepts a pair exactly when the four rules in its comment hold: a
  non-empty key that is a pseudo header, or has only characters of [0-9a-z-_.] and either
  the suffix -bin or printable values; \<open>validateMetadata\<close> accepts exactly the maps all of
  whose entries are accepted.
\<close>

theorem validate_headers_correct:
  "(validatePair G k vals = None \<longleftrightarrow> valid_header k vals) \<and>
   (validateMetadata G md = None \<longleftrightarrow> list_all (\<lambda>(k, vs). valid_header k vs) md)"
  by (induction md) (auto simp: validatePair_None split: option.splits)

lemma validateMetadata_iff:
  "validateMetadata G md = None \<longleftrightarrow> (\<forall>(k, vals) \<in> set md. valid_header k vals)"
  by (induction md) (auto simp: validatePair_None split: option.splits)

text \<open>
  The verdict of \<open>validateMetadata\<close> does not depend on the order in which the Go
  runtime visits the entries of the map (which error is reported may).
\<close>

lemma validateMetadata_order_independent:
  "set md = set md' \<Longrightarrow> (validateMetadata G md = None \<longleftrightarrow> validateMetadata G md' = None)"
  by (simp add: validateMetadata_iff)

lemma validateMetadata_order_independent_witness:
  "(validateMetadata std_lib [(''a'', [''x'']), (''B'', [])] = None) =
   (validateMetadata std_lib [(''B'', []), (''a'', [''x''])] = None)"
  by (rule validateMetadata_order_independent) auto

end
