(* ===== verification/Handlers.thy ===== *)
theory Handlers
  imports Messages
begin

unbundle bit_operations_syntax

text \<open>
  types.go: topology flags, service handlers and the lists of handlers of one service.

  A \<open>ServiceHandler\<close> is used by pointer: \<open>sh_ptr\<close> is its identity. Its invokers are
  values of a type parameter, one for every implementation of the interface
  \<open>MethodInvoker\<close>. The invariant of a handler list is \<open>shl_inv\<close>: all entries have the same
  service descriptor, as \<open>Append\<close> enforces with a panic, no handler is in it twice, and the
  removal callback of every entry is registered with its context.
\<close>

subsection \<open>Topology flags\<close>

type_synonym topology_flags = "64 word"

definition TopologyLocal :: topology_flags where "TopologyLocal = push_bit 0 1"
definition TopologySelf :: topology_flags where "TopologySelf = push_bit 1 1"
definition TopologySpliced :: topology_flags where "TopologySpliced = push_bit 2 1"

lemmas topology_defs = TopologyLocal_def TopologySelf_def TopologySpliced_def

fun flag_names :: "topology_flags \<Rightarrow> nat \<Rightarrow> string list \<Rightarrow> string list" where
  "flag_names tf i [] = []"
| "flag_names tf i (name # names) =
     (if tf AND push_bit i 1 \<noteq> 0 then name # flag_names tf (Suc i) names
      else flag_names tf (Suc i) names)"

definition DisplayName :: "topology_flags \<Rightarrow> string" where
  "DisplayName tf =
     (let flags = flag_names tf 0 [''local'', ''self'', ''spliced''];
          flags' = (if tf AND (TopologySelf OR TopologyLocal) = 0 then flags @ [''remote'']
                    else flags)
      in str_join ''|'' flags')"

subsection \<open>Service handlers\<close>

record method_info =
  mi_Name :: string
  IsClientStream :: bool
  IsServerStream :: bool

record 'i ServiceHandler =
  sh_ptr :: nat
  controllerContext :: ctx
  Descriptor :: ServiceDescriptor
  MethodInvokers :: "string \<rightharpoonup> 'i"
  MethodInfo :: "string \<rightharpoonup> method_info"
  MethodQOS :: "string \<rightharpoonup> QOS"
  sh_TopologyFlags :: topology_flags

text \<open>The body of the loop of \<open>NewDefaultServiceHandler\<close> over the methods.\<close>

definition add_method ::
  "'i \<Rightarrow> MethodDescriptor \<Rightarrow> 'i ServiceHandler \<Rightarrow> 'i ServiceHandler outcome" where
  "add_method invoker method sh =
     (let sh1 = sh\<lparr>MethodInfo := (MethodInfo sh)(md_Name method \<mapsto>
            \<lparr>mi_Name = md_Name method, IsClientStream = md_ClientStreaming method,
             IsServerStream = md_ServerStreaming method\<rparr>)\<rparr>;
          add_invoker = (\<lambda>h. h\<lparr>MethodInvokers := (MethodInvokers h)(md_Name method \<mapsto> invoker)\<rparr>)
      in case md_Qos method of
           None \<Rightarrow> Done (add_invoker sh1)
         | Some qos \<Rightarrow>
             if qos_ReplicationStrategy qos = ReplicationStrategy_Broadcast \<and>
                md_OutputType method \<noteq> ''.google.protobuf.Empty'' then
               Panics ''methods with Broadcast ReplicationStrategy must have a response type of google.protobuf.Empty''
             else if qos_ReplicationStrategy qos = ReplicationStrategy_Broadcast \<and>
                (md_ServerStreaming method \<or> md_ClientStreaming method) then
               Panics ''only unary methods can have Broadcast ReplicationStrategy''
             else Done (add_invoker
               (sh1\<lparr>MethodQOS := (MethodQOS sh1)(md_Name method \<mapsto> qos)\<rparr>)))"

fun add_methods ::
  "'i \<Rightarrow> MethodDescriptor list \<Rightarrow> 'i ServiceHandler \<Rightarrow> 'i ServiceHandler outcome" where
  "add_methods invoker [] sh = Done sh"
| "add_methods invoker (m # ms) sh = obind (add_method invoker m sh) (add_methods invoker ms)"

text \<open>
  \<open>NewDefaultServiceHandler\<close>; \<open>ptr\<close> is the address the allocation returns and
  \<open>flags_of\<close> the method \<open>TopologyFlags\<close> of the invoker.
\<close>

definition NewDefaultServiceHandler ::
  "('i \<Rightarrow> topology_flags) \<Rightarrow> nat \<Rightarrow> ctx \<Rightarrow> ServiceDescriptor \<Rightarrow> 'i \<Rightarrow> 'i ServiceHandler outcome" where
  "NewDefaultServiceHandler flags_of ptr c descriptor invoker =
     add_methods invoker (sd_Method descriptor)
       \<lparr>sh_ptr = ptr, controllerContext = c, Descriptor = descriptor,
        MethodInvokers = Map.empty, MethodInfo = Map.empty, MethodQOS = Map.empty,
        sh_TopologyFlags = flags_of invoker\<rparr>"

subsection \<open>Handler lists\<close>

record 'i ServiceHandlerList =
  shl_data :: "'i ServiceHandler list"
  shl_after :: "'i ServiceHandler list" \<comment> \<open>handlers with a removal callback registered\<close>

definition empty_list :: "'i ServiceHandlerList" where
  "empty_list = \<lparr>shl_data = [], shl_after = []\<rparr>"

definition Append :: "'i ServiceHandler \<Rightarrow> 'i ServiceHandlerList \<Rightarrow> 'i ServiceHandlerList outcome" where
  "Append sh s =
     (if list_ex (\<lambda>existing. Descriptor existing \<noteq> Descriptor sh) (shl_data s) then
        Panics ''entries in ServiceHandlerLists must have the same service descriptors''
      else Done (s\<lparr>shl_data := shl_data s @ [sh], shl_after := shl_after s @ [sh]\<rparr>))"

text \<open>The callback that \<open>Append\<close> gives to \<open>context.AfterFunc\<close>: \<open>slices.Index\<close>, \<open>slices.Delete\<close>.\<close>

fun delete_ptr :: "nat \<Rightarrow> 'i ServiceHandler list \<Rightarrow> 'i ServiceHandler list" where
  "delete_ptr p [] = []"
| "delete_ptr p (h # hs) = (if sh_ptr h = p then hs else h # delete_ptr p hs)"

definition on_context_done :: "'i ServiceHandler \<Rightarrow> 'i ServiceHandlerList \<Rightarrow> 'i ServiceHandlerList" where
  "on_context_done sh s = s\<lparr>shl_data := delete_ptr (sh_ptr sh) (shl_data s)\<rparr>"

text \<open>
  \<open>Range\<close> visits a clone of the slice and stops at the first call that returns false. The
  callbacks of the source write variables they capture: they take and return that state.
\<close>

fun range_loop :: "('h \<Rightarrow> 's \<Rightarrow> bool \<times> 's) \<Rightarrow> 'h list \<Rightarrow> 's \<Rightarrow> bool \<times> 's" where
  "range_loop fn [] st = (True, st)"
| "range_loop fn (h # hs) st =
     (case fn h st of (go, st') \<Rightarrow> if go then range_loop fn hs st' else (False, st'))"

definition shl_Range ::
  "('i ServiceHandler \<Rightarrow> 's \<Rightarrow> bool \<times> 's) \<Rightarrow> 'i ServiceHandlerList \<Rightarrow> 's \<Rightarrow> bool \<times> 's" where
  "shl_Range fn s st = range_loop fn (shl_data s) st"

definition Len :: "'i ServiceHandlerList \<Rightarrow> nat" where
  "Len s = length (shl_data s)"

definition First :: "'i ServiceHandlerList \<Rightarrow> 'i ServiceHandler option" where
  "First s = (case shl_data s of [] \<Rightarrow> None | h # _ \<Rightarrow> Some h)"

subsection \<open>What a built handler holds\<close>

definition broadcast_ok :: "MethodDescriptor \<Rightarrow> bool" where
  "broadcast_ok m \<longleftrightarrow>
     (case md_Qos m of
        Some q \<Rightarrow> qos_ReplicationStrategy q = ReplicationStrategy_Broadcast \<longrightarrow>
          md_OutputType m = ''.google.protobuf.Empty'' \<and>
          \<not> md_ServerStreaming m \<and> \<not> md_ClientStreaming m
      | None \<Rightarrow> True)"

lemma add_method_Done:
  "(\<exists>sh'. add_method ivk m sh = Done sh') \<longleftrightarrow> broadcast_ok m"
  by (auto simp: add_method_def broadcast_ok_def Let_def split: option.splits)

lemma add_method_fields:
  assumes "add_method ivk m sh = Done sh'"
  shows "MethodInvokers sh' = (MethodInvokers sh)(md_Name m \<mapsto> ivk)"
    and "MethodInfo sh' = (MethodInfo sh)(md_Name m \<mapsto>
            \<lparr>mi_Name = md_Name m, IsClientStream = md_ClientStreaming m,
             IsServerStream = md_ServerStreaming m\<rparr>)"
    and "Descriptor sh' = Descriptor sh" and "sh_ptr sh' = sh_ptr sh"
    and "controllerContext sh' = controllerContext sh"
    and "sh_TopologyFlags sh' = sh_TopologyFlags sh"
  using assms by (auto simp: add_method_def Let_def split: option.splits if_splits)

lemma add_methods_Done:
  "(\<exists>sh'. add_methods ivk ms sh = Done sh') \<longleftrightarrow> list_all broadcast_ok ms"
proof (induction ms arbitrary: sh)
  case Nil
  then show ?case by simp
next
  case (Cons m ms)
  then show ?case
    using add_method_Done [of ivk m sh] by auto
qed

lemma add_methods_fields:
  assumes "add_methods ivk ms sh = Done sh'"
  shows "MethodInvokers sh' = (\<lambda>n. if n \<in> md_Name ` set ms then Some ivk else MethodInvokers sh n)"
    and "dom (MethodInfo sh') = dom (MethodInfo sh) \<union> md_Name ` set ms"
    and "Descriptor sh' = Descriptor sh" and "sh_ptr sh' = sh_ptr sh"
    and "controllerContext sh' = controllerContext sh"
    and "sh_TopologyFlags sh' = sh_TopologyFlags sh"
proof -
  have "MethodInvokers sh' = (\<lambda>n. if n \<in> md_Name ` set ms then Some ivk else MethodInvokers sh n) \<and>
        dom (MethodInfo sh') = dom (MethodInfo sh) \<union> md_Name ` set ms \<and>
        Descriptor sh' = Descriptor sh \<and> sh_ptr sh' = sh_ptr sh \<and>
        controllerContext sh' = controllerContext sh \<and>
        sh_TopologyFlags sh' = sh_TopologyFlags sh"
    using assms
  proof (induction ms arbitrary: sh)
    case Nil
    then show ?case by simp
  next
    case (Cons m ms)
    then obtain sh1 where 1: "add_method ivk m sh = Done sh1"
      and 2: "add_methods ivk ms sh1 = Done sh'" by auto
    from Cons.IH [OF 2] add_method_fields [OF 1] show ?case
      by (auto simp: fun_eq_iff)
  qed
  then show "MethodInvokers sh' = (\<lambda>n. if n \<in> md_Name ` set ms then Some ivk else MethodInvokers sh n)"
    and "dom (MethodInfo sh') = dom (MethodInfo sh) \<union> md_Name ` set ms"
    and "Descriptor sh' = Descriptor sh" and "sh_ptr sh' = sh_ptr sh"
    and "controllerContext sh' = controllerContext sh"
    and "sh_TopologyFlags sh' = sh_TopologyFlags sh" by blast+
qed

text \<open>Well-formed handlers: an invoker and an info entry for every method, no others.\<close>

definition handler_wf :: "'i ServiceHandler \<Rightarrow> bool" where
  "handler_wf sh \<longleftrightarrow>
     dom (MethodInvokers sh) = md_Name ` set (sd_Method (Descriptor sh)) \<and>
     dom (MethodInfo sh) = dom (MethodInvokers sh)"

lemma NewDefaultServiceHandler_wf:
  "NewDefaultServiceHandler fl p c d ivk = Done sh \<Longrightarrow> handler_wf sh \<and> Descriptor sh = d"
  unfolding NewDefaultServiceHandler_def handler_wf_def
  using add_methods_fields by (fastforce simp: dom_def split: if_splits)

text \<open>
  C32: \<open>NewDefaultServiceHandler\<close> panics exactly for a descriptor with a Broadcast method
  that is streaming or does not return google.protobuf.Empty; otherwise the handler maps
  exactly the methods of the descriptor to the given invoker and carries its flags.
\<close>

theorem NewDefaultServiceHandler_correct:
  "(\<exists>sh. NewDefaultServiceHandler flags_of p c d ivk = Done sh \<and> handler_wf sh \<and>
      Descriptor sh = d \<and> sh_TopologyFlags sh = flags_of ivk \<and>
      (\<forall>n. MethodInvokers sh n = (if n \<in> md_Name ` set (sd_Method d) then Some ivk else None)))
   = list_all broadcast_ok (sd_Method d)"
proof -
  have "(\<exists>sh. NewDefaultServiceHandler flags_of p c d ivk = Done sh) = list_all broadcast_ok (sd_Method d)"
    by (simp add: NewDefaultServiceHandler_def add_methods_Done)
  moreover have "sh_TopologyFlags sh = flags_of ivk \<and>
      (\<forall>n. MethodInvokers sh n = (if n \<in> md_Name ` set (sd_Method d) then Some ivk else None))"
    if "NewDefaultServiceHandler flags_of p c d ivk = Done sh" for sh
    using add_methods_fields [OF that [unfolded NewDefaultServiceHandler_def]] by simp
  ultimately show ?thesis
    using NewDefaultServiceHandler_wf [of flags_of p c d ivk] by blast
qed

subsection \<open>The interface of a handler list\<close>

text \<open>
  What the controller and the server rely on: all operations are views of one sequence of
  handlers, appending adds at the end, \<open>first\<close>, \<open>len\<close> and \<open>range\<close> read it.
\<close>

locale handler_sequence =
  fixes view :: "'l \<Rightarrow> 'h list"
    and append1 :: "'h \<Rightarrow> 'l \<Rightarrow> 'l outcome"
    and first1 :: "'l \<Rightarrow> 'h option"
    and len1 :: "'l \<Rightarrow> nat"
    and range1 :: "('h \<Rightarrow> 's \<Rightarrow> bool \<times> 's) \<Rightarrow> 'l \<Rightarrow> 's \<Rightarrow> bool \<times> 's"
  assumes append_view: "append1 h l = Done l' \<Longrightarrow> view l' = view l @ [h]"
    and first_view: "first1 l = (case view l of [] \<Rightarrow> None | h # _ \<Rightarrow> Some h)"
    and len_view: "len1 l = length (view l)"
    and range_view: "range1 fn l st = range_loop fn (view l) st"
begin

lemma first_append:
  "append1 h l = Done l' \<Longrightarrow> first1 l' = (if len1 l = 0 then Some h else first1 l)"
  using append_view [of h l l'] by (auto simp: first_view len_view split: list.splits)

lemma len_pos_first: "0 < len1 l \<longleftrightarrow> (\<exists>h. first1 l = Some h)"
  by (auto simp: first_view len_view split: list.splits)

lemma range_all_true:
  assumes "\<And>h s. fn h s = (True, g h s)"
  shows "range1 fn l st = (True, fold g (view l) st)"
proof -
  have "range_loop fn hs st = (True, fold g hs st)" for hs st
    by (induction hs arbitrary: st) (auto simp: assms)
  then show ?thesis by (simp add: range_view)
qed

lemma range_only_first:
  assumes "\<And>h s. fn h s = (False, g h s)"
  shows "snd (range1 fn l st) = (case first1 l of None \<Rightarrow> st | Some h \<Rightarrow> g h st)"
  by (cases "view l") (auto simp: range_view first_view assms)

end

interpretation hl: handler_sequence shl_data Append First Len shl_Range
  by unfold_locales
    (auto simp: Append_def First_def Len_def shl_Range_def split: if_splits list.splits)

subsection \<open>The invariant of a handler list\<close>

definition shl_inv :: "'i ServiceHandlerList \<Rightarrow> bool" where
  "shl_inv s \<longleftrightarrow>
     (\<exists>d. \<forall>h \<in> set (shl_data s). Descriptor h = d) \<and>
     distinct (map sh_ptr (shl_data s)) \<and>
     set (shl_data s) \<subseteq> set (shl_after s)"

lemma shl_inv_empty [simp]: "shl_inv empty_list"
  by (simp add: shl_inv_def empty_list_def)

lemma shl_inv_Append:
  "shl_inv s \<Longrightarrow> sh_ptr sh \<notin> sh_ptr ` set (shl_data s) \<Longrightarrow> Append sh s = Done s' \<Longrightarrow> shl_inv s'"
  by (fastforce simp: shl_inv_def Append_def list_ex_iff split: if_splits)

lemma delete_ptr_filter:
  "distinct (map sh_ptr hs) \<Longrightarrow> delete_ptr p hs = filter (\<lambda>h. sh_ptr h \<noteq> p) hs"
proof (induction hs)
  case Nil
  then show ?case by simp
next
  case (Cons h hs)
  then have "filter (\<lambda>h'. sh_ptr h' \<noteq> sh_ptr h) hs = hs" by (auto simp: filter_id_conv image_iff)
  with Cons show ?case by (cases "p = sh_ptr h") simp_all
qed

lemma on_context_done_data:
  "shl_inv s \<Longrightarrow> shl_data (on_context_done sh s) = filter (\<lambda>h. sh_ptr h \<noteq> sh_ptr sh) (shl_data s)"
  by (simp add: on_context_done_def shl_inv_def delete_ptr_filter)

lemma shl_inv_on_context_done: "shl_inv s \<Longrightarrow> shl_inv (on_context_done sh s)"
  using on_context_done_data [of s sh]
  by (auto simp: shl_inv_def on_context_done_def distinct_map_filter)

lemma fold_on_context_done:
  "shl_inv s \<Longrightarrow>
   shl_data (fold on_context_done hs s) =
     filter (\<lambda>h. sh_ptr h \<notin> sh_ptr ` set hs) (shl_data s) \<and> shl_inv (fold on_context_done hs s)"
proof (induction hs arbitrary: s)
  case Nil
  then show ?case by simp
next
  case (Cons h hs)
  show ?case
    using Cons.IH [OF shl_inv_on_context_done [OF Cons.prems]] Cons.prems
    by (simp add: on_context_done_data)
qed

text \<open>Two handlers of one service whose contexts are 1 and 2, for concrete instances.\<close>

definition sample_descriptor :: ServiceDescriptor where
  "sample_descriptor = \<lparr>sd_Name = ''svc'', sd_Method = [], sd_Visibility = None\<rparr>"

definition sample_handler :: "nat \<Rightarrow> nat \<Rightarrow> unit ServiceHandler" where
  "sample_handler p c =
     \<lparr>sh_ptr = p, controllerContext = \<lparr>ctx_id = c, ctx_values = [], ctx_err = None\<rparr>,
      Descriptor = sample_descriptor, MethodInvokers = Map.empty, MethodInfo = Map.empty,
      MethodQOS = Map.empty, sh_TopologyFlags = TopologyLocal\<rparr>"

definition sample_list :: "unit ServiceHandlerList" where
  "sample_list = \<lparr>shl_data = [sample_handler 10 1, sample_handler 11 2],
                  shl_after = [sample_handler 10 1, sample_handler 11 2]\<rparr>"

lemma sample_list_inv: "shl_inv sample_list"
  by (simp add: shl_inv_def sample_list_def sample_handler_def)

text \<open>
  C31: every operation on a handler list keeps its invariant: the descriptors stay equal,
  no handler is in the list twice and each has its removal callback.
\<close>

theorem handler_list_invariant:
  assumes "shl_inv s"
  shows "(sh_ptr sh \<notin> sh_ptr ` set (shl_data s) \<and> Append sh s = Done s' \<longrightarrow> shl_inv s') \<and>
         shl_inv (on_context_done sh s)"
  using assms shl_inv_Append shl_inv_on_context_done by blast

theorem handler_list_invariant_witness:
  "shl_inv sample_list \<and>
   (sh_ptr (sample_handler 12 1) \<notin> sh_ptr ` set (shl_data sample_list) \<and>
    Append (sample_handler 12 1) sample_list =
      Done \<lparr>shl_data = shl_data sample_list @ [sample_handler 12 1],
            shl_after = shl_after sample_list @ [sample_handler 12 1]\<rparr>) \<and>
   shl_inv \<lparr>shl_data = shl_data sample_list @ [sample_handler 12 1],
            shl_after = shl_after sample_list @ [sample_handler 12 1]\<rparr>"
proof -
  have a: "sh_ptr (sample_handler 12 1) \<notin> sh_ptr ` set (shl_data sample_list) \<and>
    Append (sample_handler 12 1) sample_list =
      Done \<lparr>shl_data = shl_data sample_list @ [sample_handler 12 1],
            shl_after = shl_after sample_list @ [sample_handler 12 1]\<rparr>"
    by (simp add: sample_list_def sample_handler_def Append_def)
  show ?thesis
    using a handler_list_invariant [OF sample_list_inv] sample_list_inv by blast
qed

text \<open>
  C30: when a context ends, its callbacks, run in any order, remove from the list exactly
  the handlers of that context and keep the others in their order.
\<close>

theorem context_done_removes_handlers:
  assumes "shl_inv s"
    and "set hs = {h \<in> set (shl_after s). ctx_id (controllerContext h) = c}"
    and "inj_on sh_ptr (set (shl_after s))"
  shows "shl_data (fold on_context_done hs s) =
         filter (\<lambda>h. ctx_id (controllerContext h) \<noteq> c) (shl_data s)"
proof -
  have sub: "set (shl_data s) \<subseteq> set (shl_after s)" using assms(1) by (simp add: shl_inv_def)
  have "sh_ptr h \<in> sh_ptr ` set hs \<longleftrightarrow> ctx_id (controllerContext h) = c"
    if "h \<in> set (shl_data s)" for h
    using that sub assms(2,3) by (auto simp: inj_on_def)
  then show ?thesis
    using fold_on_context_done [OF assms(1), of hs] by (simp cong: filter_cong)
qed

theorem context_done_removes_handlers_witness:
  "shl_data (fold on_context_done [sample_handler 10 1] sample_list) = [sample_handler 11 2]"
proof -
  have "shl_data (fold on_context_done [sample_handler 10 1] sample_list) =
        filter (\<lambda>h. ctx_id (controllerContext h) \<noteq> 1) (shl_data sample_list)"
    by (rule context_done_removes_handlers [OF sample_list_inv])
      (auto simp: sample_list_def sample_handler_def inj_on_def)
  then show ?thesis by (simp add: sample_list_def sample_handler_def)
qed

end
