(* ===== verification/Recv_Wrapper.thy ===== *)
theory Recv_Wrapper
  imports Messages
begin

text \<open>
  recv.go: the receiver of a stream. A goroutine, the pump, calls \<open>stream.Recv\<close> in a loop
  and passes what it gets through a channel of capacity 256 to the one caller of \<open>Recv\<close>;
  \<open>Recv\<close> also ends when an error is sent on the channel \<open>kick\<close>. The locks of the source are
  taken with \<open>TryLock\<close>, and a second holder panics.

  The functions are the atomic sections between the blocking points of the source. The
  relation \<open>recv_step\<close> interleaves the pump, the caller of \<open>Recv\<close> and the kickers, with the
  results of \<open>stream.Recv\<close> as the input of the system. Two fields count, and are not in the
  program: \<open>rs_starts\<close> the calls of \<open>Start\<close> that returned, \<open>rs_calls\<close> the calls of \<open>Recv\<close> in
  progress.
\<close>

subsection \<open>State and operations\<close>

record recvPayload =
  pl_RPC :: "RPC option"
  pl_Err :: "go_error option"

datatype pump_state = PumpNotStarted | PumpReceiving | PumpSending recvPayload | PumpExited

record recvWrapper =
  rw_c :: "recvPayload chan"
  rw_kick :: "go_error option chan"
  rw_kickAcked :: bool  \<comment> \<open>the channel is closed\<close>
  rw_runLock :: bool
  rw_recvLock :: bool
  rw_done :: bool       \<comment> \<open>the channel is closed\<close>
  rw_pump :: pump_state

definition Start :: "recvWrapper \<Rightarrow> recvWrapper outcome" where
  "Start w =
     (if rw_runLock w then Panics ''attempted to call recvWrapper.Run twice''
      else Done (w\<lparr>rw_runLock := True, rw_pump := PumpReceiving\<rparr>))"

text \<open>The loop of the pump: a result of \<open>stream.Recv\<close>, then the send of the payload.\<close>

definition pump_recv :: "recvPayload \<Rightarrow> recvWrapper \<Rightarrow> recvWrapper outcome" where
  "pump_recv p w =
     (case rw_pump w of
        PumpReceiving \<Rightarrow> Done (w\<lparr>rw_pump := PumpSending p\<rparr>)
      | _ \<Rightarrow> Blocks)"

definition pump_send :: "recvWrapper \<Rightarrow> recvWrapper outcome" where
  "pump_send w =
     (case rw_pump w of
        PumpSending p \<Rightarrow>
          obind (chan_send p (rw_c w)) (\<lambda>c.
            let w1 = w\<lparr>rw_c := c\<rparr> in
            if pl_Err p \<noteq> None then
              (if rw_done w1 then Panics ''close of closed channel''
               else Done (w1\<lparr>rw_done := True, rw_runLock := False, rw_pump := PumpExited\<rparr>))
            else Done (w1\<lparr>rw_pump := PumpReceiving\<rparr>))
      | _ \<Rightarrow> Blocks)"

definition Wait :: "recvWrapper \<Rightarrow> unit outcome" where
  "Wait w = (if rw_done w then Done () else Blocks)"

text \<open>
  \<open>Recv\<close>: the lock, then the select, whose two cases are functions of their own; a case
  that is not ready blocks.
\<close>

definition Recv_begin :: "recvWrapper \<Rightarrow> recvWrapper outcome" where
  "Recv_begin w =
     (if rw_recvLock w then
        Panics ''attempted to call recvWrapper.Recv twice in separate goroutines''
      else Done (w\<lparr>rw_recvLock := True\<rparr>))"

definition Recv_payload :: "recvWrapper \<Rightarrow> ((RPC option \<times> go_error option) \<times> recvWrapper) outcome" where
  "Recv_payload w =
     obind (chan_recv (rw_c w)) (\<lambda>(v, c).
       (case v of
          Some p \<Rightarrow> Done ((pl_RPC p, pl_Err p), w\<lparr>rw_c := c, rw_recvLock := False\<rparr>)
        | None \<Rightarrow> Done ((None, None), w\<lparr>rw_c := c, rw_recvLock := False\<rparr>)))"

definition Recv_kicked :: "recvWrapper \<Rightarrow> ((RPC option \<times> go_error option) \<times> recvWrapper) outcome" where
  "Recv_kicked w =
     obind (chan_recv (rw_kick w)) (\<lambda>(v, k).
       (case v of
          Some (Some e) \<Rightarrow>
            if rw_kickAcked w then Panics ''close of closed channel''
            else Done ((None, Some e),
                       w\<lparr>rw_kick := k, rw_kickAcked := True, rw_recvLock := False\<rparr>)
        | _ \<Rightarrow> Panics ''recvWrapper was kicked without an error''))"

subsection \<open>The registry of known streams\<close>

text \<open>
  \<open>gKnownStreams\<close> is the set of the streams that have a receiver. The goroutine that
  \<open>newRecvWrapper\<close> starts removes the stream when the kick is acknowledged or the context
  of the stream is done.
\<close>

definition newRecvWrapper :: "nat \<Rightarrow> nat list \<Rightarrow> (nat list \<times> recvWrapper) outcome" where
  "newRecvWrapper stream known =
     (if stream \<in> set known then
        Panics ''attempted to create two recvWrappers for the same stream''
      else Done (stream # known,
        \<lparr>rw_c = make_chan 256, rw_kick = make_chan 1, rw_kickAcked = False,
         rw_runLock = False, rw_recvLock = False, rw_done = False,
         rw_pump = PumpNotStarted\<rparr>))"

definition forget_stream :: "nat \<Rightarrow> bool \<Rightarrow> recvWrapper \<Rightarrow> nat list \<Rightarrow> nat list outcome" where
  "forget_stream stream ctx_done w known =
     (if rw_kickAcked w \<or> ctx_done then Done (removeAll stream known) else Blocks)"

subsection \<open>Kicking\<close>

text \<open>
  The guarded send of \<open>StreamController.Kick\<close>: the first call sends on \<open>kick\<close>, the later
  ones do nothing. The flag is the state of the \<open>sync.Once\<close>.
\<close>

definition kick_once :: "go_error option \<Rightarrow> bool \<Rightarrow> recvWrapper \<Rightarrow> (bool \<times> recvWrapper) outcome" where
  "kick_once err once w =
     (if once then Done (True, w)
      else obind (chan_send err (rw_kick w)) (\<lambda>k. Done (True, w\<lparr>rw_kick := k\<rparr>)))"

subsection \<open>The interleaving of the pump, the receiver and the kickers\<close>

record recv_sys =
  rs_w :: recvWrapper
  rs_once :: bool
  rs_input :: "recvPayload list"      \<comment> \<open>what \<open>stream.Recv\<close> has still to return\<close>
  rs_delivered :: "recvPayload list"  \<comment> \<open>what \<open>Recv\<close> returned from the stream\<close>
  rs_starts :: nat                    \<comment> \<open>the calls of \<open>Start\<close> that returned\<close>
  rs_calls :: nat                     \<comment> \<open>the calls of \<open>Recv\<close> in progress\<close>

inductive recv_step :: "recv_sys \<Rightarrow> recv_sys \<Rightarrow> bool" where
  rs_start: "Start (rs_w s) = Done w \<Longrightarrow>
     recv_step s (s\<lparr>rs_w := w, rs_starts := Suc (rs_starts s)\<rparr>)"
| rs_pump_recv: "rs_input s = p # ps \<Longrightarrow> pump_recv p (rs_w s) = Done w \<Longrightarrow>
     recv_step s (s\<lparr>rs_w := w, rs_input := ps\<rparr>)"
| rs_pump_send: "pump_send (rs_w s) = Done w \<Longrightarrow> recv_step s (s\<lparr>rs_w := w\<rparr>)"
| rs_begin: "Recv_begin (rs_w s) = Done w \<Longrightarrow>
     recv_step s (s\<lparr>rs_w := w, rs_calls := Suc (rs_calls s)\<rparr>)"
| rs_payload: "rw_recvLock (rs_w s) \<Longrightarrow> Recv_payload (rs_w s) = Done ((r, e), w) \<Longrightarrow>
     recv_step s (s\<lparr>rs_w := w, rs_delivered := rs_delivered s @ [\<lparr>pl_RPC = r, pl_Err = e\<rparr>],
       rs_calls := rs_calls s - 1\<rparr>)"
| rs_kicked: "rw_recvLock (rs_w s) \<Longrightarrow> Recv_kicked (rs_w s) = Done (x, w) \<Longrightarrow>
     recv_step s (s\<lparr>rs_w := w, rs_calls := rs_calls s - 1\<rparr>)"
| rs_kick: "kick_once (Some e) (rs_once s) (rs_w s) = Done (o', w) \<Longrightarrow>
     recv_step s (s\<lparr>rs_w := w, rs_once := o'\<rparr>)"

definition recv_init :: "recvPayload list \<Rightarrow> recvWrapper \<Rightarrow> recv_sys" where
  "recv_init input w =
     \<lparr>rs_w = w, rs_once = False, rs_input = input, rs_delivered = [], rs_starts = 0, rs_calls = 0\<rparr>"

text \<open>The states reachable when the stream returns the payloads \<open>input\<close>.\<close>

inductive recv_reachable :: "recvPayload list \<Rightarrow> recv_sys \<Rightarrow> bool" for input where
  rr_init: "newRecvWrapper stream known = Done (known', w) \<Longrightarrow> recv_reachable input (recv_init input w)"
| rr_step: "recv_reachable input s \<Longrightarrow> recv_step s t \<Longrightarrow> recv_reachable input t"

subsection \<open>The invariant of the receiver\<close>

definition in_hand :: "recvWrapper \<Rightarrow> recvPayload list" where
  "in_hand w = (case rw_pump w of PumpSending p \<Rightarrow> [p] | _ \<Rightarrow> [])"

definition no_error :: "recvPayload list \<Rightarrow> bool" where
  "no_error ps \<longleftrightarrow> list_all (\<lambda>p. pl_Err p = None) ps"

text \<open>
  What the pump has sent: error free while it runs, one error at the end when it is done. A
  receiver whose pump has ended may be started a second time; nothing is said of what that
  pump sends.
\<close>

definition sent_ok :: "nat \<Rightarrow> recvWrapper \<Rightarrow> recvPayload list \<Rightarrow> bool" where
  "sent_ok starts w sent \<longleftrightarrow> starts \<le> 1 \<longrightarrow>
     (if rw_pump w = PumpExited
      then sent \<noteq> [] \<and> no_error (butlast sent) \<and> pl_Err (last sent) \<noteq> None
      else no_error sent)"

text \<open>The locks, by how often the pump was started and how many calls of \<open>Recv\<close> there are.\<close>

definition locks_ok :: "nat \<Rightarrow> recvWrapper \<Rightarrow> bool" where
  "locks_ok starts w \<longleftrightarrow>
     (rw_done w \<longleftrightarrow> rw_pump w = PumpExited \<or> 2 \<le> starts) \<and>
     (rw_runLock w \<longleftrightarrow> rw_pump w \<noteq> PumpExited \<and> rw_pump w \<noteq> PumpNotStarted) \<and>
     (starts = 0 \<longleftrightarrow> rw_pump w = PumpNotStarted) \<and>
     (2 \<le> starts \<longrightarrow> starts = 2 \<and> rw_pump w \<noteq> PumpExited)"

definition calls_ok :: "nat \<Rightarrow> recvWrapper \<Rightarrow> bool" where
  "calls_ok calls w \<longleftrightarrow> calls = (if rw_recvLock w then 1 else 0)"

definition kick_ok :: "bool \<Rightarrow> recvWrapper \<Rightarrow> bool" where
  "kick_ok once w \<longleftrightarrow>
     chan_cap (rw_kick w) = 1 \<and> \<not> chan_closed (rw_kick w) \<and>
     None \<notin> set (chan_buf (rw_kick w)) \<and>
     length (chan_buf (rw_kick w)) + (if rw_kickAcked w then 1 else 0) \<le> (if once then 1 else 0)"

definition recv_inv :: "recvPayload list \<Rightarrow> recv_sys \<Rightarrow> bool" where
  "recv_inv input s \<longleftrightarrow>
     rs_delivered s @ chan_buf (rw_c (rs_w s)) @ in_hand (rs_w s) @ rs_input s = input \<and>
     chan_ok (rw_c (rs_w s)) \<and> chan_cap (rw_c (rs_w s)) = 256 \<and> \<not> chan_closed (rw_c (rs_w s)) \<and>
     sent_ok (rs_starts s) (rs_w s) (rs_delivered s @ chan_buf (rw_c (rs_w s))) \<and>
     locks_ok (rs_starts s) (rs_w s) \<and> calls_ok (rs_calls s) (rs_w s) \<and>
     kick_ok (rs_once s) (rs_w s)"

lemmas pump_defs = in_hand_def sent_ok_def locks_ok_def no_error_def

text \<open>Each part of the invariant depends on few fields: the updates it does not see.\<close>

lemma kick_ok_frame [simp]:
  "kick_ok once (w\<lparr>rw_c := c\<rparr>) = kick_ok once w"
  "kick_ok once (w\<lparr>rw_recvLock := b\<rparr>) = kick_ok once w"
  "kick_ok once (w\<lparr>rw_runLock := b\<rparr>) = kick_ok once w"
  "kick_ok once (w\<lparr>rw_done := b\<rparr>) = kick_ok once w"
  "kick_ok once (w\<lparr>rw_pump := q\<rparr>) = kick_ok once w"
  by (simp_all add: kick_ok_def)

lemma pump_frame [simp]:
  "in_hand (w\<lparr>rw_kick := k\<rparr>) = in_hand w" "in_hand (w\<lparr>rw_kickAcked := b\<rparr>) = in_hand w"
  "in_hand (w\<lparr>rw_recvLock := b\<rparr>) = in_hand w" "in_hand (w\<lparr>rw_c := c\<rparr>) = in_hand w"
  "sent_ok n (w\<lparr>rw_kick := k\<rparr>) = sent_ok n w" "sent_ok n (w\<lparr>rw_kickAcked := b\<rparr>) = sent_ok n w"
  "sent_ok n (w\<lparr>rw_recvLock := b\<rparr>) = sent_ok n w" "sent_ok n (w\<lparr>rw_c := c\<rparr>) = sent_ok n w"
  "locks_ok n (w\<lparr>rw_kick := k\<rparr>) = locks_ok n w" "locks_ok n (w\<lparr>rw_kickAcked := b\<rparr>) = locks_ok n w"
  "locks_ok n (w\<lparr>rw_recvLock := b\<rparr>) = locks_ok n w" "locks_ok n (w\<lparr>rw_c := c\<rparr>) = locks_ok n w"
  by (simp_all add: in_hand_def sent_ok_def locks_ok_def fun_eq_iff)

lemma calls_frame [simp]:
  "calls_ok n (w\<lparr>rw_kick := k\<rparr>) = calls_ok n w" "calls_ok n (w\<lparr>rw_kickAcked := b\<rparr>) = calls_ok n w"
  "calls_ok n (w\<lparr>rw_c := c\<rparr>) = calls_ok n w" "calls_ok n (w\<lparr>rw_runLock := b\<rparr>) = calls_ok n w"
  "calls_ok n (w\<lparr>rw_done := b\<rparr>) = calls_ok n w" "calls_ok n (w\<lparr>rw_pump := q\<rparr>) = calls_ok n w"
  by (simp_all add: calls_ok_def)

lemma kick_ok_new: "newRecvWrapper stream known = Done (known', w) \<Longrightarrow> kick_ok False w"
  by (auto simp: newRecvWrapper_def kick_ok_def split: if_splits)

lemma recv_inv_init:
  "newRecvWrapper stream known = Done (known', w) \<Longrightarrow> recv_inv input (recv_init input w)"
  using kick_ok_new [of stream known known' w]
  by (auto simp: newRecvWrapper_def recv_init_def recv_inv_def pump_defs calls_ok_def split: if_splits)

lemma recv_inv_start:
  "recv_inv input s \<Longrightarrow> Start (rs_w s) = Done w \<Longrightarrow>
   recv_inv input (s\<lparr>rs_w := w, rs_starts := Suc (rs_starts s)\<rparr>)"
  by (cases "rw_pump (rs_w s)") (auto simp: Start_def recv_inv_def pump_defs split: if_splits)

lemma recv_inv_pump_recv:
  "recv_inv input s \<Longrightarrow> rs_input s = p # ps \<Longrightarrow> pump_recv p (rs_w s) = Done w \<Longrightarrow>
   recv_inv input (s\<lparr>rs_w := w, rs_input := ps\<rparr>)"
  by (auto simp: pump_recv_def recv_inv_def pump_defs split: pump_state.splits)

lemma recv_inv_pump_send:
  assumes i: "recv_inv input s" and send: "pump_send (rs_w s) = Done w"
  shows "recv_inv input (s\<lparr>rs_w := w\<rparr>)"
proof -
  obtain p c where p: "rw_pump (rs_w s) = PumpSending p" and c: "chan_send p (rw_c (rs_w s)) = Done c"
    using send by (auto simp: pump_send_def split: pump_state.splits)
  have buf: "chan_buf c = chan_buf (rw_c (rs_w s)) @ [p]" by (rule chq.send_contents [OF c])
  have ch: "chan_ok c" "chan_cap c = 256" "\<not> chan_closed c"
    using i c chan_ok_send [OF _ c] chq.send_bound [OF c]
    by (auto simp: recv_inv_def chan_send_def split: if_splits)
  from send p c buf ch i show ?thesis
    by (auto simp: pump_send_def Let_def recv_inv_def pump_defs butlast_append split: if_splits)
qed

lemma recv_inv_begin:
  "recv_inv input s \<Longrightarrow> Recv_begin (rs_w s) = Done w \<Longrightarrow>
   recv_inv input (s\<lparr>rs_w := w, rs_calls := Suc (rs_calls s)\<rparr>)"
  by (auto simp: Recv_begin_def recv_inv_def calls_ok_def split: if_splits)

lemma recv_inv_payload:
  assumes i: "recv_inv input s" and "rw_recvLock (rs_w s)"
    and r: "Recv_payload (rs_w s) = Done ((r, e), w)"
  shows "recv_inv input
     (s\<lparr>rs_w := w, rs_delivered := rs_delivered s @ [\<lparr>pl_RPC = r, pl_Err = e\<rparr>],
        rs_calls := rs_calls s - 1\<rparr>)"
proof -
  obtain p ps where buf: "chan_buf (rw_c (rs_w s)) = p # ps"
    using i r by (cases "chan_buf (rw_c (rs_w s))")
      (auto simp: Recv_payload_def recv_inv_def chan_recv_def)
  with r have w: "w = (rs_w s)\<lparr>rw_c := (rw_c (rs_w s))\<lparr>chan_buf := ps\<rparr>, rw_recvLock := False\<rparr>"
    and p: "p = \<lparr>pl_RPC = r, pl_Err = e\<rparr>"
    by (auto simp: Recv_payload_def chan_recv_def)
  from i buf p assms(2) show ?thesis
    by (simp add: w recv_inv_def chan_ok_def calls_ok_def)
qed

lemma recv_inv_kicked:
  assumes i: "recv_inv input s" and "rw_recvLock (rs_w s)" and k: "Recv_kicked (rs_w s) = Done (x, w)"
  shows "recv_inv input (s\<lparr>rs_w := w, rs_calls := rs_calls s - 1\<rparr>)"
proof -
  obtain c where w: "w = (rs_w s)\<lparr>rw_kick := c, rw_kickAcked := True, rw_recvLock := False\<rparr>"
    using k by (auto simp: Recv_kicked_def split: option.splits if_splits)
  have "kick_ok (rs_once s) w"
    using i k by (auto simp: Recv_kicked_def recv_inv_def kick_ok_def chan_recv_def
        split: list.splits option.splits if_splits)
  with i assms(2) show ?thesis by (simp add: w recv_inv_def calls_ok_def)
qed

lemma kick_ok_kick_once:
  "kick_ok once w \<Longrightarrow> kick_once (Some e) once w = Done (o', w') \<Longrightarrow> kick_ok o' w'"
  by (auto simp: kick_once_def kick_ok_def chan_send_def split: if_splits)

lemma kick_once_total: "kick_ok once w \<Longrightarrow> \<exists>w'. kick_once (Some e) once w = Done (True, w')"
  by (auto simp: kick_once_def kick_ok_def chan_send_def split: if_splits)

lemma kick_once_fields:
  "kick_once err once w = Done (o', w') \<Longrightarrow> \<exists>k. w' = w\<lparr>rw_kick := k\<rparr>"
  by (cases w) (auto simp: kick_once_def split: if_splits)

lemma recv_inv_kick:
  assumes i: "recv_inv input s" and k: "kick_once (Some e) (rs_once s) (rs_w s) = Done (o', w)"
  shows "recv_inv input (s\<lparr>rs_w := w, rs_once := o'\<rparr>)"
proof -
  obtain c where w: "w = (rs_w s)\<lparr>rw_kick := c\<rparr>" using kick_once_fields [OF k] by blast
  have "kick_ok o' w" using i kick_ok_kick_once [OF _ k] by (simp add: recv_inv_def)
  with i show ?thesis by (simp add: w recv_inv_def)
qed

lemmas recv_inv_steps = recv_inv_start recv_inv_pump_recv recv_inv_pump_send recv_inv_begin
  recv_inv_payload recv_inv_kicked recv_inv_kick

lemma recv_inv_step: "recv_step s t \<Longrightarrow> recv_inv input s \<Longrightarrow> recv_inv input t"
  by (induction rule: recv_step.induct) (blast intro: recv_inv_steps)+

lemma recv_reachable_inv: "recv_reachable input s \<Longrightarrow> recv_inv input s"
  by (induction rule: recv_reachable.induct) (blast intro: recv_inv_init recv_inv_step)+

subsection \<open>Properties of the receiver\<close>

text \<open>
  C8: nothing is lost, duplicated or reordered between the stream and the caller of
  \<open>Recv\<close>: in every reachable state, what was delivered, then the channel, then the payload
  the pump holds, then what the stream has still to return is the stream's output; the
  channel never holds more than 256 payloads.
\<close>

theorem recv_fifo:
  assumes "recv_reachable input s"
  shows "rs_delivered s @ chan_buf (rw_c (rs_w s)) @ in_hand (rs_w s) @ rs_input s = input \<and>
         length (chan_buf (rw_c (rs_w s))) \<le> 256"
  using recv_reachable_inv [OF assms] by (simp add: recv_inv_def chan_ok_def)

text \<open>
  the pump stops at the first error of the stream and never calls \<open>stream.Recv\<close> again:
  once \<open>done\<close> is closed, what it took is an error-free prefix of the output and one error,
  unless somebody starts it again.
\<close>

lemma pump_stops_at_first_error:
  assumes "recv_reachable input s" and "Wait (rs_w s) = Done ()" and "rs_starts s \<le> 1"
  shows "\<exists>pre p. input = pre @ [p] @ rs_input s \<and> no_error pre \<and> pl_Err p \<noteq> None \<and>
         rs_delivered s @ chan_buf (rw_c (rs_w s)) = pre @ [p]"
proof -
  let ?sent = "rs_delivered s @ chan_buf (rw_c (rs_w s))"
  have "recv_inv input s" by (rule recv_reachable_inv [OF assms(1)])
  with assms(2,3) have i: "?sent @ rs_input s = input" "sent_ok (rs_starts s) (rs_w s) ?sent"
    and exited: "rw_pump (rs_w s) = PumpExited"
    by (auto simp: recv_inv_def Wait_def locks_ok_def in_hand_def split: if_splits)
  then have "?sent \<noteq> []" "no_error (butlast ?sent)" "pl_Err (last ?sent) \<noteq> None"
    using assms(3) unfolding sent_ok_def by simp_all
  then show ?thesis
    using i(1) by (intro exI [of _ "butlast ?sent"] exI [of _ "last ?sent"])
      (metis append_butlast_last_id append.assoc)
qed

lemma registered_once:
  assumes "newRecvWrapper i known = Done (known', w)"
  shows "(\<exists>p. newRecvWrapper j known' = Panics p) \<longleftrightarrow> j = i \<or> j \<in> set known"
  using assms by (auto simp: newRecvWrapper_def split: if_splits)

lemma forgotten_stream:
  assumes "forget_stream i ctx_done w known = Done known'"
  shows "(\<exists>p. newRecvWrapper j known' = Panics p) \<longleftrightarrow> j \<noteq> i \<and> j \<in> set known"
  using assms by (auto simp: newRecvWrapper_def forget_stream_def split: if_splits)

text \<open>
  C28: when a receiver panics, whatever the stream, its caller and the kickers do: a kick
  never blocks or panics, and neither does a case of the select of \<open>Recv\<close>. \<open>Recv\<close> panics
  exactly when another call of it is in progress, and \<open>Start\<close> exactly when the pump runs.
  The pump panics exactly when it passes on an error after the receiver was started again,
  once its first pump had ended: that \<open>Start\<close> returns, but \<open>done\<close> is closed twice. So a
  receiver that is started once, and read by one goroutine, never panics. A second receiver
  for a stream panics from the time the first is made until the stream is forgotten.
\<close>

theorem receiver_panics:
  assumes "recv_reachable input s"
  shows "(\<exists>w. kick_once (Some e) (rs_once s) (rs_w s) = Done (True, w)) \<and>
    Recv_payload (rs_w s) \<noteq> Panics msg \<and> Recv_kicked (rs_w s) \<noteq> Panics msg \<and>
    ((\<exists>p. Recv_begin (rs_w s) = Panics p) \<longleftrightarrow> 1 \<le> rs_calls s) \<and>
    ((\<exists>p. Start (rs_w s) = Panics p) \<longleftrightarrow>
       rw_pump (rs_w s) \<noteq> PumpNotStarted \<and> rw_pump (rs_w s) \<noteq> PumpExited) \<and>
    ((\<exists>p. pump_send (rs_w s) = Panics p) \<longleftrightarrow> 2 \<le> rs_starts s \<and>
       length (chan_buf (rw_c (rs_w s))) < 256 \<and>
       (\<exists>pl. rw_pump (rs_w s) = PumpSending pl \<and> pl_Err pl \<noteq> None)) \<and>
    (newRecvWrapper i known = Done (known', w') \<longrightarrow>
       ((\<exists>p. newRecvWrapper j known' = Panics p) \<longleftrightarrow> j = i \<or> j \<in> set known)) \<and>
    (forget_stream i ctx_done (rs_w s) known = Done known'' \<longrightarrow>
       ((\<exists>p. newRecvWrapper j known'' = Panics p) \<longleftrightarrow> j \<noteq> i \<and> j \<in> set known))"
    (is "?kick \<and> ?pl \<and> ?kicked \<and> ?rcv \<and> ?start \<and> ?send \<and> ?reg \<and> ?forget")
proof (intro conjI)
  have i: "recv_inv input s" by (rule recv_reachable_inv [OF assms])
  then have k: "kick_ok (rs_once s) (rs_w s)" by (simp add: recv_inv_def)
  from kick_once_total [OF k] show ?kick .
  show ?pl by (auto simp: Recv_payload_def chan_recv_def split: list.splits)
  show ?kicked
    using k by (auto simp: Recv_kicked_def chan_recv_def kick_ok_def
        split: list.splits option.splits if_splits)
  show ?rcv using i by (auto simp: Recv_begin_def recv_inv_def calls_ok_def)
  show ?start using i by (auto simp: Start_def recv_inv_def locks_ok_def)
  show ?send
    using i by (auto simp: pump_send_def chan_send_def recv_inv_def locks_ok_def Let_def
        split: pump_state.splits)
  show ?reg by (rule impI) (erule registered_once)
  show ?forget by (rule impI) (erule forgotten_stream)
qed

subsection \<open>Waiting for the pump when nobody receives\<close>

text \<open>The pump on its own, after the caller of \<open>Recv\<close> has stopped; \<open>ps\<close> is the stream's output.\<close>

fun pump_alone :: "recvPayload list \<Rightarrow> recvWrapper \<Rightarrow> recvWrapper" where
  "pump_alone [] w = w"
| "pump_alone (p # ps) w =
     (case pump_recv p w of
        Done w1 \<Rightarrow> (case pump_send w1 of Done w2 \<Rightarrow> pump_alone ps w2 | _ \<Rightarrow> pump_alone ps w1)
      | _ \<Rightarrow> w)"

lemma pump_alone_stuck: "rw_pump w \<noteq> PumpReceiving \<Longrightarrow> pump_alone ps w = w"
  by (cases ps) (auto simp: pump_recv_def split: pump_state.splits)

text \<open>
  After the caller of \<open>Recv\<close> has stopped (for instance because it was kicked), \<open>Wait\<close>
  returns exactly when the stream fails while the channel still has room: when more
  messages come first than the channel has room for, the pump blocks and \<open>Wait\<close>, on which
  \<open>CloseOrRecv\<close> blocks, never returns.
\<close>

lemma Wait_without_receiver:
  assumes "rw_pump w = PumpReceiving" and "\<not> rw_done w"
    and "\<not> chan_closed (rw_c w)" and "chan_cap (rw_c w) = 256"
  shows "Wait (pump_alone ps w) = Done () \<longleftrightarrow>
         list_ex (\<lambda>p. pl_Err p \<noteq> None) (take (256 - length (chan_buf (rw_c w))) ps)"
  using assms
proof (induction ps arbitrary: w)
  case Nil
  then show ?case by (simp add: Wait_def)
next
  case (Cons p ps)
  let ?n = "length (chan_buf (rw_c w))"
  let ?w2 = "w\<lparr>rw_c := (rw_c w)\<lparr>chan_buf := chan_buf (rw_c w) @ [p]\<rparr>,
               rw_pump := PumpReceiving\<rparr>"
  show ?case
  proof (cases "?n < 256")
    case False
    then have "pump_alone (p # ps) w = w\<lparr>rw_pump := PumpSending p\<rparr>"
      using Cons.prems by (simp add: pump_recv_def pump_send_def chan_send_def pump_alone_stuck)
    with Cons.prems False show ?thesis by (simp add: Wait_def)
  next
    case room: True
    then have n: "256 - ?n = Suc (256 - Suc ?n)" by simp
    show ?thesis
    proof (cases "pl_Err p = None")
      case True
      have "pump_alone (p # ps) w = pump_alone ps ?w2"
        using Cons.prems room True by (simp add: pump_recv_def pump_send_def chan_send_def Let_def)
      then show ?thesis
        using Cons.IH [of ?w2] Cons.prems True n by simp
    next
      case False
      then show ?thesis
        using Cons.prems room n
        by (simp add: pump_recv_def pump_send_def chan_send_def Let_def pump_alone_stuck Wait_def)
    qed
  qed
qed

subsection \<open>A run of the receiver\<close>

text \<open>A stream whose only result is \<open>io.EOF\<close>: the states of the run that delivers it.\<close>

definition eof_payload :: recvPayload where
  "eof_payload = \<lparr>pl_RPC = None, pl_Err = Some EOF\<rparr>"

definition sample_w :: "recvPayload list \<Rightarrow> pump_state \<Rightarrow> recvWrapper" where
  "sample_w buf q =
     \<lparr>rw_c = \<lparr>chan_buf = buf, chan_cap = 256, chan_closed = False\<rparr>, rw_kick = make_chan 1,
      rw_kickAcked = False, rw_runLock = (q \<noteq> PumpNotStarted \<and> q \<noteq> PumpExited),
      rw_recvLock = False, rw_done = (q = PumpExited), rw_pump = q\<rparr>"

definition sample_sys :: "recvPayload list \<Rightarrow> pump_state \<Rightarrow> recvPayload list \<Rightarrow> recv_sys" where
  "sample_sys buf q rest =
     \<lparr>rs_w = sample_w buf q, rs_once = False, rs_input = rest, rs_delivered = [],
      rs_starts = (if q = PumpNotStarted then 0 else 1), rs_calls = 0\<rparr>"

lemmas sample_recv_defs = sample_sys_def sample_w_def recv_init_def make_chan_def
  newRecvWrapper_def Start_def pump_recv_def pump_send_def chan_send_def eof_payload_def

lemma sample_run:
  "recv_reachable (eof_payload # rest) (sample_sys [eof_payload] PumpExited rest)"
proof -
  let ?in = "eof_payload # rest"
  have "newRecvWrapper 0 [] = Done ([0], sample_w [] PumpNotStarted)"
    by (simp add: sample_recv_defs)
  from rr_init [OF this]
  have 0: "recv_reachable ?in (sample_sys [] PumpNotStarted ?in)"
    by (simp add: recv_init_def sample_sys_def)
  have "recv_step (sample_sys [] PumpNotStarted ?in) (sample_sys [] PumpReceiving ?in)"
    using rs_start [of "sample_sys [] PumpNotStarted ?in" "sample_w [] PumpReceiving"]
    by (simp add: sample_recv_defs)
  with 0 have 1: "recv_reachable ?in (sample_sys [] PumpReceiving ?in)" by (rule rr_step)
  have "recv_step (sample_sys [] PumpReceiving ?in) (sample_sys [] (PumpSending eof_payload) rest)"
    using rs_pump_recv [of "sample_sys [] PumpReceiving ?in" eof_payload rest
        "sample_w [] (PumpSending eof_payload)"]
    by (simp add: sample_recv_defs)
  with 1 have 2: "recv_reachable ?in (sample_sys [] (PumpSending eof_payload) rest)"
    by (rule rr_step)
  have "recv_step (sample_sys [] (PumpSending eof_payload) rest)
          (sample_sys [eof_payload] PumpExited rest)"
    using rs_pump_send [of "sample_sys [] (PumpSending eof_payload) rest"
        "sample_w [eof_payload] PumpExited"]
    by (simp add: sample_recv_defs)
  with 2 show ?thesis by (rule rr_step)
qed

lemma sample_reachable: "recv_reachable [eof_payload] (sample_sys [eof_payload] PumpExited [])"
  by (rule sample_run)

theorem recv_fifo_witness:
  "recv_reachable [eof_payload] (sample_sys [eof_payload] PumpExited []) \<and>
   rs_delivered (sample_sys [eof_payload] PumpExited []) @ [eof_payload] = [eof_payload]"
  using recv_fifo [OF sample_reachable] sample_reachable
  by (simp add: sample_sys_def sample_w_def in_hand_def)

lemma pump_stops_at_first_error_witness:
  "Wait (rs_w (sample_sys [eof_payload] PumpExited [])) = Done () \<and>
   (\<exists>pre p. [eof_payload] = pre @ [p] @ rs_input (sample_sys [eof_payload] PumpExited []) \<and>
      no_error pre \<and> pl_Err p \<noteq> None)"
proof -
  have w: "Wait (rs_w (sample_sys [eof_payload] PumpExited [])) = Done ()"
    by (simp add: Wait_def sample_sys_def sample_w_def)
  show ?thesis
    using w pump_stops_at_first_error [OF sample_reachable w] by (simp add: sample_sys_def)
qed

text \<open>Started a second time after its end, the receiver panics at the next error.\<close>

definition restarted_sys :: recv_sys where
  "restarted_sys =
     \<lparr>rs_w = (sample_w [eof_payload] (PumpSending eof_payload))\<lparr>rw_done := True\<rparr>, rs_once = False,
      rs_input = [], rs_delivered = [], rs_starts = 2, rs_calls = 0\<rparr>"

lemma restarted_reachable: "recv_reachable [eof_payload, eof_payload] restarted_sys"
proof -
  let ?mid = "restarted_sys\<lparr>rs_w := (sample_w [eof_payload] PumpReceiving)\<lparr>rw_done := True\<rparr>,
    rs_input := [eof_payload]\<rparr>"
  have "recv_step (sample_sys [eof_payload] PumpExited [eof_payload]) ?mid"
    using rs_start [of "sample_sys [eof_payload] PumpExited [eof_payload]" "rs_w ?mid"]
    by (simp add: sample_recv_defs restarted_sys_def numeral_2_eq_2)
  moreover have "recv_step ?mid restarted_sys"
    using rs_pump_recv [of ?mid eof_payload "[]" "rs_w restarted_sys"]
    by (simp add: sample_recv_defs restarted_sys_def)
  ultimately show ?thesis using sample_run [of "[eof_payload]"] by (blast intro: rr_step)
qed

theorem receiver_panics_witness:
  "recv_reachable [eof_payload, eof_payload] restarted_sys \<and>
   (\<exists>p. pump_send (rs_w restarted_sys) = Panics p) \<and>
   \<not> (\<exists>p. Recv_begin (rs_w restarted_sys) = Panics p) \<and>
   (\<exists>p. newRecvWrapper 7 [7] = Panics p)"
proof -
  note r = receiver_panics [OF restarted_reachable, where i = 7 and j = 7 and known = "[]"
      and known' = "[7]" and w' = "sample_w [] PumpNotStarted"]
  have "newRecvWrapper 7 [] = Done ([7], sample_w [] PumpNotStarted)"
    by (simp add: sample_recv_defs)
  with r have "\<exists>p. newRecvWrapper 7 [7] = Panics p" by blast
  moreover have "2 \<le> rs_starts restarted_sys \<and> length (chan_buf (rw_c (rs_w restarted_sys))) < 256 \<and>
      (\<exists>pl. rw_pump (rs_w restarted_sys) = PumpSending pl \<and> pl_Err pl \<noteq> None)" "rs_calls restarted_sys = 0"
    by (simp_all add: restarted_sys_def sample_recv_defs)
  ultimately show ?thesis using r restarted_reachable by (metis not_one_le_zero)
qed

lemma Wait_without_receiver_witness:
  "Wait (pump_alone [eof_payload] (sample_w [] PumpReceiving)) = Done () \<and>
   Wait (pump_alone (replicate 257 \<lparr>pl_RPC = None, pl_Err = None\<rparr> @ [eof_payload])
     (sample_w [] PumpReceiving)) \<noteq> Done ()"
proof -
  have h: "rw_pump (sample_w [] PumpReceiving) = PumpReceiving"
    "\<not> rw_done (sample_w [] PumpReceiving)" "\<not> chan_closed (rw_c (sample_w [] PumpReceiving))"
    "chan_cap (rw_c (sample_w [] PumpReceiving)) = 256"
    "length (chan_buf (rw_c (sample_w [] PumpReceiving))) = 0"
    by (simp_all add: sample_w_def)
  note eq = Wait_without_receiver [OF h(1-4)]
  show ?thesis
    unfolding eq h(5) by (simp add: eof_payload_def list_ex_iff)
qed

end
