(* ===== verification/Controller.thy ===== *)
theory Controller
  imports Handlers Recv_Wrapper
begin

text \<open>
  The stream controller of stream.go, without \<open>handleRequest\<close> and \<open>ListServices\<close>, which
  have theories of their own.

  The record \<open>StreamController\<close> holds the fields of the source. The channels that
  \<open>Request\<close> makes live in a heap: \<open>pendingRPCs\<close> maps a tag to the address of a channel, and
  the caller of \<open>Request\<close> keeps the address. The stream is the interface \<open>Stream\<close>, whose
  implementation is not part of the repository: \<open>s_send\<close> is what its \<open>Send\<close> answers given
  the messages it was given before. Every \<open>Send\<close> is made under \<open>sendLock\<close>, so a send is one
  atomic step. The worker pool holds the submitted calls of \<open>handleRequest\<close>.
\<close>

subsection \<open>Streams\<close>

datatype stream_kind = ClientStreamKind | ServerStreamKind | OtherStreamKind

record stream =
  s_id :: nat
  s_kind :: stream_kind
  s_ctx :: ctx
  s_send :: "RPC list \<Rightarrow> RPC \<Rightarrow> go_error option"
  s_CloseSend :: "go_error option"
  s_attempts :: "RPC list"  \<comment> \<open>the messages \<open>Send\<close> was called with\<close>
  s_wire :: "RPC list"      \<comment> \<open>the messages \<open>Send\<close> accepted\<close>
  s_sendClosed :: bool

definition stream_Send :: "RPC \<Rightarrow> stream \<Rightarrow> go_error option \<times> stream" where
  "stream_Send m s =
     (let e = s_send s (s_attempts s) m; s1 = s\<lparr>s_attempts := s_attempts s @ [m]\<rparr>
      in (e, if e = None then s1\<lparr>s_wire := s_wire s @ [m]\<rparr> else s1))"

subsection \<open>The controller\<close>

record pool_task =
  task_ctx :: ctx
  task_msg :: RPC
  task_md :: metadata

record 'i StreamController =
  ctl_stream :: stream
  ctl_count :: tag
  pendingRPCs :: "tag \<rightharpoonup> nat"
  ctl_futures :: "nat \<rightharpoonup> RPC chan"
  ctl_nfut :: nat             \<comment> \<open>the next free address of a future\<close>
  ctl_receiver :: recvWrapper
  ctl_kickOnce :: bool
  ctl_services :: "string \<rightharpoonup> 'i ServiceHandlerList"
  ctl_uuid :: string
  ctl_Name :: string
  ctl_BaseTopologyFlags :: topology_flags
  ctl_pool :: "pool_task list"

definition Kick :: "go_error option \<Rightarrow> 'i StreamController \<Rightarrow> 'i StreamController outcome" where
  "Kick err st =
     obind (kick_once err (ctl_kickOnce st) (ctl_receiver st)) (\<lambda>(once, w).
       Done (st\<lparr>ctl_kickOnce := once, ctl_receiver := w\<rparr>))"

text \<open>The send at the end of \<open>Request\<close>, \<open>Reply\<close>, \<open>ReplyErr\<close> and \<open>StreamReply\<close>.\<close>

definition send_or_kick :: "RPC \<Rightarrow> 'i StreamController \<Rightarrow> 'i StreamController outcome" where
  "send_or_kick m st =
     (case stream_Send m (ctl_stream st) of
        (err, s) \<Rightarrow>
          (let st1 = st\<lparr>ctl_stream := s\<rparr> in
           case err of
             None \<Rightarrow> Done st1
           | Some e \<Rightarrow> if \<not> errors_Is_EOF e then Kick err st1 else Done st1))"

text \<open>The metadata of an outgoing message: the outgoing context, with the trace injected.\<close>

definition outgoing_md :: "lib \<Rightarrow> ctx \<Rightarrow> metadata" where
  "outgoing_md G c =
     (let md = (case FromOutgoingContext G c of None \<Rightarrow> [] | Some md \<Rightarrow> md)
      in if TracingEnabled G then otel_Inject G c md else md)"

text \<open>
  \<open>Request\<close> returns the address of the future. It writes the tag and the metadata into
  the message it was given, which the caller holds too, so the message is also returned.
\<close>

definition Request ::
  "lib \<Rightarrow> ctx \<Rightarrow> RPC \<Rightarrow> 'i StreamController \<Rightarrow> (nat \<times> RPC \<times> 'i StreamController) outcome" where
  "Request G c m st =
     (let m1 = m\<lparr>Metadata := FromMD (Some (outgoing_md G c))\<rparr>;
          tag = ctl_count st + 1;
          m2 = m1\<lparr>Tag := tag\<rparr>;
          ch = ctl_nfut st;
          st1 = st\<lparr>ctl_count := tag,
                   ctl_futures := (ctl_futures st)(ch \<mapsto> make_chan 1),
                   ctl_nfut := Suc ch,
                   pendingRPCs := (pendingRPCs st)(tag \<mapsto> ch)\<rparr>
      in obind (send_or_kick m2 st1) (\<lambda>st2. Done (ch, m2, st2)))"

definition response_msg :: "tag \<Rightarrow> bytes \<Rightarrow> rpc_status option \<Rightarrow> MD option \<Rightarrow> RPC" where
  "response_msg tag data stat md =
     \<lparr>Tag = tag, ServiceName = [], MethodName = [],
      Content = Some (RPC_Response (Some \<lparr>Response_bytes = data, StatusProto = stat\<rparr>)),
      Metadata = md\<rparr>"

definition Reply ::
  "lib \<Rightarrow> ctx \<Rightarrow> tag \<Rightarrow> bytes \<Rightarrow> 'i StreamController \<Rightarrow> 'i StreamController outcome" where
  "Reply G c tag data st =
     send_or_kick
       (response_msg tag data (Some \<lparr>st_code = OK, st_message = code_String G OK\<rparr>)
         (FromMD (Some (outgoing_md G c)))) st"

definition ReplyErr ::
  "lib \<Rightarrow> ctx \<Rightarrow> tag \<Rightarrow> go_error option \<Rightarrow> 'i StreamController \<Rightarrow> 'i StreamController outcome" where
  "ReplyErr G c tag reply st =
     send_or_kick
       (response_msg tag [] (status_Convert G reply) (FromMD (Some (outgoing_md G c)))) st"

definition StreamReply ::
  "tag \<Rightarrow> ServerStreamMessage option \<Rightarrow> 'i StreamController \<Rightarrow> 'i StreamController outcome" where
  "StreamReply tag msg st =
     send_or_kick
       \<lparr>Tag = tag, ServiceName = [], MethodName = [],
        Content = Some (RPC_ServerStreamMsg msg), Metadata = None\<rparr> st"

definition RegisterServiceHandler ::
  "'i ServiceHandler \<Rightarrow> 'i StreamController \<Rightarrow> 'i StreamController outcome" where
  "RegisterServiceHandler handler st =
     (let name = sd_Name (Descriptor handler);
          lst = (case ctl_services st name of Some l \<Rightarrow> l | None \<Rightarrow> empty_list)
      in obind (Append handler lst) (\<lambda>lst'.
           Done (st\<lparr>ctl_services := (ctl_services st)(name \<mapsto> lst')\<rparr>)))"

subsection \<open>The receive loop\<close>

datatype 'i run_result =
    RunContinue "'i StreamController"
  | RunReturns "go_error option" "'i StreamController"
  | RunBlocks
  | RunPanics string

text \<open>The context that the loop makes for a message.\<close>

definition incoming_ctx :: "lib \<Rightarrow> ctx \<Rightarrow> RPC \<Rightarrow> ctx" where
  "incoming_ctx G c msg =
     (let md = ToMD (Metadata msg); c1 = NewIncomingContext G c md
      in if TracingEnabled G then otel_Extract G c1 md else c1)"

definition unexpected_tag :: "tag \<Rightarrow> string" where
  "unexpected_tag t = ''fatal: unexpected tag: '' @ show_nat (unat t)"

text \<open>The send on a future, \<open>future <- msg\<close>.\<close>

definition send_future ::
  "nat \<Rightarrow> RPC \<Rightarrow> 'i StreamController \<Rightarrow> 'i StreamController outcome" where
  "send_future ch msg st =
     (case ctl_futures st ch of
        None \<Rightarrow> Panics ''no such channel''
      | Some c \<Rightarrow> obind (chan_send msg c) (\<lambda>c'.
          Done (st\<lparr>ctl_futures := (ctl_futures st)(ch \<mapsto> c')\<rparr>)))"

definition close_future :: "nat \<Rightarrow> 'i StreamController \<Rightarrow> 'i StreamController outcome" where
  "close_future ch st =
     (case ctl_futures st ch of
        None \<Rightarrow> Panics ''no such channel''
      | Some c \<Rightarrow> obind (chan_close c) (\<lambda>c'.
          Done (st\<lparr>ctl_futures := (ctl_futures st)(ch \<mapsto> c')\<rparr>)))"

fun run_of :: "'i StreamController outcome \<Rightarrow> 'i run_result" where
  "run_of (Done st) = RunContinue st"
| "run_of Blocks = RunBlocks"
| "run_of (Panics s) = RunPanics s"

text \<open>The body of the loop of \<open>Run\<close> for a message the receiver returned.\<close>

definition run_dispatch :: "lib \<Rightarrow> ctx \<Rightarrow> RPC \<Rightarrow> 'i StreamController \<Rightarrow> 'i run_result" where
  "run_dispatch G c msg st =
     (case Content msg of
        Some (RPC_Request _) \<Rightarrow>
          RunContinue (st\<lparr>ctl_pool := ctl_pool st @
            [\<lparr>task_ctx = incoming_ctx G c msg, task_msg = msg, task_md = ToMD (Metadata msg)\<rparr>]\<rparr>)
      | Some (RPC_Response _) \<Rightarrow>
          (case pendingRPCs st (Tag msg) of
             None \<Rightarrow> RunPanics (unexpected_tag (Tag msg))
           | Some future \<Rightarrow>
               run_of (obind
                 (send_future future msg (st\<lparr>pendingRPCs := (pendingRPCs st)(Tag msg := None)\<rparr>))
                 (close_future future)))
      | Some (RPC_ServerStreamMsg _) \<Rightarrow>
          (case pendingRPCs st (Tag msg) of
             None \<Rightarrow> RunPanics (unexpected_tag (Tag msg))
           | Some future \<Rightarrow> run_of (send_future future msg st))
      | None \<Rightarrow> RunReturns (Some (ErrorString ''invalid content type'')) st)"

text \<open>
  The end of \<open>Run\<close>: \<open>pendingRPCs.Range\<close> cancels every pending RPC. The iteration order is
  not specified: \<open>tags\<close> is the order in which the iteration visits the entries.
\<close>

definition cancel_msg :: "lib \<Rightarrow> go_error option \<Rightarrow> tag \<Rightarrow> RPC" where
  "cancel_msg G streamErr tag = response_msg tag [] (status_Convert G streamErr) None"

fun cancel_pending ::
  "lib \<Rightarrow> go_error option \<Rightarrow> tag list \<Rightarrow> 'i StreamController \<Rightarrow> 'i StreamController outcome" where
  "cancel_pending G streamErr [] st = Done st"
| "cancel_pending G streamErr (tag # tags) st =
     (case pendingRPCs st tag of
        None \<Rightarrow> cancel_pending G streamErr tags st
      | Some future \<Rightarrow>
          obind (send_future future (cancel_msg G streamErr tag) st) (\<lambda>st1.
          obind (close_future future st1) (\<lambda>st2.
            cancel_pending G streamErr tags
              (st2\<lparr>pendingRPCs := (pendingRPCs st2)(tag := None)\<rparr>))))"

text \<open>
  The loop of \<open>Run\<close> on the results that \<open>receiver.Recv\<close> returns one after the other: an
  error ends the loop, \<open>io.EOF\<close> without an error of its own. The calls in the pool are
  waited for by \<open>StopAndWait\<close> after this and run in steps of their own.
\<close>

fun run_loop ::
  "lib \<Rightarrow> ctx \<Rightarrow> ('i StreamController \<Rightarrow> tag list) \<Rightarrow> (RPC option \<times> go_error option) list \<Rightarrow>
   'i StreamController \<Rightarrow> 'i run_result" where
  "run_loop G c order [] st = RunBlocks"
| "run_loop G c order ((msg, err) # rs) st =
     (case err of
        Some e \<Rightarrow>
          (let streamErr = (if \<not> errors_Is_EOF e then Some e else None) in
           case cancel_pending G streamErr (order st) st of
             Done st' \<Rightarrow> RunReturns streamErr st'
           | Blocks \<Rightarrow> RunBlocks
           | Panics s \<Rightarrow> RunPanics s)
      | None \<Rightarrow>
          (case msg of
             None \<Rightarrow> RunPanics ''nil pointer dereference''
           | Some m \<Rightarrow>
               (case run_dispatch G c m st of
                  RunContinue st' \<Rightarrow> run_loop G c order rs st'
                | r \<Rightarrow> r)))"

definition Run ::
  "lib \<Rightarrow> ctx \<Rightarrow> ('i StreamController \<Rightarrow> tag list) \<Rightarrow> (RPC option \<times> go_error option) list \<Rightarrow>
   'i StreamController \<Rightarrow> 'i run_result" where
  "Run G c order rs st =
     (case Start (ctl_receiver st) of
        Done w \<Rightarrow> run_loop G c order rs (st\<lparr>ctl_receiver := w\<rparr>)
      | Blocks \<Rightarrow> RunBlocks
      | Panics s \<Rightarrow> RunPanics s)"

subsection \<open>Closing\<close>

text \<open>The loop of \<open>CloseOrRecv\<close> on a server stream; \<open>rs\<close> are the results of \<open>stream.Recv\<close>.\<close>

fun recv_until_error :: "(go_error + RPC) list \<Rightarrow> go_error option outcome" where
  "recv_until_error [] = Blocks"
| "recv_until_error (Inr _ # rs) = recv_until_error rs"
| "recv_until_error (Inl e # rs) = Done (if errors_Is_EOF e then None else Some e)"

definition CloseOrRecv ::
  "(go_error + RPC) list \<Rightarrow> 'i StreamController \<Rightarrow> (go_error option \<times> 'i StreamController) outcome" where
  "CloseOrRecv rs st =
     (case s_kind (ctl_stream st) of
        ClientStreamKind \<Rightarrow>
          (let st1 = st\<lparr>ctl_stream := (ctl_stream st)\<lparr>s_sendClosed := True\<rparr>\<rparr> in
           case s_CloseSend (ctl_stream st) of
             Some e \<Rightarrow> Done (Some e, st1)
           | None \<Rightarrow> obind (Wait (ctl_receiver st1)) (\<lambda>_. Done (None, st1)))
      | ServerStreamKind \<Rightarrow>
          obind (Wait (ctl_receiver st)) (\<lambda>_.
          obind (recv_until_error rs) (\<lambda>e. Done (e, st)))
      | OtherStreamKind \<Rightarrow> Done (None, st))"

text \<open>The struct literal of \<open>NewStreamController\<close>, with the receiver it made.\<close>

definition new_controller ::
  "stream \<Rightarrow> recvWrapper \<Rightarrow> string \<Rightarrow> string \<Rightarrow> topology_flags \<Rightarrow> 'i StreamController" where
  "new_controller stream receiver uuid name flags =
     \<lparr>ctl_stream = stream, ctl_count = 0, pendingRPCs = Map.empty, ctl_futures = Map.empty,
      ctl_nfut = 0, ctl_receiver = receiver, ctl_kickOnce = False, ctl_services = Map.empty,
      ctl_uuid = uuid, ctl_Name = name, ctl_BaseTopologyFlags = flags, ctl_pool = []\<rparr>"

text \<open>The receive on a future, \<open>rpc := <-future\<close>, as its holders do it.\<close>

definition recv_future ::
  "nat \<Rightarrow> 'i StreamController \<Rightarrow> (RPC option \<times> 'i StreamController) outcome" where
  "recv_future ch st =
     (case ctl_futures st ch of
        None \<Rightarrow> Blocks
      | Some c \<Rightarrow> obind (chan_recv c) (\<lambda>(v, c').
          Done (v, st\<lparr>ctl_futures := (ctl_futures st)(ch \<mapsto> c')\<rparr>)))"

declare Kick_def [ctl_defs] send_or_kick_def [ctl_defs] Request_def [ctl_defs]
  Reply_def [ctl_defs] ReplyErr_def [ctl_defs] StreamReply_def [ctl_defs]
  send_future_def [ctl_defs] close_future_def [ctl_defs] run_dispatch_def [ctl_defs]

subsection \<open>The invariant of the controller\<close>

text \<open>
  Tags and futures are made together, so the future at address \<open>ch\<close> belongs to the tag
  \<open>Suc ch\<close> (modulo \<open>2 ^ 64\<close>): a future holds only messages with its own tag, a pending tag
  points to its own future, and that future is open.
\<close>

definition tag_of :: "nat \<Rightarrow> tag" where
  "tag_of ch = of_nat (Suc ch)"

lemma unat_tag_of: "Suc k < 2 ^ 64 \<Longrightarrow> unat (tag_of k) = Suc k"
  unfolding tag_of_def by (subst unat_of_nat) simp

lemma tag_of_inj:
  assumes "k < n" and "j < n" and "n < 2 ^ 64" and "tag_of k = tag_of j"
  shows "k = j"
proof -
  have "unat (tag_of k) = Suc k" by (rule unat_tag_of [OF le_less_trans [OF Suc_leI [OF assms(1)] assms(3)]])
  moreover have "unat (tag_of j) = Suc j" by (rule unat_tag_of [OF le_less_trans [OF Suc_leI [OF assms(2)] assms(3)]])
  ultimately show ?thesis using assms(4) by (metis nat.inject)
qed

definition future_ok :: "nat \<Rightarrow> RPC chan \<Rightarrow> bool" where
  "future_ok ch c \<longleftrightarrow>
     chan_cap c = 1 \<and> chan_ok c \<and> list_all (\<lambda>m. Tag m = tag_of ch) (chan_buf c)"

definition futures_ok :: "'i StreamController \<Rightarrow> bool" where
  "futures_ok st \<longleftrightarrow>
     ctl_count st = of_nat (ctl_nfut st) \<and>
     dom (ctl_futures st) = {..<ctl_nfut st} \<and>
     (\<forall>ch c. ctl_futures st ch = Some c \<longrightarrow> future_ok ch c)"

definition pending_ok :: "'i StreamController \<Rightarrow> bool" where
  "pending_ok st \<longleftrightarrow>
     (\<forall>t ch. pendingRPCs st t = Some ch \<longrightarrow>
        t = tag_of ch \<and> (\<exists>c. ctl_futures st ch = Some c \<and> \<not> chan_closed c))"

definition ctl_inv :: "'i StreamController \<Rightarrow> bool" where
  "ctl_inv st \<longleftrightarrow>
     futures_ok st \<and> pending_ok st \<and> kick_ok (ctl_kickOnce st) (ctl_receiver st)"

lemma ctl_inv_new: "kick_ok False w \<Longrightarrow> ctl_inv (new_controller s w u n f)"
  by (simp add: ctl_inv_def futures_ok_def pending_ok_def new_controller_def)

lemma Kick_Done:
  assumes "kick_ok (ctl_kickOnce st) (ctl_receiver st)"
  shows "\<exists>w. Kick (Some e) st = Done (st\<lparr>ctl_kickOnce := True, ctl_receiver := w\<rparr>) \<and> kick_ok True w"
proof -
  obtain w where w: "kick_once (Some e) (ctl_kickOnce st) (ctl_receiver st) = Done (True, w)"
    using kick_once_total [OF assms] by blast
  then have "kick_ok True w" using kick_ok_kick_once [OF assms] by blast
  with w show ?thesis by (auto simp: Kick_def)
qed

text \<open>
  A send always returns. It touches the stream and perhaps the kick, nothing else; the
  message is on the wire exactly when \<open>stream.Send\<close> accepted it.
\<close>

lemma send_or_kick_Done:
  assumes "kick_ok (ctl_kickOnce st) (ctl_receiver st)"
  obtains s once w where
    "send_or_kick m st = Done (st\<lparr>ctl_stream := s, ctl_kickOnce := once, ctl_receiver := w\<rparr>)"
    and "kick_ok once w"
    and "s_wire s = s_wire (ctl_stream st) @
           (if s_send (ctl_stream st) (s_attempts (ctl_stream st)) m = None then [m] else [])"
    and "s_attempts s = s_attempts (ctl_stream st) @ [m]" and "s_send s = s_send (ctl_stream st)"
    and "s_ctx s = s_ctx (ctl_stream st)" and "s_id s = s_id (ctl_stream st)"
    and "once = (ctl_kickOnce st \<or>
           (\<exists>e. s_send (ctl_stream st) (s_attempts (ctl_stream st)) m = Some e \<and> \<not> errors_Is_EOF e))"
proof -
  let ?r = "s_send (ctl_stream st) (s_attempts (ctl_stream st)) m"
  obtain s where s: "stream_Send m (ctl_stream st) = (?r, s)"
    "s_wire s = s_wire (ctl_stream st) @ (if ?r = None then [m] else [])"
    "s_attempts s = s_attempts (ctl_stream st) @ [m]" "s_send s = s_send (ctl_stream st)"
    "s_ctx s = s_ctx (ctl_stream st)" "s_id s = s_id (ctl_stream st)"
    by (simp add: stream_Send_def Let_def)
  show ?thesis
  proof (cases "\<exists>e. ?r = Some e \<and> \<not> errors_Is_EOF e")
    case True
    then obtain e where e: "?r = Some e" "\<not> errors_Is_EOF e" by blast
    obtain w where "Kick (Some e) (st\<lparr>ctl_stream := s\<rparr>) =
        Done (st\<lparr>ctl_stream := s, ctl_kickOnce := True, ctl_receiver := w\<rparr>)" "kick_ok True w"
      using Kick_Done [of "st\<lparr>ctl_stream := s\<rparr>" e] assms by auto
    with e s show ?thesis
      by (intro that [where s = s and once = True and w = w]) (auto simp: send_or_kick_def Let_def)
  next
    case False
    then have "send_or_kick m st =
        Done (st\<lparr>ctl_stream := s, ctl_kickOnce := ctl_kickOnce st, ctl_receiver := ctl_receiver st\<rparr>)"
      using s(1) by (auto simp: send_or_kick_def Let_def split: option.splits)
    with s assms False show ?thesis
      by (intro that [where s = s and once = "ctl_kickOnce st" and w = "ctl_receiver st"]) auto
  qed
qed

lemma ctl_inv_frame:
  "ctl_inv (st\<lparr>ctl_stream := s, ctl_kickOnce := once, ctl_receiver := w\<rparr>) \<longleftrightarrow>
   futures_ok st \<and> pending_ok st \<and> kick_ok once w"
  by (simp add: ctl_inv_def futures_ok_def pending_ok_def)

lemma ctl_inv_send_or_kick:
  assumes "ctl_inv st"
  shows "\<exists>st'. send_or_kick m st = Done st' \<and> ctl_inv st'"
  using assms send_or_kick_Done [of st m] by (metis ctl_inv_def ctl_inv_frame)

text \<open>The state of a request before its message is sent.\<close>

definition with_call :: "'i StreamController \<Rightarrow> 'i StreamController" where
  "with_call st =
     st\<lparr>ctl_count := ctl_count st + 1,
        ctl_futures := (ctl_futures st)(ctl_nfut st \<mapsto> make_chan 1),
        ctl_nfut := Suc (ctl_nfut st),
        pendingRPCs := (pendingRPCs st)(ctl_count st + 1 \<mapsto> ctl_nfut st)\<rparr>"

lemma Request_alt:
  "Request G c m st =
     obind (send_or_kick (m\<lparr>Metadata := FromMD (Some (outgoing_md G c)), Tag := ctl_count st + 1\<rparr>)
              (with_call st))
       (\<lambda>st2. Done (ctl_nfut st,
          m\<lparr>Metadata := FromMD (Some (outgoing_md G c)), Tag := ctl_count st + 1\<rparr>, st2))"
  by (simp add: Request_def with_call_def Let_def)

lemma ctl_inv_with_call:
  assumes "ctl_inv st"
  shows "ctl_inv (with_call st)"
proof -
  have "future_ok ch (make_chan 1)" for ch by (simp add: future_ok_def)
  moreover have "dom ((ctl_futures st)(ctl_nfut st \<mapsto> make_chan 1)) = {..<Suc (ctl_nfut st)}"
    using assms by (auto simp: ctl_inv_def futures_ok_def)
  ultimately have "futures_ok (with_call st)"
    using assms by (auto simp: ctl_inv_def futures_ok_def with_call_def)
  moreover have "ctl_futures st (ctl_nfut st) = None"
    using assms by (auto simp: ctl_inv_def futures_ok_def dom_def set_eq_iff)
  then have "pending_ok (with_call st)"
    using assms by (auto simp: ctl_inv_def futures_ok_def pending_ok_def with_call_def tag_of_def)
  ultimately show ?thesis using assms by (simp add: ctl_inv_def with_call_def)
qed

lemma ctl_inv_Request:
  assumes "ctl_inv st"
  shows "\<exists>m' st'. Request G c m st = Done (ctl_nfut st, m', st') \<and> ctl_inv st'"
  using ctl_inv_send_or_kick [OF ctl_inv_with_call [OF assms]] unfolding Request_alt by fastforce

lemma ctl_inv_future:
  assumes "ctl_inv st" and "ctl_futures st ch = Some c" and "future_ok ch c'"
    and "pendingRPCs st (tag_of ch) = Some ch \<Longrightarrow> \<not> chan_closed c'"
  shows "ctl_inv (st\<lparr>ctl_futures := (ctl_futures st)(ch \<mapsto> c')\<rparr>)"
  using assms by (auto simp: ctl_inv_def futures_ok_def pending_ok_def)

subsection \<open>The receive loop on a consistent controller\<close>

lemma pending_future:
  assumes "ctl_inv st" and "pendingRPCs st t = Some ch"
  obtains c where "ctl_futures st ch = Some c" and "\<not> chan_closed c" and "chan_cap c = 1"
    and "t = tag_of ch" and "future_ok ch c"
proof -
  obtain c where "ctl_futures st ch = Some c" "\<not> chan_closed c" "t = tag_of ch"
    using assms by (auto simp: ctl_inv_def pending_ok_def)
  moreover from this assms(1) have "future_ok ch c" by (auto simp: ctl_inv_def futures_ok_def)
  ultimately show ?thesis using that by (simp add: future_ok_def)
qed

lemma future_ok_single [simp]:
  "future_ok ch \<lparr>chan_buf = [m], chan_cap = 1, chan_closed = b\<rparr> \<longleftrightarrow> Tag m = tag_of ch"
  "future_ok ch \<lparr>chan_buf = [m], chan_cap = Suc 0, chan_closed = b\<rparr> \<longleftrightarrow> Tag m = tag_of ch"
  by (simp_all add: future_ok_def chan_ok_def)

text \<open>Whether a future has room, as its capacity is one.\<close>

definition future_empty :: "'i StreamController \<Rightarrow> nat \<Rightarrow> bool" where
  "future_empty st ch \<longleftrightarrow> (\<exists>c. ctl_futures st ch = Some c \<and> chan_buf c = [])"

definition answered :: "'i StreamController \<Rightarrow> nat \<Rightarrow> RPC \<Rightarrow> 'i StreamController" where
  "answered st ch msg =
     st\<lparr>ctl_futures := (ctl_futures st)(ch \<mapsto>
          \<lparr>chan_buf = [msg], chan_cap = 1, chan_closed = True\<rparr>),
        pendingRPCs := (pendingRPCs st)(tag_of ch := None)\<rparr>"

definition streamed :: "'i StreamController \<Rightarrow> nat \<Rightarrow> RPC \<Rightarrow> 'i StreamController" where
  "streamed st ch msg =
     st\<lparr>ctl_futures := (ctl_futures st)(ch \<mapsto>
          \<lparr>chan_buf = [msg], chan_cap = 1, chan_closed = False\<rparr>)\<rparr>"

lemma send_pending:
  assumes "ctl_inv st" and "pendingRPCs st t = Some ch" and "pendingRPCs st' = p"
    and "ctl_futures st' = ctl_futures st"
  shows "send_future ch msg st' =
    (if future_empty st ch then
       Done (st'\<lparr>ctl_futures := (ctl_futures st)(ch \<mapsto>
               \<lparr>chan_buf = [msg], chan_cap = 1, chan_closed = False\<rparr>)\<rparr>)
     else Blocks)"
proof -
  obtain c where c: "ctl_futures st ch = Some c" "\<not> chan_closed c" "chan_cap c = 1"
    using pending_future [OF assms(1,2)] .
  then show ?thesis
    using assms(4) by (cases c) (auto simp: send_future_def chan_send_def future_empty_def Suc_le_eq)
qed

lemma close_sent:
  "ctl_futures st ch = Some \<lparr>chan_buf = b, chan_cap = n, chan_closed = False\<rparr> \<Longrightarrow>
   close_future ch st =
     Done (st\<lparr>ctl_futures := (ctl_futures st)(ch \<mapsto>
            \<lparr>chan_buf = b, chan_cap = n, chan_closed = True\<rparr>)\<rparr>)"
  by (simp add: close_future_def chan_close_def)

text \<open>What the loop does with a response and with a stream message, on every branch.\<close>

lemma run_dispatch_response:
  assumes "ctl_inv st" and "Content msg = Some (RPC_Response r)"
  shows "run_dispatch G c msg st =
    (case pendingRPCs st (Tag msg) of
       None \<Rightarrow> RunPanics (unexpected_tag (Tag msg))
     | Some ch \<Rightarrow> if future_empty st ch then RunContinue (answered st ch msg) else RunBlocks)"
proof (cases "pendingRPCs st (Tag msg)")
  case None
  with assms show ?thesis by (simp add: run_dispatch_def)
next
  case (Some ch)
  then have t: "Tag msg = tag_of ch" using pending_future [OF assms(1)] by metis
  show ?thesis
    using assms Some t
      send_pending [OF assms(1) Some refl,
        of "st\<lparr>pendingRPCs := (pendingRPCs st)(Tag msg := None)\<rparr>" msg]
    by (auto simp: run_dispatch_def close_sent answered_def)
qed

lemma run_dispatch_stream_msg:
  assumes "ctl_inv st" and "Content msg = Some (RPC_ServerStreamMsg r)"
  shows "run_dispatch G c msg st =
    (case pendingRPCs st (Tag msg) of
       None \<Rightarrow> RunPanics (unexpected_tag (Tag msg))
     | Some ch \<Rightarrow> if future_empty st ch then RunContinue (streamed st ch msg) else RunBlocks)"
  using assms send_pending [OF assms(1) _ refl refl, of "Tag msg"]
  by (auto simp: run_dispatch_def streamed_def split: option.splits)

lemma ctl_inv_answered:
  assumes "ctl_inv st" and "pendingRPCs st (Tag msg) = Some ch"
  shows "ctl_inv (answered st ch msg)"
proof -
  obtain c where c: "ctl_futures st ch = Some c" "Tag msg = tag_of ch"
    using pending_future [OF assms] by metis
  moreover have "ch < ctl_nfut st" using c(1) assms(1) by (auto simp: ctl_inv_def futures_ok_def)
  ultimately show ?thesis
    using assms(1)
    by (auto simp: ctl_inv_def futures_ok_def pending_ok_def answered_def)
qed

lemma ctl_inv_streamed:
  assumes "ctl_inv st" and "pendingRPCs st (Tag msg) = Some ch"
  shows "ctl_inv (streamed st ch msg)"
proof -
  obtain c where c: "ctl_futures st ch = Some c" "Tag msg = tag_of ch"
    using pending_future [OF assms] by metis
  moreover have "ch < ctl_nfut st" using c(1) assms(1) by (auto simp: ctl_inv_def futures_ok_def)
  ultimately show ?thesis
    using assms(1)
    by (auto simp: ctl_inv_def futures_ok_def pending_ok_def streamed_def)
qed

lemma ctl_inv_pool: "ctl_inv (st\<lparr>ctl_pool := p\<rparr>) = ctl_inv st"
  by (simp add: ctl_inv_def futures_ok_def pending_ok_def)

lemma ctl_inv_run_dispatch:
  assumes "ctl_inv st" and "run_dispatch G c msg st = RunContinue st'"
  shows "ctl_inv st'"
proof (cases "Content msg")
  case None
  with assms show ?thesis by (simp add: run_dispatch_def)
next
  case (Some x)
  then show ?thesis
  proof (cases x)
    case (RPC_Request b)
    with assms Some show ?thesis by (auto simp: run_dispatch_def ctl_inv_pool)
  next
    case (RPC_Response r)
    with assms Some run_dispatch_response [OF assms(1)] show ?thesis
      by (auto intro: ctl_inv_answered split: option.splits if_splits)
  next
    case (RPC_ServerStreamMsg r)
    with assms Some run_dispatch_stream_msg [OF assms(1)] show ?thesis
      by (auto intro: ctl_inv_streamed split: option.splits if_splits)
  qed
qed

lemma ctl_inv_recv_future:
  assumes "ctl_inv st" and "recv_future ch st = Done (r, st')"
  shows "ctl_inv st'"
proof -
  obtain c c' where c: "ctl_futures st ch = Some c" "chan_recv c = Done (r, c')"
    and st': "st' = st\<lparr>ctl_futures := (ctl_futures st)(ch \<mapsto> c')\<rparr>"
    using assms(2) by (auto simp: recv_future_def split: option.splits)
  have ok: "future_ok ch c" using assms(1) c(1) by (auto simp: ctl_inv_def futures_ok_def)
  have c': "chan_closed c' = chan_closed c" "future_ok ch c'"
    using c(2) ok by (auto simp: chan_recv_def future_ok_def chan_ok_def split: list.splits if_splits)
  have "\<not> chan_closed c'" if "pendingRPCs st (tag_of ch) = Some ch"
    using pending_future [OF assms(1) that] c(1) c'(1) by (metis option.inject)
  with assms(1) c(1) c'(2) show ?thesis unfolding st' by (rule ctl_inv_future)
qed

subsection \<open>Cancelling the pending RPCs\<close>

definition cancelled :: "lib \<Rightarrow> go_error option \<Rightarrow> tag list \<Rightarrow> 'i StreamController \<Rightarrow> 'i StreamController" where
  "cancelled G e tags st =
     st\<lparr>pendingRPCs := pendingRPCs st |` (- set tags),
        ctl_futures := (\<lambda>ch. if tag_of ch \<in> set tags \<and> pendingRPCs st (tag_of ch) = Some ch
          then Some \<lparr>chan_buf = [cancel_msg G e (tag_of ch)], chan_cap = 1, chan_closed = True\<rparr>
          else ctl_futures st ch)\<rparr>"

lemma Tag_cancel_msg [simp]: "Tag (cancel_msg G e t) = t"
  by (simp add: cancel_msg_def response_msg_def)

lemma cancel_one:
  assumes "ctl_inv st" and "pendingRPCs st tag = Some ch"
  shows "cancel_pending G e (tag # tags) st =
    (if future_empty st ch then cancel_pending G e tags (answered st ch (cancel_msg G e tag)) else Blocks)"
proof -
  have t: "tag = tag_of ch" using pending_future [OF assms] by metis
  show ?thesis
    using assms(2) send_pending [OF assms refl refl, of "cancel_msg G e tag"]
    by (auto simp: close_sent answered_def t)
qed

lemma cancelled_eqI:
  assumes "pendingRPCs st |` (- set tags) = pendingRPCs st' |` (- set tags')"
    and "ctl_futures (cancelled G e tags st) = ctl_futures (cancelled G e tags' st')"
    and "st' = st\<lparr>pendingRPCs := pendingRPCs st', ctl_futures := ctl_futures st'\<rparr>"
  shows "cancelled G e tags st = cancelled G e tags' st'"
  using assms by (cases st; cases st') (simp add: cancelled_def)

lemma cancelled_Cons_Some:
  assumes "ctl_inv st" and "pendingRPCs st tag = Some ch"
  shows "cancelled G e tags (answered st ch (cancel_msg G e tag)) = cancelled G e (tag # tags) st"
proof (rule cancelled_eqI)
  have t: "tag = tag_of ch" using pending_future [OF assms] by metis
  show "pendingRPCs (answered st ch (cancel_msg G e tag)) |` (- set tags) =
        pendingRPCs st |` (- set (tag # tags))"
    by (rule ext) (simp add: answered_def restrict_map_def t)
  show "ctl_futures (cancelled G e tags (answered st ch (cancel_msg G e tag))) =
        ctl_futures (cancelled G e (tag # tags) st)"
  proof (rule ext)
    fix ch'
    show "ctl_futures (cancelled G e tags (answered st ch (cancel_msg G e tag))) ch' =
          ctl_futures (cancelled G e (tag # tags) st) ch'"
    proof (cases "ch' = ch")
      case True
      with assms(2) t show ?thesis by (simp add: cancelled_def answered_def)
    next
      case False
      with assms(2) t have "pendingRPCs st (tag_of ch') = Some ch' \<Longrightarrow> tag_of ch' \<noteq> tag" by auto
      with False t show ?thesis by (auto simp: cancelled_def answered_def)
    qed
  qed
qed (simp add: answered_def)

lemma cancelled_Cons_None:
  assumes "pendingRPCs st tag = None"
  shows "cancelled G e (tag # tags) st = cancelled G e tags st"
proof (rule cancelled_eqI)
  show "pendingRPCs st |` (- set (tag # tags)) = pendingRPCs st |` (- set tags)"
    by (rule ext) (simp add: restrict_map_def assms)
  show "ctl_futures (cancelled G e (tag # tags) st) = ctl_futures (cancelled G e tags st)"
    using assms by (intro ext) (auto simp: cancelled_def)
qed simp

lemma cancel_pending_eq:
  assumes "ctl_inv st"
  shows "cancel_pending G e tags st =
    (if \<forall>t \<in> set tags. \<forall>ch. pendingRPCs st t = Some ch \<longrightarrow> future_empty st ch
     then Done (cancelled G e tags st) else Blocks)"
  using assms
proof (induction tags arbitrary: st)
  case Nil
  have "pendingRPCs st |` UNIV = pendingRPCs st" by (simp add: restrict_map_def fun_eq_iff)
  then show ?case by (simp add: cancelled_def)
next
  case (Cons tag tags)
  show ?case
  proof (cases "pendingRPCs st tag")
    case None
    then show ?thesis using Cons by (simp add: cancelled_Cons_None)
  next
    case (Some ch)
    let ?st = "answered st ch (cancel_msg G e tag)"
    have t: "tag = tag_of ch" using pending_future [OF Cons.prems Some] by metis
    have "ctl_inv ?st" using ctl_inv_answered [OF Cons.prems, of "cancel_msg G e tag" ch] Some by simp
    note IH = Cons.IH [OF this]
    have "pendingRPCs ?st t' = Some ch' \<longleftrightarrow> pendingRPCs st t' = Some ch' \<and> t' \<noteq> tag" for t' ch'
      by (auto simp: answered_def t)
    moreover have "ch' \<noteq> ch" if "pendingRPCs st t' = Some ch'" "t' \<noteq> tag" for t' ch'
      using pending_future [OF Cons.prems that(1)] that(2) t by metis
    then have "future_empty ?st ch' \<longleftrightarrow> future_empty st ch'"
      if "pendingRPCs st t' = Some ch'" "t' \<noteq> tag" for t' ch'
      using that by (auto simp: future_empty_def answered_def)
    ultimately have "(\<forall>t' \<in> set tags. \<forall>ch'. pendingRPCs ?st t' = Some ch' \<longrightarrow> future_empty ?st ch') \<longleftrightarrow>
      (\<forall>t' \<in> set tags. t' \<noteq> tag \<longrightarrow> (\<forall>ch'. pendingRPCs st t' = Some ch' \<longrightarrow> future_empty st ch'))"
      by blast
    then show ?thesis
      using Some IH cancel_one [OF Cons.prems Some] cancelled_Cons_Some [OF Cons.prems Some] by auto
  qed
qed

lemma ctl_inv_cancelled:
  assumes "ctl_inv st"
  shows "ctl_inv (cancelled G e order st)"
proof -
  let ?s = "cancelled G e order st"
  have ok: "future_ok ch \<lparr>chan_buf = [cancel_msg G e (tag_of ch)], chan_cap = 1, chan_closed = True\<rparr>" for ch
    by (simp add: future_ok_def cancel_msg_def response_msg_def chan_ok_def)
  have "future_ok ch c" if "ctl_futures ?s ch = Some c" for ch c
  proof (cases "tag_of ch \<in> set order \<and> pendingRPCs st (tag_of ch) = Some ch")
    case True
    with that ok show ?thesis by (auto simp: cancelled_def)
  next
    case False
    then have "ctl_futures ?s ch = ctl_futures st ch" by (auto simp: cancelled_def)
    with that assms show ?thesis by (simp add: ctl_inv_def futures_ok_def)
  qed
  moreover have "dom (ctl_futures ?s) = dom (ctl_futures st)"
  proof -
    have "ctl_futures ?s ch = None \<longleftrightarrow> ctl_futures st ch = None" for ch
    proof (cases "pendingRPCs st (tag_of ch) = Some ch")
      case True
      then obtain c where "ctl_futures st ch = Some c" using pending_future [OF assms] by metis
      then show ?thesis by (simp add: cancelled_def)
    qed (simp add: cancelled_def)
    then show ?thesis unfolding dom_def by simp
  qed
  moreover have "ctl_count ?s = ctl_count st" "ctl_nfut ?s = ctl_nfut st" by (simp_all add: cancelled_def)
  ultimately have "futures_ok ?s" using assms by (simp add: ctl_inv_def futures_ok_def)
  moreover have "pending_ok ?s"
    using assms by (auto simp: ctl_inv_def pending_ok_def cancelled_def restrict_map_def split: if_splits)
  moreover have "ctl_kickOnce (cancelled G e order st) = ctl_kickOnce st" "ctl_receiver (cancelled G e order st) = ctl_receiver st"
    by (simp_all add: cancelled_def)
  ultimately show ?thesis using assms by (simp add: ctl_inv_def)
qed

lemma cancelled_all:
  "dom (pendingRPCs st) \<subseteq> set tags \<Longrightarrow> pendingRPCs (cancelled G e tags st) = Map.empty"
  by (auto simp: cancelled_def restrict_map_def fun_eq_iff)

subsection \<open>Properties of the controller\<close>

text \<open>The steps that end a controller, fill its table and move its receiver.\<close>

lemma ctl_inv_cancel_pending:
  assumes "ctl_inv st"
  shows "cancel_pending G e tags st = Done st' \<Longrightarrow> ctl_inv st'" and "cancel_pending G e tags st \<noteq> Panics p"
  using ctl_inv_cancelled [OF assms] by (auto simp: cancel_pending_eq [OF assms] split: if_splits)

lemma run_dispatch_returns: "run_dispatch G c m st = RunReturns e st' \<Longrightarrow> st' = st"
proof -
  have "run_of x \<noteq> RunReturns e st'" for x :: "'a StreamController outcome" by (cases x) simp_all
  then show "run_dispatch G c m st = RunReturns e st' \<Longrightarrow> st' = st"
    by (auto simp: run_dispatch_def split: option.splits RPC_Content.splits)
qed

lemma ctl_inv_run_loop:
  "ctl_inv st \<Longrightarrow> run_loop G c order rs st = RunReturns e st' \<Longrightarrow> ctl_inv st'"
proof (induction rs arbitrary: st)
  case (Cons r rs)
  obtain msg err where r: "r = (msg, err)" by (cases r)
  show ?case
  proof (cases err)
    case (Some x)
    with Cons.prems r show ?thesis
      by (auto simp: Let_def dest: ctl_inv_cancel_pending(1) split: outcome.splits)
  next
    case None
    then obtain m where m: "msg = Some m" using Cons.prems(2) r by (cases msg) auto
    show ?thesis
    proof (cases "run_dispatch G c m st")
      case (RunContinue st1)
      with Cons.IH [OF ctl_inv_run_dispatch [OF Cons.prems(1) RunContinue]] Cons.prems(2) None m r
      show ?thesis by simp
    next
      case (RunReturns e1 st1)
      with run_dispatch_returns [OF RunReturns] Cons.prems None m r show ?thesis by simp
    qed (use Cons.prems(2) None m r in simp_all)
  qed
qed simp

lemma ctl_inv_receiver:
  assumes "ctl_inv st" and "kick_ok (ctl_kickOnce st) w"
  shows "ctl_inv (st\<lparr>ctl_receiver := w\<rparr>)"
  using assms by (simp add: ctl_inv_def futures_ok_def pending_ok_def)

lemma ctl_inv_services: "ctl_inv (st\<lparr>ctl_services := hs\<rparr>) = ctl_inv st"
  by (simp add: ctl_inv_def futures_ok_def pending_ok_def)

lemma ctl_inv_stream: "ctl_inv (st\<lparr>ctl_stream := s\<rparr>) = ctl_inv st"
  by (simp add: ctl_inv_def futures_ok_def pending_ok_def)

lemma kick_ok_Start: "kick_ok once w \<Longrightarrow> Start w = Done w' \<Longrightarrow> kick_ok once w'"
  by (auto simp: Start_def split: if_splits)

lemma ctl_inv_Run:
  assumes "ctl_inv st" and "Run G c order rs st = RunReturns e st'"
  shows "ctl_inv st'"
proof -
  obtain w where "Start (ctl_receiver st) = Done w"
    "run_loop G c order rs (st\<lparr>ctl_receiver := w\<rparr>) = RunReturns e st'"
    using assms(2) by (auto simp: Run_def split: outcome.splits)
  then show ?thesis
    using assms(1) ctl_inv_run_loop ctl_inv_receiver kick_ok_Start by (metis ctl_inv_def)
qed

lemma ctl_inv_RegisterServiceHandler:
  "ctl_inv st \<Longrightarrow> RegisterServiceHandler h st = Done st' \<Longrightarrow> ctl_inv st'"
  by (auto simp: RegisterServiceHandler_def Let_def ctl_inv_services)

lemma ctl_inv_CloseOrRecv: "ctl_inv st \<Longrightarrow> CloseOrRecv xs st = Done (e, st') \<Longrightarrow> ctl_inv st'"
  by (auto simp: CloseOrRecv_def Let_def ctl_inv_stream split: stream_kind.splits option.splits)

text \<open>What the pump and the caller of \<open>Recv\<close> do to the receiver.\<close>

definition receiver_moves :: "recvWrapper \<Rightarrow> recvWrapper \<Rightarrow> bool" where
  "receiver_moves w w' \<longleftrightarrow>
     Start w = Done w' \<or> (\<exists>p. pump_recv p w = Done w') \<or> pump_send w = Done w' \<or>
     Recv_begin w = Done w' \<or> (\<exists>x. Recv_payload w = Done (x, w')) \<or> (\<exists>x. Recv_kicked w = Done (x, w'))"

lemma kick_ok_receiver_moves:
  assumes "kick_ok once w" and "receiver_moves w w'"
  shows "kick_ok once w'"
proof -
  have "kick_ok once w'" if "Recv_kicked w = Done (x, w')" for x
    using assms(1) that by (auto simp: Recv_kicked_def kick_ok_def chan_recv_def
        split: list.splits option.splits if_splits)
  moreover have "kick_ok once w'" if "Recv_payload w = Done (x, w')" for x
    using assms(1) that by (auto simp: Recv_payload_def split: option.splits)
  moreover have "kick_ok once w'" if "pump_send w = Done w'"
    using assms(1) that by (auto simp: pump_send_def Let_def split: pump_state.splits if_splits)
  moreover have "kick_ok once w'" if "pump_recv p w = Done w'" for p
    using assms(1) that by (auto simp: pump_recv_def split: pump_state.splits)
  moreover have "kick_ok once w'" if "Recv_begin w = Done w'"
    using assms(1) that by (auto simp: Recv_begin_def split: if_splits)
  ultimately show ?thesis using assms kick_ok_Start unfolding receiver_moves_def by blast
qed

text \<open>
  C15: \<open>ctl_inv\<close> holds of a new controller and every operation of a controller keeps it.
  Requests, replies, stream replies and kicks with an error return, whatever \<open>stream.Send\<close>
  answers. The dispatch of a message keeps it, and so does a read of a future, the
  registration of a handler, \<open>CloseOrRecv\<close>, the start of a task, and every move of the
  receiver. Cancelling pending RPCs, all or some of them, keeps it and never panics, and it
  holds when \<open>Run\<close> has returned. It says that a future holds only messages with its own tag,
  that a pending tag has its own future, which is open, and that the kick is sent at most once.
\<close>

theorem controller_invariant:
  assumes "ctl_inv st"
  shows "(\<exists>ch m' st'. Request G c m st = Done (ch, m', st') \<and> ctl_inv st') \<and>
         (\<exists>st'. Reply G c t data st = Done st' \<and> ctl_inv st') \<and>
         (\<exists>st'. ReplyErr G c t err st = Done st' \<and> ctl_inv st') \<and>
         (\<exists>st'. StreamReply t sm st = Done st' \<and> ctl_inv st') \<and>
         (\<exists>st'. Kick (Some e) st = Done st' \<and> ctl_inv st') \<and>
         (\<forall>st'. run_dispatch G c msg st = RunContinue st' \<longrightarrow> ctl_inv st') \<and>
         (\<forall>r st'. recv_future ch st = Done (r, st') \<longrightarrow> ctl_inv st') \<and>
         (\<forall>st'. cancel_pending G err tags st = Done st' \<longrightarrow> ctl_inv st') \<and>
         (\<forall>p. cancel_pending G err tags st \<noteq> Panics p) \<and>
         (\<forall>r st'. Run G c order rs st = RunReturns r st' \<longrightarrow> ctl_inv st') \<and>
         (\<forall>st'. RegisterServiceHandler h st = Done st' \<longrightarrow> ctl_inv st') \<and>
         (\<forall>r st'. CloseOrRecv xs st = Done (r, st') \<longrightarrow> ctl_inv st') \<and>
         (\<forall>w. receiver_moves (ctl_receiver st) w \<longrightarrow> ctl_inv (st\<lparr>ctl_receiver := w\<rparr>)) \<and>
         ctl_inv (st\<lparr>ctl_pool := pool\<rparr>) \<and>
         (\<forall>known' w. newRecvWrapper i known = Done (known', w) \<longrightarrow>
            ctl_inv (new_controller s w u n flags :: 'i StreamController))"
proof (intro conjI)
  show "\<exists>st'. Kick (Some e) st = Done st' \<and> ctl_inv st'"
    using Kick_Done [of st e] assms by (auto simp: ctl_inv_def futures_ok_def pending_ok_def)
  show "\<exists>ch m' st'. Request G c m st = Done (ch, m', st') \<and> ctl_inv st'"
    using ctl_inv_Request [OF assms] by blast
  show "\<forall>w. receiver_moves (ctl_receiver st) w \<longrightarrow> ctl_inv (st\<lparr>ctl_receiver := w\<rparr>)"
    using assms ctl_inv_receiver kick_ok_receiver_moves by (metis ctl_inv_def)
  show "\<forall>known' w. newRecvWrapper i known = Done (known', w) \<longrightarrow>
      ctl_inv (new_controller s w u n flags :: 'i StreamController)"
    using ctl_inv_new kick_ok_new by blast
qed (use assms ctl_inv_cancel_pending [OF assms] ctl_inv_run_dispatch [OF assms]
    ctl_inv_recv_future [OF assms] ctl_inv_Run [OF assms] ctl_inv_RegisterServiceHandler [OF assms]
    ctl_inv_CloseOrRecv [OF assms] ctl_inv_send_or_kick [OF assms]
    in \<open>simp_all add: ctl_inv_pool Reply_def ReplyErr_def StreamReply_def\<close>)

text \<open>
  C16: a response is routed to the future of the request with its tag and to no other: the
  loop panics exactly for a tag that is not pending, blocks exactly when that future
  already holds an unread message, and otherwise puts the response into that future, closes
  it and forgets the tag. In particular it never sends on, or closes, a closed channel.
\<close>

theorem response_routing:
  assumes "ctl_inv st" and "Content msg = Some (RPC_Response r)"
  shows "run_dispatch G c msg st =
    (case pendingRPCs st (Tag msg) of
       None \<Rightarrow> RunPanics (unexpected_tag (Tag msg))
     | Some ch \<Rightarrow>
         if future_empty st ch then
           RunContinue (st\<lparr>ctl_futures := (ctl_futures st)(ch \<mapsto>
                \<lparr>chan_buf = [msg], chan_cap = 1, chan_closed = True\<rparr>),
              pendingRPCs := (pendingRPCs st)(Tag msg := None)\<rparr>)
         else RunBlocks)"
proof (cases "pendingRPCs st (Tag msg)")
  case None
  then show ?thesis using run_dispatch_response [OF assms] by simp
next
  case (Some ch)
  then have "Tag msg = tag_of ch" using pending_future [OF assms(1)] by metis
  then show ?thesis using run_dispatch_response [OF assms] Some by (simp add: answered_def)
qed

text \<open>
  C17: when the loop ends, every pending RPC is cancelled, in any iteration order: if no
  pending future holds an unread message, each gets exactly one response, with the status
  of the stream error, and is closed, and nothing is pending any more; if one does, the
  loop blocks on it.
\<close>

theorem pending_cancelled:
  assumes "ctl_inv st" and "set tags = dom (pendingRPCs st)"
  shows "cancel_pending G e tags st =
    (if \<exists>ch \<in> ran (pendingRPCs st). \<not> future_empty st ch then Blocks
     else Done (st\<lparr>pendingRPCs := Map.empty,
       ctl_futures := (\<lambda>ch. if ch \<in> ran (pendingRPCs st)
          then Some \<lparr>chan_buf = [cancel_msg G e (tag_of ch)], chan_cap = 1, chan_closed = True\<rparr>
          else ctl_futures st ch)\<rparr>))"
proof -
  have ran: "ch \<in> ran (pendingRPCs st) \<longleftrightarrow>
      tag_of ch \<in> set tags \<and> pendingRPCs st (tag_of ch) = Some ch" for ch
    using pending_future [OF assms(1)] assms(2) by (auto simp: ran_def)
  have "pendingRPCs st |` (- set tags) = Map.empty"
    using assms(2) by (auto simp: restrict_map_def fun_eq_iff)
  then have "cancelled G e tags st = st\<lparr>pendingRPCs := Map.empty,
       ctl_futures := (\<lambda>ch. if ch \<in> ran (pendingRPCs st)
          then Some \<lparr>chan_buf = [cancel_msg G e (tag_of ch)], chan_cap = 1, chan_closed = True\<rparr>
          else ctl_futures st ch)\<rparr>"
    unfolding cancelled_def ran by simp
  moreover have "(\<forall>t \<in> set tags. \<forall>ch. pendingRPCs st t = Some ch \<longrightarrow> future_empty st ch) \<longleftrightarrow>
      \<not> (\<exists>ch \<in> ran (pendingRPCs st). \<not> future_empty st ch)"
    using assms(2) by (auto simp: ran_def dom_def)
  ultimately show ?thesis by (simp add: cancel_pending_eq [OF assms(1)])
qed

text \<open>
  a request gets a tag that no other pending RPC has, and never the tag 0, as long as
  fewer than \<open>2 ^ 64 - 1\<close> requests were made; its future is new, empty and open, and when
  the stream accepts the message, exactly this message with that tag is put on the wire.
\<close>

lemma Request_fresh:
  assumes "ctl_inv st" and "ctl_nfut st < 2 ^ 64 - 1"
    and "Request G c m st = Done (ch, m', st')"
  shows "Tag m' \<notin> dom (pendingRPCs st) \<and> Tag m' \<noteq> 0 \<and> ctl_futures st ch = None \<and>
         pendingRPCs st' = (pendingRPCs st)(Tag m' \<mapsto> ch) \<and>
         ctl_futures st' = (ctl_futures st)(ch \<mapsto> make_chan 1) \<and>
         s_wire (ctl_stream st') = s_wire (ctl_stream st) @
           (if s_send (ctl_stream st) (s_attempts (ctl_stream st)) m' = None then [m'] else [])"
proof -
  have cnt: "ctl_count st = of_nat (ctl_nfut st)" and dom: "dom (ctl_futures st) = {..<ctl_nfut st}"
    using assms(1) by (auto simp: ctl_inv_def futures_ok_def)
  have kick: "kick_ok (ctl_kickOnce (with_call st)) (ctl_receiver (with_call st))"
    using assms(1) by (simp add: ctl_inv_def with_call_def)
  have ch: "ch = ctl_nfut st"
    and m': "m' = m\<lparr>Metadata := FromMD (Some (outgoing_md G c)), Tag := ctl_count st + 1\<rparr>"
    and send: "send_or_kick m' (with_call st) = Done st'"
    using assms(3) by (auto simp: Request_alt)
  have t: "Tag m' = tag_of (ctl_nfut st)" by (simp add: m' cnt tag_of_def)
  have unat_t: "unat (tag_of k) = Suc k" if "k \<le> ctl_nfut st" for k
    using assms(2) that by (simp add: unat_tag_of)
  have "k < ctl_nfut st" if "pendingRPCs st u = Some k" for u k
    using pending_future [OF assms(1) that] dom by blast
  moreover have "u = tag_of k" if "pendingRPCs st u = Some k" for u k
    using pending_future [OF assms(1) that] by blast
  ultimately have "Tag m' \<notin> dom (pendingRPCs st)"
    using unat_t t by (metis domD le_refl less_imp_le nat.inject nat_less_le)
  moreover have "Tag m' \<noteq> 0" using unat_t [of "ctl_nfut st"] t by auto
  moreover have "ctl_futures st ch = None" using dom ch by auto
  moreover obtain s once w where
    "send_or_kick m' (with_call st) =
       Done ((with_call st)\<lparr>ctl_stream := s, ctl_kickOnce := once, ctl_receiver := w\<rparr>)"
    "s_wire s = s_wire (ctl_stream (with_call st)) @ (if s_send (ctl_stream (with_call st))
        (s_attempts (ctl_stream (with_call st))) m' = None then [m'] else [])"
    using send_or_kick_Done [OF kick, of m'] by metis
  ultimately show ?thesis using send by (auto simp: with_call_def ch m')
qed

text \<open>
  The metadata of a request comes from the outgoing context alone: whatever metadata
  the caller put into the message, the message on the wire is the same. (\<open>ClientConn.invoke\<close>
  joins the metadata of a forwarded RPC into its message: it never reaches the peer.)
\<close>

lemma Request_drops_message_metadata:
  "Request G c (m\<lparr>Metadata := md\<rparr>) st = Request G c m st"
  by (simp add: Request_alt)

text \<open>
  C29: when \<open>stream.Send\<close> fails, the controller is kicked with that error unless the error
  is \<open>io.EOF\<close>, and only the first such error is ever put on the kick channel.
\<close>

theorem send_failure_kicks_once:
  assumes "ctl_inv st"
    and "s_send (ctl_stream st) (s_attempts (ctl_stream st)) m = Some e"
    and "send_or_kick m st = Done st'"
  shows "chan_buf (rw_kick (ctl_receiver st')) =
           (if errors_Is_EOF e \<or> ctl_kickOnce st then chan_buf (rw_kick (ctl_receiver st))
            else [Some e]) \<and>
         ctl_kickOnce st' = (ctl_kickOnce st \<or> \<not> errors_Is_EOF e) \<and>
         s_wire (ctl_stream st') = s_wire (ctl_stream st)"
proof -
  have "kick_ok (ctl_kickOnce st) (ctl_receiver st)" using assms(1) by (simp add: ctl_inv_def)
  then have "\<not> ctl_kickOnce st \<Longrightarrow> chan_buf (rw_kick (ctl_receiver st)) = []"
    by (auto simp: kick_ok_def split: if_splits)
  with assms(2,3) show ?thesis
    by (auto simp: send_or_kick_def stream_Send_def Let_def Kick_def kick_once_def chan_send_def
        split: if_splits)
qed

text \<open>
  \<open>Run\<close> ends on the first error of the receiver: the error is returned, except
  \<open>io.EOF\<close>, which ends the loop without an error; every pending RPC has been cancelled.
\<close>

lemma Run_ends_on_error:
  assumes "ctl_inv st" and "set (order st) = dom (pendingRPCs st)"
    and "\<forall>ch \<in> ran (pendingRPCs st). future_empty st ch"
  shows "\<exists>st'. run_loop G c order ((msg, Some e) # rs) st =
           RunReturns (if errors_Is_EOF e then None else Some e) st' \<and>
         pendingRPCs st' = Map.empty \<and> ctl_pool st' = ctl_pool st"
proof -
  let ?e = "if \<not> errors_Is_EOF e then Some e else None"
  have "\<forall>t \<in> set (order st). \<forall>ch. pendingRPCs st t = Some ch \<longrightarrow> future_empty st ch"
    using assms(3) by (auto simp: ran_def)
  then have "cancel_pending G ?e (order st) st = Done (cancelled G ?e (order st) st)"
    using cancel_pending_eq [OF assms(1), of G ?e "order st"] by simp
  moreover have "pendingRPCs (cancelled G ?e (order st) st) = Map.empty"
    using assms(2) by (simp add: cancelled_all)
  moreover have "ctl_pool (cancelled G ?e (order st) st) = ctl_pool st" by (simp add: cancelled_def)
  ultimately show ?thesis by (auto simp: Let_def)
qed

text \<open>
  A message without content makes \<open>Run\<close> return at once, with an error, and leaves every
  pending RPC pending: their futures are neither answered nor closed.
\<close>

lemma invalid_content_leaves_pending:
  "Content m = None \<Longrightarrow>
   run_loop G c order ((Some m, None) # rs) st =
     RunReturns (Some (ErrorString ''invalid content type'')) st"
  by (simp add: run_dispatch_def)

subsection \<open>Refinement: the calls of a client\<close>

text \<open>
  The abstract view of the controller for its clients is the sequence of the calls made
  so far, each with the messages that wait to be read and whether more can come. A request
  adds a call; a stream message and a response go to one call; shutting down finishes every
  unfinished call that is still pending. Replies, kicks and incoming requests do not touch
  it. This is what the multiplexing promises, without tags, tables and channels.
\<close>

datatype call = Waiting "RPC list" | Finished "RPC list"

definition call_of :: "RPC chan option \<Rightarrow> call" where
  "call_of x =
     (case x of
        None \<Rightarrow> Waiting []
      | Some c \<Rightarrow> if chan_closed c then Finished (chan_buf c) else Waiting (chan_buf c))"

definition abs_calls :: "'i StreamController \<Rightarrow> call list" where
  "abs_calls st = map (\<lambda>ch. call_of (ctl_futures st ch)) [0..<ctl_nfut st]"

definition spec_request :: "call list \<Rightarrow> call list" where
  "spec_request cs = cs @ [Waiting []]"

definition spec_stream_msg :: "nat \<Rightarrow> RPC \<Rightarrow> call list \<Rightarrow> call list" where
  "spec_stream_msg k m cs = cs[k := Waiting [m]]"

definition spec_response :: "nat \<Rightarrow> RPC \<Rightarrow> call list \<Rightarrow> call list" where
  "spec_response k m cs = cs[k := Finished [m]]"

lemma length_abs_calls [simp]: "length (abs_calls st) = ctl_nfut st"
  by (simp add: abs_calls_def)

lemma abs_calls_cong:
  "ctl_futures st' = ctl_futures st \<Longrightarrow> ctl_nfut st' = ctl_nfut st \<Longrightarrow> abs_calls st' = abs_calls st"
  by (simp add: abs_calls_def)

lemma abs_calls_send_or_kick:
  assumes "ctl_inv st" and "send_or_kick m st = Done st'"
  shows "abs_calls st' = abs_calls st"
proof -
  have "kick_ok (ctl_kickOnce st) (ctl_receiver st)" using assms(1) by (simp add: ctl_inv_def)
  then obtain s once w where
    "send_or_kick m st = Done (st\<lparr>ctl_stream := s, ctl_kickOnce := once, ctl_receiver := w\<rparr>)"
    using send_or_kick_Done [of st m] by metis
  with assms(2) show ?thesis by (auto intro: abs_calls_cong)
qed

lemma abs_calls_with_call: "abs_calls (with_call st) = spec_request (abs_calls st)"
  by (simp add: abs_calls_def with_call_def spec_request_def call_of_def)

lemma abs_calls_upd:
  assumes "ch < ctl_nfut st" and "ctl_futures st' = (ctl_futures st)(ch \<mapsto> c)"
    and "ctl_nfut st' = ctl_nfut st"
  shows "abs_calls st' = (abs_calls st)[ch := call_of (Some c)]"
  using assms by (intro nth_equalityI) (auto simp: abs_calls_def nth_list_update)

lemma pending_address:
  assumes "ctl_inv st" and "pendingRPCs st t = Some ch"
  shows "ch < ctl_nfut st"
proof -
  obtain c where "ctl_futures st ch = Some c" using pending_future [OF assms] .
  then show ?thesis using assms(1) by (auto simp: ctl_inv_def futures_ok_def)
qed

lemma idle_call:
  assumes "ctl_inv st" and "pendingRPCs st t = Some k" and "future_empty st k"
  shows "abs_calls st ! k = Waiting []"
proof -
  obtain c where "ctl_futures st k = Some c" "\<not> chan_closed c" using pending_future [OF assms(1,2)] .
  with assms(3) pending_address [OF assms(1,2)] show ?thesis
    by (simp add: abs_calls_def future_empty_def call_of_def)
qed

definition routed :: "'i StreamController \<Rightarrow> RPC \<Rightarrow> (nat \<Rightarrow> RPC \<Rightarrow> call list \<Rightarrow> call list) \<Rightarrow> call list \<Rightarrow> bool" where
  "routed st msg spec cs \<longleftrightarrow>
     (\<exists>k < length (abs_calls st). Tag msg = tag_of k \<and> abs_calls st ! k = Waiting [] \<and>
        cs = spec k msg (abs_calls st))"

lemma routed_response:
  assumes "ctl_inv st" and "Content msg = Some (RPC_Response r)"
    and "run_dispatch G c msg st = RunContinue st'"
  shows "routed st msg spec_response (abs_calls st')"
proof -
  obtain k where k: "pendingRPCs st (Tag msg) = Some k" "future_empty st k"
    and st': "st' = answered st k msg"
    using assms(3) run_dispatch_response [OF assms(1,2), of G c]
    by (auto split: option.splits if_splits)
  have "abs_calls st' = spec_response k msg (abs_calls st)"
    unfolding st' spec_response_def
    by (subst abs_calls_upd [OF pending_address [OF assms(1) k(1)]])
      (auto simp: answered_def call_of_def)
  moreover have "Tag msg = tag_of k" using pending_future [OF assms(1) k(1)] by blast
  ultimately show ?thesis
    using k idle_call [OF assms(1) k] pending_address [OF assms(1) k(1)] unfolding routed_def by auto
qed

lemma routed_stream_msg:
  assumes "ctl_inv st" and "Content msg = Some (RPC_ServerStreamMsg r)"
    and "run_dispatch G c msg st = RunContinue st'"
  shows "routed st msg spec_stream_msg (abs_calls st')"
proof -
  obtain k where k: "pendingRPCs st (Tag msg) = Some k" "future_empty st k"
    and st': "st' = streamed st k msg"
    using assms(3) run_dispatch_stream_msg [OF assms(1,2), of G c]
    by (auto split: option.splits if_splits)
  have "abs_calls st' = spec_stream_msg k msg (abs_calls st)"
    unfolding st' spec_stream_msg_def
    by (subst abs_calls_upd [OF pending_address [OF assms(1) k(1)]])
      (auto simp: streamed_def call_of_def)
  moreover have "Tag msg = tag_of k" using pending_future [OF assms(1) k(1)] by blast
  ultimately show ?thesis
    using k idle_call [OF assms(1) k] pending_address [OF assms(1) k(1)] unfolding routed_def by auto
qed

lemma refines_Request:
  assumes "ctl_inv st" and "Request G c m st = Done (ch, m', st')"
  shows "ch = length (abs_calls st) \<and> Tag m' = tag_of ch \<and>
         abs_calls st' = spec_request (abs_calls st)"
proof -
  have ch: "ch = ctl_nfut st" and t: "Tag m' = ctl_count st + 1"
    and s: "send_or_kick m' (with_call st) = Done st'" using assms(2) by (auto simp: Request_alt)
  have "Tag m' = tag_of ch" using assms(1) by (simp add: t ch tag_of_def ctl_inv_def futures_ok_def)
  then show ?thesis
    using abs_calls_send_or_kick [OF ctl_inv_with_call [OF assms(1)] s]
    by (simp add: ch abs_calls_with_call)
qed

text \<open>
  C2: the controller refines the sequence of calls: each of its steps is the step of the
  specification on \<open>abs_calls\<close>. A response or stream message goes to the one call whose tag
  it carries, which must be unfinished and have nothing unread.
\<close>

theorem controller_refines_calls:
  assumes "ctl_inv st"
  shows "(Request G c m st = Done (ch, m', st') \<longrightarrow>
            ch = length (abs_calls st) \<and> Tag m' = tag_of ch \<and>
            abs_calls st' = spec_request (abs_calls st)) \<and>
         (send_or_kick m st = Done st' \<longrightarrow> abs_calls st' = abs_calls st) \<and>
         (Kick (Some e) st = Done st' \<longrightarrow> abs_calls st' = abs_calls st) \<and>
         (run_dispatch G c msg st = RunContinue st' \<longrightarrow>
            (case Content msg of
               Some (RPC_Response _) \<Rightarrow> routed st msg spec_response (abs_calls st')
             | Some (RPC_ServerStreamMsg _) \<Rightarrow> routed st msg spec_stream_msg (abs_calls st')
             | _ \<Rightarrow> abs_calls st' = abs_calls st))"
proof (intro conjI impI)
  assume d: "run_dispatch G c msg st = RunContinue st'"
  show "case Content msg of
               Some (RPC_Response _) \<Rightarrow> routed st msg spec_response (abs_calls st')
             | Some (RPC_ServerStreamMsg _) \<Rightarrow> routed st msg spec_stream_msg (abs_calls st')
             | _ \<Rightarrow> abs_calls st' = abs_calls st"
    using d routed_response [OF assms _ d] routed_stream_msg [OF assms _ d]
    by (auto simp: run_dispatch_def intro: abs_calls_cong split: option.splits RPC_Content.splits)
qed (use refines_Request [OF assms] abs_calls_send_or_kick [OF assms]
    in \<open>auto simp: Kick_def intro: abs_calls_cong\<close>)

subsection \<open>Concrete instances\<close>

text \<open>A controller on a stream that accepts everything, new and with one call outstanding.\<close>

definition bg_ctx :: ctx where
  "bg_ctx = \<lparr>ctx_id = 0, ctx_values = [], ctx_err = None\<rparr>"

definition sample_stream :: "(RPC list \<Rightarrow> RPC \<Rightarrow> go_error option) \<Rightarrow> stream" where
  "sample_stream snd_fn =
     \<lparr>s_id = 0, s_kind = ClientStreamKind, s_ctx = bg_ctx, s_send = snd_fn, s_CloseSend = None,
      s_attempts = [], s_wire = [], s_sendClosed = False\<rparr>"

definition sample_ctl :: "(RPC list \<Rightarrow> RPC \<Rightarrow> go_error option) \<Rightarrow> unit StreamController" where
  "sample_ctl snd_fn = new_controller (sample_stream snd_fn) (sample_w [] PumpReceiving) ''u'' ''n'' 0"

definition sample_busy :: "unit StreamController" where
  "sample_busy = with_call (sample_ctl (\<lambda>_ _. None))"

definition sample_request :: RPC where
  "sample_request = \<lparr>Tag = 0, ServiceName = ''svc'', MethodName = ''M'',
     Content = Some (RPC_Request [1]), Metadata = None\<rparr>"

lemma sample_ctl_inv: "ctl_inv (sample_ctl f)"
  unfolding sample_ctl_def by (rule ctl_inv_new) (simp add: kick_ok_def sample_w_def)

lemma sample_busy_inv: "ctl_inv sample_busy"
  unfolding sample_busy_def by (rule ctl_inv_with_call [OF sample_ctl_inv])

lemmas sample_ctl_defs = sample_busy_def with_call_def sample_ctl_def new_controller_def
  sample_stream_def

lemma sample_busy_simps [simp]:
  "pendingRPCs sample_busy = [1 \<mapsto> 0]" "ctl_futures sample_busy = [0 \<mapsto> make_chan 1]"
  "ctl_nfut (sample_ctl f) = 0" "pendingRPCs (sample_ctl f) = Map.empty"
  by (simp_all add: sample_ctl_defs)

theorem controller_invariant_witness:
  "ctl_inv sample_busy \<and>
   (\<exists>ch m' st'. Request std_lib bg_ctx sample_request sample_busy = Done (ch, m', st') \<and> ctl_inv st') \<and>
   (\<exists>st'. cancel_pending std_lib (Some EOF) [1] sample_busy = Done st' \<and> ctl_inv st')"
proof -
  note inv = controller_invariant [OF sample_busy_inv, where G = std_lib and c = bg_ctx
      and m = sample_request and err = "Some EOF" and tags = "[1]"]
  have "\<forall>st'. cancel_pending std_lib (Some EOF) [1] sample_busy = Done st' \<longrightarrow> ctl_inv st'"
    by (rule conjunct1 [OF inv [THEN conjunct2, THEN conjunct2, THEN conjunct2, THEN conjunct2,
        THEN conjunct2, THEN conjunct2, THEN conjunct2]])
  moreover have "\<exists>st'. cancel_pending std_lib (Some EOF) [1] sample_busy = Done st'"
    by (simp add: cancel_pending_eq [OF sample_busy_inv] future_empty_def del: cancel_pending.simps)
  ultimately show ?thesis using sample_busy_inv conjunct1 [OF inv] by blast
qed

theorem response_routing_witness:
  "ctl_inv sample_busy \<and>
   run_dispatch std_lib bg_ctx (response_msg 1 [7] None None) sample_busy =
     RunContinue (sample_busy\<lparr>ctl_futures := [0 \<mapsto> \<lparr>chan_buf = [response_msg 1 [7] None None],
         chan_cap = 1, chan_closed = True\<rparr>], pendingRPCs := Map.empty\<rparr>)"
proof -
  have c: "Content (response_msg 1 [7] None None) =
      Some (RPC_Response (Some \<lparr>Response_bytes = [7], StatusProto = None\<rparr>))"
    by (simp add: response_msg_def)
  show ?thesis
    using sample_busy_inv response_routing [OF sample_busy_inv c, of std_lib bg_ctx]
    by (simp add: future_empty_def response_msg_def)
qed

theorem pending_cancelled_witness:
  "ctl_inv sample_busy \<and>
   (\<exists>st'. cancel_pending std_lib None [1] sample_busy = Done st' \<and> pendingRPCs st' = Map.empty)"
proof -
  have d: "set [1] = dom (pendingRPCs sample_busy)" by simp
  have "\<not> (\<exists>ch \<in> ran (pendingRPCs sample_busy). \<not> future_empty sample_busy ch)"
    by (simp add: future_empty_def)
  then show ?thesis
    using pending_cancelled [OF sample_busy_inv d, of std_lib None] sample_busy_inv
    by (simp del: cancel_pending.simps sample_busy_simps)
qed

lemma Request_fresh_witness:
  "\<exists>m' st'. Request std_lib bg_ctx sample_request (sample_ctl (\<lambda>_ _. None)) = Done (0, m', st') \<and>
     Tag m' \<noteq> 0 \<and> s_wire (ctl_stream st') = [m']"
proof -
  obtain m' st' where r: "Request std_lib bg_ctx sample_request (sample_ctl (\<lambda>_ _. None)) =
      Done (0, m', st')"
    using ctl_inv_Request [OF sample_ctl_inv] by fastforce
  show ?thesis
    using r Request_fresh [OF sample_ctl_inv _ r]
    by (auto simp: sample_ctl_def new_controller_def sample_stream_def)
qed

theorem send_failure_kicks_once_witness:
  "\<exists>st'. send_or_kick sample_request (sample_ctl (\<lambda>_ _. Some (ErrorString ''broken''))) = Done st' \<and>
     chan_buf (rw_kick (ctl_receiver st')) = [Some (ErrorString ''broken'')] \<and> ctl_kickOnce st'"
proof -
  let ?st = "sample_ctl (\<lambda>_ _. Some (ErrorString ''broken''))"
  obtain st' where d: "send_or_kick sample_request ?st = Done st'"
    using ctl_inv_send_or_kick [OF sample_ctl_inv] by blast
  have e: "s_send (ctl_stream ?st) (s_attempts (ctl_stream ?st)) sample_request =
      Some (ErrorString ''broken'')"
    by (simp add: sample_ctl_def new_controller_def sample_stream_def)
  have "\<not> ctl_kickOnce ?st" by (simp add: sample_ctl_def new_controller_def)
  with d send_failure_kicks_once [OF sample_ctl_inv e d] show ?thesis by auto
qed

lemma Run_ends_on_error_witness:
  "\<exists>st'. run_loop std_lib bg_ctx (\<lambda>_. [1]) [(None, Some EOF)] sample_busy = RunReturns None st' \<and>
     pendingRPCs st' = Map.empty"
proof -
  have "\<forall>ch \<in> ran (pendingRPCs sample_busy). future_empty sample_busy ch"
    by (simp add: future_empty_def)
  then show ?thesis
    using Run_ends_on_error [OF sample_busy_inv _ _, of "\<lambda>_. [1]" std_lib bg_ctx None EOF "[]"]
    by (auto simp del: run_loop.simps)
qed

lemma invalid_content_leaves_pending_witness:
  "Content (sample_request\<lparr>Content := None\<rparr>) = None \<and>
   run_loop std_lib bg_ctx (\<lambda>_. [1]) [(Some (sample_request\<lparr>Content := None\<rparr>), None)] sample_busy =
     RunReturns (Some (ErrorString ''invalid content type'')) sample_busy \<and>
   pendingRPCs sample_busy \<noteq> Map.empty"
  using invalid_content_leaves_pending
    [of "sample_request\<lparr>Content := None\<rparr>" std_lib bg_ctx "\<lambda>_. [1]" "[]" sample_busy]
  by simp

theorem controller_refines_calls_witness:
  "ctl_inv sample_busy \<and> abs_calls sample_busy = [Waiting []] \<and>
   (\<exists>m' st'. Request std_lib bg_ctx sample_request sample_busy = Done (1, m', st') \<and>
      abs_calls st' = [Waiting [], Waiting []])"
proof -
  have a: "abs_calls sample_busy = [Waiting []]"
    by (simp add: abs_calls_def call_of_def sample_ctl_defs)
  have n: "ctl_nfut sample_busy = 1" by (simp add: sample_ctl_defs)
  obtain m' st' where r: "Request std_lib bg_ctx sample_request sample_busy = Done (1, m', st')"
    using ctl_inv_Request [OF sample_busy_inv] n by fastforce
  then show ?thesis
    using sample_busy_inv a controller_refines_calls [OF sample_busy_inv, of std_lib bg_ctx sample_request 1 m' st']
    by (auto simp: spec_request_def)
qed

end
