(* ===== verification/Stream_Wrappers.thy ===== *)
theory Stream_Wrappers
  imports Controller Grpc_Metadata
begin

text \<open>
  stream_wrapper.go: the \<open>grpc.ServerStream\<close> that a local handler of a server-streaming
  method writes to, and the \<open>grpc.ClientStream\<close> that the caller of such a method reads.

  A value of Go type \<open>any\<close> that is used as a message is an \<open>any_msg\<close>: the type switches of
  the source tell apart a totem \<open>RPC\<close>, messages of the two protobuf APIs and anything else.
  Package proto is the parameter \<open>codec\<close>. Where a select statement has two cases that are
  ready, the argument \<open>pick\<close> says which one is taken.
\<close>

subsection \<open>Messages of any type\<close>

datatype 'm any_msg = AnyRPC RPC | AnyV2 'm | AnyV1 'm | AnyOther

text \<open>
  \<open>Marshal\<close> is \<open>proto.Marshal\<close> after \<open>ProtoMessageV2Of\<close>, with both of its results;
  \<open>Unmarshal b m\<close> is \<open>proto.Unmarshal(b, m)\<close>, the target being the message that is replaced.
\<close>

record 'm codec =
  Marshal :: "'m any_msg \<Rightarrow> bytes option \<times> go_error option"
  Unmarshal :: "bytes \<Rightarrow> 'm \<Rightarrow> go_error + 'm"

definition the_bytes :: "bytes option \<Rightarrow> bytes" where
  "the_bytes b = (case b of None \<Rightarrow> [] | Some x \<Rightarrow> x)"

definition ErrConnClosing :: go_error where
  "ErrConnClosing = StatusError \<lparr>st_code = Unavailable, st_message = ''transport is closing''\<rparr>"

definition ErrIllegalHeaderWrite :: go_error where
  "ErrIllegalHeaderWrite =
     StatusError \<lparr>st_code = Internal, st_message = ''SendHeader called multiple times''\<rparr>"

subsection \<open>The server side\<close>

record localServerStreamWrapper =
  lw_ctx :: ctx
  lw_req :: RPC
  lw_headers :: "metadata option"
  lw_trailers :: "metadata option"
  lw_wroteHeaders :: bool
  lw_writer :: "RPC chan"
  lw_closedWriter :: bool  \<comment> \<open>the channel is closed\<close>

definition newLocalServerStreamWrapper :: "ctx \<Rightarrow> RPC \<Rightarrow> RPC chan \<Rightarrow> localServerStreamWrapper" where
  "newLocalServerStreamWrapper c req writer =
     \<lparr>lw_ctx = c, lw_req = req, lw_headers = None, lw_trailers = None,
      lw_wroteHeaders = False, lw_writer = writer, lw_closedWriter = False\<rparr>"

definition lw_Context :: "localServerStreamWrapper \<Rightarrow> ctx" where
  "lw_Context s = lw_ctx s"

definition lw_Close ::
  "localServerStreamWrapper \<Rightarrow> (metadata option \<times> localServerStreamWrapper) outcome" where
  "lw_Close s =
     (if lw_closedWriter s then Panics ''close of closed channel''
      else Done (lw_trailers s, s\<lparr>lw_closedWriter := True\<rparr>))"

definition lw_RecvMsg ::
  "'m codec \<Rightarrow> 'm any_msg \<Rightarrow> localServerStreamWrapper \<Rightarrow> (go_error option \<times> 'm any_msg) outcome" where
  "lw_RecvMsg K m s =
     (case m of
        AnyRPC r \<Rightarrow> Done (None, AnyRPC (r\<lparr>Content := Content (lw_req s)\<rparr>))
      | AnyV2 x \<Rightarrow>
          (case Unmarshal K (GetRequest (Some (lw_req s))) x of
             Inl e \<Rightarrow> Done (Some (WrapError ''[totem] malformed request'' e), m)
           | Inr y \<Rightarrow> Done (None, AnyV2 y))
      | AnyV1 x \<Rightarrow>
          (case Unmarshal K (GetRequest (Some (lw_req s))) x of
             Inl e \<Rightarrow> Done (Some (WrapError ''[totem] malformed request'' e), m)
           | Inr y \<Rightarrow> Done (None, AnyV1 y))
      | AnyOther \<Rightarrow> Panics ''[totem] unsupported request type'')"

text \<open>
  The select of \<open>SendHeader\<close> and \<open>SendMsg\<close>: the send on \<open>writer\<close> or the closed channel
  \<open>closedWriter\<close>. A send on a closed channel is ready, and panics when it is taken. The
  result is whether the message was sent.
\<close>

definition select_send ::
  "bool \<Rightarrow> RPC \<Rightarrow> localServerStreamWrapper \<Rightarrow> (bool \<times> localServerStreamWrapper) outcome" where
  "select_send pick rpc s =
     (let send = obind (chan_send rpc (lw_writer s)) (\<lambda>c. Done (True, s\<lparr>lw_writer := c\<rparr>))
      in if lw_closedWriter s \<and> (send = Blocks \<or> \<not> pick) then Done (False, s) else send)"

definition or_nil :: "metadata option \<Rightarrow> metadata" where
  "or_nil md = (case md of None \<Rightarrow> [] | Some m \<Rightarrow> m)"

definition lw_SetHeader ::
  "lib \<Rightarrow> metadata \<Rightarrow> localServerStreamWrapper \<Rightarrow> go_error option \<times> localServerStreamWrapper" where
  "lw_SetHeader G md s =
     (if length md = 0 then (None, s)
      else case validateMetadata G md of
             Some e \<Rightarrow>
               (Some (StatusError \<lparr>st_code = Internal, st_message = err_Error G e\<rparr>), s)
           | None \<Rightarrow> (None, s\<lparr>lw_headers := Some (md_Join G (or_nil (lw_headers s)) md)\<rparr>))"

definition lw_SendHeader ::
  "lib \<Rightarrow> bool \<Rightarrow> metadata \<Rightarrow> localServerStreamWrapper \<Rightarrow>
   (go_error option \<times> localServerStreamWrapper) outcome" where
  "lw_SendHeader G pick md s =
     (case lw_SetHeader G md s of
        (Some e, s1) \<Rightarrow> Done (Some e, s1)
      | (None, s1) \<Rightarrow>
          if \<not> lw_wroteHeaders s1 then
            obind (select_send pick
                     \<lparr>Tag = 0, ServiceName = [], MethodName = [],
                      Content = Some (RPC_ServerStreamMsg None), Metadata = FromMD (lw_headers s1)\<rparr>
                     (s1\<lparr>lw_wroteHeaders := True\<rparr>))
              (\<lambda>(sent, s2). if sent then Done (None, s2\<lparr>lw_headers := None\<rparr>)
                            else Done (Some ErrConnClosing, s2))
          else Done (Some ErrIllegalHeaderWrite, s1))"

definition stream_msg :: "bytes \<Rightarrow> MD option \<Rightarrow> RPC" where
  "stream_msg b md =
     \<lparr>Tag = 0, ServiceName = [], MethodName = [],
      Content = Some (RPC_ServerStreamMsg (Some \<lparr>Headers = None, SSM_Response = b\<rparr>)), Metadata = md\<rparr>"

definition lw_SendMsg ::
  "'m codec \<Rightarrow> bool \<Rightarrow> 'm any_msg \<Rightarrow> localServerStreamWrapper \<Rightarrow>
   (go_error option \<times> localServerStreamWrapper) outcome" where
  "lw_SendMsg K pick m s =
     (case Marshal K m of
        (_, Some e) \<Rightarrow> Done (Some e, s)
      | (b, None) \<Rightarrow>
          (let first = \<not> lw_wroteHeaders s;
               rpc = stream_msg (the_bytes b) (if first then FromMD (lw_headers s) else None);
               s1 = (if first then s\<lparr>lw_wroteHeaders := True, lw_headers := None\<rparr> else s)
           in obind (select_send pick rpc s1) (\<lambda>(sent, s2).
                Done (if sent then None else Some ErrConnClosing, s2))))"

definition lw_SetTrailer :: "lib \<Rightarrow> metadata \<Rightarrow> localServerStreamWrapper \<Rightarrow> localServerStreamWrapper" where
  "lw_SetTrailer G md s =
     (if length md = 0 then s
      else s\<lparr>lw_trailers := Some (md_Join G (or_nil (lw_trailers s)) md)\<rparr>)"

subsection \<open>The client side\<close>

text \<open>
  \<open>cs_onFinish\<close> are the callbacks of the call options, by name, and \<open>cs_finished\<close> the
  calls made to them.
\<close>

record serverStreamClientWrapper =
  cs_ctx :: ctx
  cs_streamName :: string
  cs_methodName :: string
  cs_bufferedFirstMsg :: "bytes option"
  cs_replyC :: "nat option"
  cs_writeHeadersOnce :: bool
  cs_headerC :: "metadata chan"
  cs_trailer :: "metadata option"
  cs_onFinishedOnce :: bool
  cs_onFinish :: "nat list"
  cs_finished :: "(nat \<times> go_error option) list"

definition newServerStreamClientWrapper ::
  "ctx \<Rightarrow> string \<Rightarrow> string \<Rightarrow> nat list \<Rightarrow> serverStreamClientWrapper" where
  "newServerStreamClientWrapper c streamName methodName onFinish =
     \<lparr>cs_ctx = c, cs_streamName = streamName, cs_methodName = methodName,
      cs_bufferedFirstMsg = None, cs_replyC = None, cs_writeHeadersOnce = False,
      cs_headerC = make_chan 1, cs_trailer = None, cs_onFinishedOnce = False,
      cs_onFinish = onFinish, cs_finished = []\<rparr>"

definition cs_CloseSend ::
  "lib \<Rightarrow> serverStreamClientWrapper \<Rightarrow> 'i StreamController \<Rightarrow>
   (go_error option \<times> serverStreamClientWrapper \<times> 'i StreamController) outcome" where
  "cs_CloseSend G cs st =
     (let clientHeaders = or_nil (FromOutgoingContext G (cs_ctx cs)) in
      obind (Request G (cs_ctx cs)
        \<lparr>Tag = 0, ServiceName = cs_streamName cs, MethodName = cs_methodName cs,
         Content = Some (RPC_Request (the_bytes (cs_bufferedFirstMsg cs))),
         Metadata = FromMD (Some clientHeaders)\<rparr> st)
        (\<lambda>(ch, _, st'). Done (None, cs\<lparr>cs_replyC := Some ch\<rparr>, st')))"

definition cs_Header ::
  "bool \<Rightarrow> serverStreamClientWrapper \<Rightarrow>
   ((metadata option \<times> go_error option) \<times> serverStreamClientWrapper) outcome" where
  "cs_Header pick cs =
     (case chan_recv (cs_headerC cs) of
        Done (md, hc) \<Rightarrow>
          if ctx_err (cs_ctx cs) \<noteq> None \<and> \<not> pick then Done ((None, ctx_err (cs_ctx cs)), cs)
          else Done ((md, None), cs\<lparr>cs_headerC := hc\<rparr>)
      | Blocks \<Rightarrow>
          if ctx_err (cs_ctx cs) \<noteq> None then Done ((None, ctx_err (cs_ctx cs)), cs) else Blocks
      | Panics s \<Rightarrow> Panics s)"

definition cs_finish :: "go_error option \<Rightarrow> serverStreamClientWrapper \<Rightarrow> serverStreamClientWrapper" where
  "cs_finish err cs =
     (if cs_onFinishedOnce cs then cs
      else cs\<lparr>cs_onFinishedOnce := True,
              cs_finished := cs_finished cs @ map (\<lambda>f. (f, err)) (cs_onFinish cs)\<rparr>)"

text \<open>\<open>writeHeadersOnce.Do\<close>: the field \<open>Headers\<close> of a nil message cannot be read.\<close>

definition write_headers ::
  "ServerStreamMessage option \<Rightarrow> serverStreamClientWrapper \<Rightarrow> serverStreamClientWrapper outcome" where
  "write_headers msg cs =
     (if cs_writeHeadersOnce cs then Done cs
      else case msg of
             None \<Rightarrow> Panics ''nil pointer dereference''
           | Some x \<Rightarrow>
               obind (chan_send (ToMD (Headers x)) (cs_headerC cs)) (\<lambda>hc.
                 Done (cs\<lparr>cs_writeHeadersOnce := True, cs_headerC := hc\<rparr>)))"

definition unmarshal_reply ::
  "'m codec \<Rightarrow> bytes \<Rightarrow> ('m \<Rightarrow> 'm any_msg) \<Rightarrow> 'm \<Rightarrow> go_error option \<times> 'm any_msg" where
  "unmarshal_reply K b con x =
     (case Unmarshal K b x of
        Inl e \<Rightarrow> (Some (WrapError ''[totem] malformed response'' e), con x)
      | Inr y \<Rightarrow> (None, con y))"

text \<open>The case of \<open>RecvMsg\<close> for a stream message.\<close>

definition recv_stream_msg ::
  "'m codec \<Rightarrow> ServerStreamMessage option \<Rightarrow> 'm any_msg \<Rightarrow> serverStreamClientWrapper \<Rightarrow>
   ((go_error option \<times> 'm any_msg) \<times> serverStreamClientWrapper) outcome" where
  "recv_stream_msg K msg m cs =
     (case m of
        AnyRPC r \<Rightarrow> Done ((None, AnyRPC (r\<lparr>Content := Some (RPC_ServerStreamMsg msg)\<rparr>)), cs)
      | AnyV2 x \<Rightarrow> obind (write_headers msg cs) (\<lambda>cs1.
          Done (unmarshal_reply K (SSM_GetResponse msg) AnyV2 x, cs1))
      | AnyV1 x \<Rightarrow> obind (write_headers msg cs) (\<lambda>cs1.
          Done (unmarshal_reply K (SSM_GetResponse msg) AnyV1 x, cs1))
      | AnyOther \<Rightarrow> Panics ''[totem] unsupported response type'')"

definition set_trailer :: "MD option \<Rightarrow> serverStreamClientWrapper \<Rightarrow> serverStreamClientWrapper" where
  "set_trailer md cs = (if md \<noteq> None then cs\<lparr>cs_trailer := Some (ToMD md)\<rparr> else cs)"

text \<open>The case of \<open>RecvMsg\<close> for the response.\<close>

definition recv_response ::
  "lib \<Rightarrow> 'm codec \<Rightarrow> RPC \<Rightarrow> Response option \<Rightarrow> 'm any_msg \<Rightarrow> serverStreamClientWrapper \<Rightarrow>
   ((go_error option \<times> 'm any_msg) \<times> serverStreamClientWrapper) outcome" where
  "recv_response G K rpc resp m cs =
     (case status_Err G (GetStatus G resp) of
        Some err \<Rightarrow> Done ((Some err, m), cs_finish (Some err) cs)
      | None \<Rightarrow>
          (case m of
             AnyRPC r \<Rightarrow> Done ((None, AnyRPC (r\<lparr>Content := Some (RPC_Response resp)\<rparr>)), cs)
           | AnyV2 x \<Rightarrow> Done (unmarshal_reply K (Response_GetResponse resp) AnyV2 x,
                             set_trailer (Metadata rpc) cs)
           | AnyV1 x \<Rightarrow> Done (unmarshal_reply K (Response_GetResponse resp) AnyV1 x,
                             set_trailer (Metadata rpc) cs)
           | AnyOther \<Rightarrow> Panics ''[totem] unsupported response type''))"

text \<open>What \<open>RecvMsg\<close> does with the result of the receive on \<open>replyC\<close>.\<close>

definition recv_reply ::
  "lib \<Rightarrow> 'm codec \<Rightarrow> RPC option \<Rightarrow> 'm any_msg \<Rightarrow> serverStreamClientWrapper \<Rightarrow>
   ((go_error option \<times> 'm any_msg) \<times> serverStreamClientWrapper) outcome" where
  "recv_reply G K v m cs =
     (case v of
        None \<Rightarrow> Done ((Some EOF, m), cs_finish None cs)
      | Some rpc \<Rightarrow>
          (case Content rpc of
             Some (RPC_ServerStreamMsg msg) \<Rightarrow> recv_stream_msg K msg m cs
           | Some (RPC_Response resp) \<Rightarrow> recv_response G K rpc resp m cs
           | _ \<Rightarrow> Done ((Some (ErrorString ''[totem] unexpected response type''), m), cs)))"

text \<open>A receive from a nil channel, before \<open>CloseSend\<close>, blocks.\<close>

definition reply_ready :: "serverStreamClientWrapper \<Rightarrow> 'i StreamController \<Rightarrow> (RPC option \<times> 'i StreamController) outcome" where
  "reply_ready cs st = (case cs_replyC cs of None \<Rightarrow> Blocks | Some ch \<Rightarrow> recv_future ch st)"

definition cs_RecvMsg ::
  "lib \<Rightarrow> 'm codec \<Rightarrow> bool \<Rightarrow> 'm any_msg \<Rightarrow> serverStreamClientWrapper \<Rightarrow> 'i StreamController \<Rightarrow>
   ((go_error option \<times> 'm any_msg) \<times> serverStreamClientWrapper \<times> 'i StreamController) outcome" where
  "cs_RecvMsg G K pick m cs st =
     (let ready = reply_ready cs st; cancelled = ctx_err (cs_ctx cs) \<noteq> None in
      if cancelled \<and> (ready = Blocks \<or> \<not> pick) then Done ((ctx_err (cs_ctx cs), m), cs, st)
      else obind ready (\<lambda>(v, st1).
             obind (recv_reply G K v m cs) (\<lambda>(r, cs1). Done (r, cs1, st1))))"

definition cs_SendMsg ::
  "'m codec \<Rightarrow> 'm any_msg \<Rightarrow> serverStreamClientWrapper \<Rightarrow> go_error option \<times> serverStreamClientWrapper" where
  "cs_SendMsg K m cs =
     (if cs_bufferedFirstMsg cs \<noteq> None then
        (Some (StatusError \<lparr>st_code = Internal,
           st_message = ''unexpected call to SendMsg on server-streaming RPC''\<rparr>), cs)
      else case Marshal K m of (b, err) \<Rightarrow> (err, cs\<lparr>cs_bufferedFirstMsg := b\<rparr>))"

definition cs_Context :: "serverStreamClientWrapper \<Rightarrow> ctx" where
  "cs_Context cs = cs_ctx cs"

definition cs_Trailer :: "serverStreamClientWrapper \<Rightarrow> metadata option" where
  "cs_Trailer cs = cs_trailer cs"

subsection \<open>Reading a stream to its end\<close>

text \<open>
  A client that reads as fast as the messages arrive: for every message that the receive
  loop dispatches it calls \<open>RecvMsg\<close> once, with a message \<open>x\<close> of its type as the target.
\<close>

fun read_stream ::
  "lib \<Rightarrow> 'm codec \<Rightarrow> ctx \<Rightarrow> 'm \<Rightarrow> RPC list \<Rightarrow> serverStreamClientWrapper \<Rightarrow> 'i StreamController \<Rightarrow>
   ((go_error option \<times> 'm any_msg) list \<times> serverStreamClientWrapper \<times> 'i StreamController) outcome" where
  "read_stream G K c x [] cs st = Done ([], cs, st)"
| "read_stream G K c x (msg # msgs) cs st =
     (case run_dispatch G c msg st of
        RunContinue st1 \<Rightarrow>
          obind (cs_RecvMsg G K True (AnyV2 x) cs st1) (\<lambda>(r, cs1, st2).
          obind (read_stream G K c x msgs cs1 st2) (\<lambda>(rs, cs2, st3). Done (r # rs, cs2, st3)))
      | RunReturns e st1 \<Rightarrow> Blocks
      | RunBlocks \<Rightarrow> Blocks
      | RunPanics p \<Rightarrow> Panics p)"

text \<open>A stream whose request was sent and which has nothing unread.\<close>

definition cs_reading :: "serverStreamClientWrapper \<Rightarrow> nat \<Rightarrow> bool" where
  "cs_reading cs ch \<longleftrightarrow>
     cs_replyC cs = Some ch \<and> ctx_err (cs_ctx cs) = None \<and>
     (cs_writeHeadersOnce cs \<or> cs_headerC cs = make_chan 1)"

definition server_msg :: "tag \<Rightarrow> ServerStreamMessage \<Rightarrow> RPC" where
  "server_msg t sm = \<lparr>Tag = t, ServiceName = [], MethodName = [],
     Content = Some (RPC_ServerStreamMsg (Some sm)), Metadata = None\<rparr>"

lemma server_msg_simps [simp]:
  "Tag (server_msg t sm) = t" "Content (server_msg t sm) = Some (RPC_ServerStreamMsg (Some sm))"
  by (simp_all add: server_msg_def)

lemma RecvMsg_ready:
  assumes "cs_reading cs ch"
  shows "cs_RecvMsg G K True m cs st =
    obind (recv_future ch st) (\<lambda>(v, st1). obind (recv_reply G K v m cs) (\<lambda>(r, cs1). Done (r, cs1, st1)))"
  using assms by (simp add: cs_RecvMsg_def cs_reading_def reply_ready_def)

lemma idle_future:
  assumes "ctl_inv st" and "pendingRPCs st t = Some ch" and "future_empty st ch"
  shows "ctl_futures st ch = Some \<lparr>chan_buf = [], chan_cap = 1, chan_closed = False\<rparr>"
proof -
  obtain c where "ctl_futures st ch = Some c" "\<not> chan_closed c" "chan_cap c = 1"
    using pending_future [OF assms(1,2)] .
  with assms(3) show ?thesis by (cases c) (auto simp: future_empty_def)
qed

lemma recv_streamed:
  assumes "ctl_inv st" and "pendingRPCs st t = Some ch" and "future_empty st ch"
  shows "recv_future ch (streamed st ch msg) = Done (Some msg, st)"
  using idle_future [OF assms]
  by (simp add: recv_future_def streamed_def chan_recv_def fun_upd_idem)

lemma recv_answered:
  "recv_future ch (answered st ch msg) =
     Done (Some msg, (answered st ch msg)\<lparr>ctl_futures := (ctl_futures st)(ch \<mapsto>
        \<lparr>chan_buf = [], chan_cap = 1, chan_closed = True\<rparr>)\<rparr>)"
  by (simp add: recv_future_def answered_def chan_recv_def)

lemma write_headers_reading:
  assumes "cs_reading cs ch"
  shows "\<exists>cs1. write_headers (Some sm) cs = Done cs1 \<and> cs_reading cs1 ch \<and>
           cs_onFinishedOnce cs1 = cs_onFinishedOnce cs \<and> cs_onFinish cs1 = cs_onFinish cs \<and>
           cs_finished cs1 = cs_finished cs"
  using assms by (auto simp: write_headers_def cs_reading_def chan_send_def)

lemma read_messages:
  assumes "ctl_inv st" and "pendingRPCs st t = Some ch" and "future_empty st ch" and "cs_reading cs ch"
  shows "\<exists>cs1. read_stream G K c x (map (server_msg t) sms @ rest) cs st =
           obind (read_stream G K c x rest cs1 st) (\<lambda>(rs, cs2, st2).
             Done (map (\<lambda>sm. unmarshal_reply K (SSM_Response sm) AnyV2 x) sms @ rs, cs2, st2)) \<and>
           cs_reading cs1 ch \<and> cs_onFinishedOnce cs1 = cs_onFinishedOnce cs \<and>
           cs_onFinish cs1 = cs_onFinish cs \<and> cs_finished cs1 = cs_finished cs"
  using assms(4)
proof (induction sms arbitrary: cs)
  case Nil
  then show ?case by (cases "read_stream G K c x rest cs st") (auto intro!: exI [where x = cs])
next
  case (Cons sm sms)
  obtain cs1 where w: "write_headers (Some sm) cs = Done cs1" "cs_reading cs1 ch"
    "cs_onFinishedOnce cs1 = cs_onFinishedOnce cs" "cs_onFinish cs1 = cs_onFinish cs"
    "cs_finished cs1 = cs_finished cs"
    using write_headers_reading [OF Cons.prems] by blast
  have d: "run_dispatch G c (server_msg t sm) st = RunContinue (streamed st ch (server_msg t sm))"
    using run_dispatch_stream_msg [OF assms(1), of "server_msg t sm"] assms(2,3) by simp
  have r: "cs_RecvMsg G K True (AnyV2 x) cs (streamed st ch (server_msg t sm)) =
      Done (unmarshal_reply K (SSM_Response sm) AnyV2 x, cs1, st)"
    using w(1) by (simp add: RecvMsg_ready [OF Cons.prems] recv_streamed [OF assms(1-3)]
        recv_reply_def recv_stream_msg_def SSM_GetResponse_def)
  obtain cs2 where IH: "read_stream G K c x (map (server_msg t) sms @ rest) cs1 st =
      obind (read_stream G K c x rest cs2 st) (\<lambda>(rs, cs3, st2).
        Done (map (\<lambda>sm. unmarshal_reply K (SSM_Response sm) AnyV2 x) sms @ rs, cs3, st2))"
    "cs_reading cs2 ch" "cs_onFinishedOnce cs2 = cs_onFinishedOnce cs1" "cs_onFinish cs2 = cs_onFinish cs1"
    "cs_finished cs2 = cs_finished cs1"
    using Cons.IH [OF w(2)] by blast
  show ?case
    using w IH
    by (intro exI [where x = cs2]; cases "read_stream G K c x rest cs2 st") (auto simp: d r)
qed

text \<open>
  C13: a client of a server-streaming call gets every message of the server, in order, and
  the call is no longer pending at the end: the messages before the response are returned
  one by one, then, if the status is OK, the (empty) body of the response is returned as
  one more message, and only then \<open>io.EOF\<close>, when the callbacks are called, once.
\<close>

theorem client_stream_in_order:
  assumes "ctl_inv st" and "pendingRPCs st t = Some ch" and "future_empty st ch"
    and "cs_reading cs ch" and "\<not> cs_onFinishedOnce cs"
    and "status_Err G (GetStatus G (Some resp)) = None"
    and "rpc = \<lparr>Tag = t, ServiceName = [], MethodName = [], Content = Some (RPC_Response (Some resp)),
                Metadata = md\<rparr>"
  shows "\<exists>cs1 st1. read_stream G K c x (map (server_msg t) sms @ [rpc]) cs st =
           Done (map (\<lambda>sm. unmarshal_reply K (SSM_Response sm) AnyV2 x) sms @
                   [unmarshal_reply K (Response_bytes resp) AnyV2 x], cs1, st1) \<and>
         pendingRPCs st1 t = None \<and> (md \<noteq> None \<longrightarrow> cs_Trailer cs1 = Some (ToMD md)) \<and>
         (\<exists>cs2. cs_RecvMsg G K True (AnyV2 x) cs1 st1 = Done ((Some EOF, AnyV2 x), cs2, st1) \<and>
            cs_finished cs2 = cs_finished cs @ map (\<lambda>f. (f, None)) (cs_onFinish cs))"
proof -
  obtain cs0 where rd: "read_stream G K c x (map (server_msg t) sms @ [rpc]) cs st =
           obind (read_stream G K c x [rpc] cs0 st) (\<lambda>(rs, cs2, st2).
             Done (map (\<lambda>sm. unmarshal_reply K (SSM_Response sm) AnyV2 x) sms @ rs, cs2, st2))"
    and cs0: "cs_reading cs0 ch" "\<not> cs_onFinishedOnce cs0" "cs_onFinish cs0 = cs_onFinish cs"
      "cs_finished cs0 = cs_finished cs"
    using read_messages [OF assms(1-4), of G K c x sms "[rpc]"] assms(5) by auto
  have t: "t = tag_of ch" using pending_future [OF assms(1,2)] by metis
  have d: "run_dispatch G c rpc st = RunContinue (answered st ch rpc)"
    using run_dispatch_response [OF assms(1), of rpc] assms(2,3,7) by simp
  let ?st1 = "(answered st ch rpc)\<lparr>ctl_futures := (ctl_futures st)(ch \<mapsto>
        \<lparr>chan_buf = [], chan_cap = 1, chan_closed = True\<rparr>)\<rparr>"
  let ?cs1 = "set_trailer md cs0"
  have r: "cs_RecvMsg G K True (AnyV2 x) cs0 (answered st ch rpc) =
      Done (unmarshal_reply K (Response_bytes resp) AnyV2 x, ?cs1, ?st1)"
    using assms(6,7) by (simp add: RecvMsg_ready [OF cs0(1)] recv_answered recv_reply_def
        recv_response_def Response_GetResponse_def)
  have cs1: "cs_reading ?cs1 ch" "\<not> cs_onFinishedOnce ?cs1" "cs_onFinish ?cs1 = cs_onFinish cs"
    "cs_finished ?cs1 = cs_finished cs" "md \<noteq> None \<longrightarrow> cs_Trailer ?cs1 = Some (ToMD md)"
    using cs0 by (auto simp: set_trailer_def cs_reading_def cs_Trailer_def)
  have f: "recv_future ch ?st1 = Done (None, ?st1)"
    by (simp add: recv_future_def chan_recv_def)
  have "cs_RecvMsg G K True (AnyV2 x) ?cs1 ?st1 = Done ((Some EOF, AnyV2 x), cs_finish None ?cs1, ?st1)"
    unfolding RecvMsg_ready [OF cs1(1)] f by (simp add: recv_reply_def)
  moreover have "cs_finished (cs_finish None ?cs1) = cs_finished cs @ map (\<lambda>f. (f, None)) (cs_onFinish cs)"
    using cs1 by (simp add: cs_finish_def)
  moreover have "pendingRPCs ?st1 t = None" by (simp add: answered_def t)
  moreover have "read_stream G K c x (map (server_msg t) sms @ [rpc]) cs st =
      Done (map (\<lambda>sm. unmarshal_reply K (SSM_Response sm) AnyV2 x) sms @
              [unmarshal_reply K (Response_bytes resp) AnyV2 x], ?cs1, ?st1)"
    unfolding rd by (simp add: d r)
  ultimately show ?thesis using cs1(5) by blast
qed

text \<open>
  a stream that ends with an error status returns that error and calls the callbacks
  with it, once; the trailers that came with it are not stored.
\<close>

lemma client_stream_error:
  assumes "ctl_inv st" and "pendingRPCs st t = Some ch" and "future_empty st ch"
    and "cs_reading cs ch" and "\<not> cs_onFinishedOnce cs"
    and "status_Err G (GetStatus G (Some resp)) = Some e"
    and "rpc = \<lparr>Tag = t, ServiceName = [], MethodName = [], Content = Some (RPC_Response (Some resp)),
                Metadata = md\<rparr>"
  shows "\<exists>cs1 st1. read_stream G K c x [rpc] cs st = Done ([(Some e, AnyV2 x)], cs1, st1) \<and>
           pendingRPCs st1 t = None \<and> cs_Trailer cs1 = cs_Trailer cs \<and>
           cs_finished cs1 = cs_finished cs @ map (\<lambda>f. (f, Some e)) (cs_onFinish cs) \<and>
           cs_finish e' cs1 = cs1"
proof -
  have t: "t = tag_of ch" using pending_future [OF assms(1,2)] by metis
  have d: "run_dispatch G c rpc st = RunContinue (answered st ch rpc)"
    using run_dispatch_response [OF assms(1), of rpc] assms(2,3,7) by simp
  let ?st1 = "(answered st ch rpc)\<lparr>ctl_futures := (ctl_futures st)(ch \<mapsto>
        \<lparr>chan_buf = [], chan_cap = 1, chan_closed = True\<rparr>)\<rparr>"
  have r: "cs_RecvMsg G K True (AnyV2 x) cs (answered st ch rpc) =
      Done ((Some e, AnyV2 x), cs_finish (Some e) cs, ?st1)"
    using assms(6,7) by (simp add: RecvMsg_ready [OF assms(4)] recv_answered recv_reply_def recv_response_def)
  have "read_stream G K c x [rpc] cs st = Done ([(Some e, AnyV2 x)], cs_finish (Some e) cs, ?st1)"
    by (simp add: d r)
  moreover have "pendingRPCs ?st1 t = None" by (simp add: answered_def t)
  ultimately show ?thesis using assms(5) by (auto simp: cs_finish_def cs_Trailer_def)
qed

text \<open>
  A send of the handler after it has returned (from a goroutine it left behind) is not
  safely refused: the channel is closed by then, and where the select takes the send, the
  process panics instead of returning the error.
\<close>

lemma send_after_close:
  assumes "lw_closedWriter s" and "chan_closed (lw_writer s)" and "Marshal K m = (b, None)"
  shows "(\<exists>s'. lw_SendMsg K False m s = Done (Some ErrConnClosing, s')) \<and>
         lw_SendMsg K True m s = Panics ''send on closed channel''"
  using assms by (auto simp: lw_SendMsg_def select_send_def chan_send_def Let_def)

text \<open>
  Headers are written at most once: the first message written carries all headers set
  before it, a later one none, and a second \<open>SendHeader\<close> is refused without a message.
\<close>

lemma headers_written_once:
  assumes "\<not> lw_closedWriter s" and "lw_SendMsg K pick m s = Done (None, s')"
  shows "\<exists>b. chan_buf (lw_writer s') = chan_buf (lw_writer s) @
           [stream_msg b (if lw_wroteHeaders s then None else FromMD (lw_headers s))] \<and>
         lw_wroteHeaders s' \<and> lw_SendHeader G pick' [] s' = Done (Some ErrIllegalHeaderWrite, s')"
proof -
  obtain b e where b: "Marshal K m = (b, e)" by (cases "Marshal K m")
  with assms(2) have e: "e = None" by (cases e) (auto simp: lw_SendMsg_def)
  let ?s1 = "if \<not> lw_wroteHeaders s then s\<lparr>lw_wroteHeaders := True, lw_headers := None\<rparr> else s"
  let ?m = "stream_msg (the_bytes b) (if \<not> lw_wroteHeaders s then FromMD (lw_headers s) else None)"
  have "\<exists>y. select_send pick ?m ?s1 = Done (y, s')"
    using assms(2) b e by (auto simp: lw_SendMsg_def Let_def)
  then obtain y where y: "select_send pick ?m ?s1 = Done (y, s')" by blast
  have "s' = ?s1\<lparr>lw_writer := (lw_writer s)\<lparr>chan_buf := chan_buf (lw_writer s) @ [?m]\<rparr>\<rparr>"
    using y assms(1) by (auto simp: select_send_def Let_def chan_send_def split: if_splits)
  then show ?thesis by (auto simp: lw_SendHeader_def lw_SetHeader_def)
qed

subsection \<open>Concrete instances\<close>

definition byte_codec :: "bytes codec" where
  "byte_codec = \<lparr>Marshal = (\<lambda>m. case m of AnyV2 b \<Rightarrow> (Some b, None) | _ \<Rightarrow> (None, None)),
                 Unmarshal = (\<lambda>b _. Inr b)\<rparr>"

definition sample_cs :: serverStreamClientWrapper where
  "sample_cs = (newServerStreamClientWrapper bg_ctx ''svc'' ''S'' [9])\<lparr>cs_replyC := Some 0\<rparr>"

lemma sample_cs_reading: "cs_reading sample_cs 0" "\<not> cs_onFinishedOnce sample_cs"
  by (simp_all add: cs_reading_def sample_cs_def newServerStreamClientWrapper_def bg_ctx_def)

lemma sample_busy_pending: "pendingRPCs sample_busy 1 = Some 0" "future_empty sample_busy 0"
  by (simp_all add: future_empty_def)

theorem client_stream_in_order_witness:
  "\<exists>cs1 st1. read_stream std_lib byte_codec bg_ctx []
      [server_msg 1 \<lparr>Headers = None, SSM_Response = [4]\<rparr>, server_msg 1 \<lparr>Headers = None, SSM_Response = [5]\<rparr>,
       response_msg 1 [] (Some \<lparr>st_code = OK, st_message = ''OK''\<rparr>) None] sample_cs sample_busy =
     Done ([(None, AnyV2 [4]), (None, AnyV2 [5]), (None, AnyV2 [])], cs1, st1)"
proof -
  let ?r = "\<lparr>Response_bytes = [], StatusProto = Some \<lparr>st_code = OK, st_message = ''OK''\<rparr>\<rparr>"
  have "status_Err std_lib (GetStatus std_lib (Some ?r)) = None"
    by (simp add: std_lib_def GetStatus_def)
  from client_stream_in_order [OF sample_busy_inv sample_busy_pending sample_cs_reading this refl,
      of byte_codec bg_ctx "[]"
        "[\<lparr>Headers = None, SSM_Response = [4]\<rparr>, \<lparr>Headers = None, SSM_Response = [5]\<rparr>]" None]
  show ?thesis
    by (auto simp: response_msg_def unmarshal_reply_def byte_codec_def simp del: read_stream.simps)
qed

lemma client_stream_error_witness:
  "\<exists>cs1 st1. read_stream std_lib byte_codec bg_ctx []
      [response_msg 1 [] (Some \<lparr>st_code = Internal, st_message = ''x''\<rparr>) (Some \<lparr>Data = []\<rparr>)] sample_cs sample_busy =
     Done ([(Some (StatusError \<lparr>st_code = Internal, st_message = ''x''\<rparr>), AnyV2 [])], cs1, st1) \<and>
     cs_Trailer cs1 = None"
proof -
  let ?r = "\<lparr>Response_bytes = [], StatusProto = Some \<lparr>st_code = Internal, st_message = ''x''\<rparr>\<rparr>"
  have "status_Err std_lib (GetStatus std_lib (Some ?r)) =
      Some (StatusError \<lparr>st_code = Internal, st_message = ''x''\<rparr>)"
    by (simp add: std_lib_def GetStatus_def)
  from client_stream_error [OF sample_busy_inv sample_busy_pending sample_cs_reading this refl,
      of byte_codec bg_ctx "[]" "Some \<lparr>Data = []\<rparr>" None]
  show ?thesis
    by (auto simp: response_msg_def cs_Trailer_def sample_cs_def newServerStreamClientWrapper_def
        simp del: read_stream.simps)
qed

definition sample_lw :: localServerStreamWrapper where
  "sample_lw = newLocalServerStreamWrapper bg_ctx sample_request (make_chan 1)"

lemma send_after_close_witness:
  "lw_SendMsg byte_codec True (AnyV2 [1])
     (sample_lw\<lparr>lw_closedWriter := True, lw_writer := (make_chan 1)\<lparr>chan_closed := True\<rparr>\<rparr>) =
   Panics ''send on closed channel''"
  using send_after_close
    [of "sample_lw\<lparr>lw_closedWriter := True, lw_writer := (make_chan 1)\<lparr>chan_closed := True\<rparr>\<rparr>"
      byte_codec "AnyV2 [1]" "Some [1]"]
  by (simp add: byte_codec_def)

lemma headers_written_once_witness:
  "\<exists>s' b. lw_SendMsg byte_codec True (AnyV2 [1]) sample_lw = Done (None, s') \<and>
     chan_buf (lw_writer s') = [stream_msg b None] \<and>
     lw_SendHeader std_lib True [] s' = Done (Some ErrIllegalHeaderWrite, s')"
proof -
  obtain s' where s': "lw_SendMsg byte_codec True (AnyV2 [1]) sample_lw = Done (None, s')"
    by (simp add: lw_SendMsg_def byte_codec_def sample_lw_def newLocalServerStreamWrapper_def
        select_send_def chan_send_def Let_def)
  have "\<not> lw_closedWriter sample_lw" by (simp add: sample_lw_def newLocalServerStreamWrapper_def)
  from headers_written_once [OF this s', of std_lib True] s' show ?thesis
    by (auto simp: sample_lw_def newLocalServerStreamWrapper_def FromMD_def)
qed

end
