(* ===== verification/Telemetry.thy ===== *)
theory Telemetry
  imports Messages
begin

text \<open>
  metrics.go and tracing.go: the counters and histograms of a server, the attributes of a
  span, and the choice of the tracer provider. An instrument is the list of the
  measurements recorded on it, a span the list of what was set on it; nothing in the
  program reads them back.
\<close>

subsection \<open>Metrics\<close>

type_synonym attrs = "(string \<times> string) list"

record meter =
  rxBytesCollector :: "(int \<times> attrs) list"
  txBytesCollector :: "(int \<times> attrs) list"
  rxRpcCollector :: "(int \<times> attrs) list"
  txRpcCollector :: "(int \<times> attrs) list"
  svcRxLatencyCollector :: "(int \<times> attrs) list"
  svcTxLatencyCollector :: "(int \<times> attrs) list"

record MetricsExporter =
  staticAttrs :: attrs

text \<open>
  \<open>NewMetricsExporter\<close> creates six instruments and panics when the provider returns an
  error for one of them: \<open>errs\<close> are these errors, in the order of the calls.
\<close>

fun first_error :: "go_error option list \<Rightarrow> go_error option" where
  "first_error [] = None"
| "first_error (Some e # es) = Some e"
| "first_error (None # es) = first_error es"

definition NewMetricsExporter ::
  "lib \<Rightarrow> (string \<Rightarrow> go_error option) \<Rightarrow> attrs \<Rightarrow> MetricsExporter outcome" where
  "NewMetricsExporter G instrument static =
     (case first_error (map instrument
        [''stream_receive_bytes'', ''stream_transmit_bytes'', ''stream_receive_rpcs'',
         ''stream_transmit_rpcs'', ''stream_local_service_latency'',
         ''stream_remote_service_latency'']) of
        Some e \<Rightarrow> Panics (err_Error G e)
      | None \<Rightarrow> Done \<lparr>staticAttrs = static\<rparr>)"

definition rpc_attrs :: "MetricsExporter \<Rightarrow> string \<Rightarrow> string \<Rightarrow> attrs" where
  "rpc_attrs m service method =
     staticAttrs m @ [(''service'', service), (''method'', method)]"

definition TrackRxBytes :: "MetricsExporter option \<Rightarrow> string \<Rightarrow> string \<Rightarrow> int \<Rightarrow> meter \<Rightarrow> meter" where
  "TrackRxBytes m service method n t =
     (case m of
        None \<Rightarrow> t
      | Some x \<Rightarrow>
          (let as = rpc_attrs x service method in
           t\<lparr>rxRpcCollector := rxRpcCollector t @ [(1, as)],
             rxBytesCollector := rxBytesCollector t @ [(n, as)]\<rparr>))"

definition TrackTxBytes :: "MetricsExporter option \<Rightarrow> string \<Rightarrow> string \<Rightarrow> int \<Rightarrow> meter \<Rightarrow> meter" where
  "TrackTxBytes m service method n t =
     (case m of
        None \<Rightarrow> t
      | Some x \<Rightarrow>
          (let as = rpc_attrs x service method in
           t\<lparr>txRpcCollector := txRpcCollector t @ [(1, as)],
             txBytesCollector := txBytesCollector t @ [(n, as)]\<rparr>))"

text \<open>\<open>Duration.Microseconds\<close>: an integer division of the nanoseconds that truncates.\<close>

definition Microseconds :: "int \<Rightarrow> int" where
  "Microseconds d = (if d < 0 then - ((- d) div 1000) else d div 1000)"

definition TrackSvcRxLatency :: "MetricsExporter option \<Rightarrow> string \<Rightarrow> string \<Rightarrow> int \<Rightarrow> meter \<Rightarrow> meter" where
  "TrackSvcRxLatency m service method latency t =
     (case m of
        None \<Rightarrow> t
      | Some x \<Rightarrow> t\<lparr>svcRxLatencyCollector :=
          svcRxLatencyCollector t @ [(Microseconds latency, rpc_attrs x service method)]\<rparr>)"

definition TrackSvcTxLatency :: "MetricsExporter option \<Rightarrow> string \<Rightarrow> string \<Rightarrow> int \<Rightarrow> meter \<Rightarrow> meter" where
  "TrackSvcTxLatency m service method latency t =
     (case m of
        None \<Rightarrow> t
      | Some x \<Rightarrow> t\<lparr>svcTxLatencyCollector :=
          svcTxLatencyCollector t @ [(Microseconds latency, rpc_attrs x service method)]\<rparr>)"

lemmas track_defs = TrackRxBytes_def TrackTxBytes_def TrackSvcRxLatency_def TrackSvcTxLatency_def

subsection \<open>Span names and attributes\<close>

text \<open>\<open>strings.TrimLeft(s, "/")\<close> removes all leading slashes.\<close>

definition parseFullMethod :: "string \<Rightarrow> string \<times> attrs" where
  "parseFullMethod fullMethod =
     (let name = dropWhile (\<lambda>c. c = CHR ''/'') fullMethod;
          parts = str_splitN2 (CHR ''/'') name in
      if length parts \<noteq> 2 then (name, [])
      else (name,
        (if parts ! 0 \<noteq> [] then [(''rpc.service'', parts ! 0)] else []) @
        (if parts ! 1 \<noteq> [] then [(''rpc.method'', parts ! 1)] else [])))"

text \<open>\<open>net.SplitHostPort\<close>; the errors are not told apart, as the caller drops them.\<close>

fun last_index :: "char \<Rightarrow> string \<Rightarrow> nat option" where
  "last_index c [] = None"
| "last_index c (x # xs) =
     (case last_index c xs of Some i \<Rightarrow> Some (Suc i) | None \<Rightarrow> if x = c then Some 0 else None)"

fun first_index :: "char \<Rightarrow> string \<Rightarrow> nat option" where
  "first_index c [] = None"
| "first_index c (x # xs) =
     (if x = c then Some 0 else map_option Suc (first_index c xs))"

definition host_port ::
  "string \<Rightarrow> nat \<Rightarrow> nat \<Rightarrow> nat \<Rightarrow> string \<Rightarrow> (string \<times> string) option" where
  "host_port s i j k host =
     (if CHR ''['' \<in> set (drop j s) \<or> CHR '']'' \<in> set (drop k s) then None
      else Some (host, drop (Suc i) s))"

definition SplitHostPort :: "string \<Rightarrow> (string \<times> string) option" where
  "SplitHostPort s =
     (case last_index (CHR '':'') s of
        None \<Rightarrow> None
      | Some i \<Rightarrow>
          if s ! 0 = CHR ''['' then
            (case first_index (CHR '']'') s of
               None \<Rightarrow> None
             | Some e \<Rightarrow>
                 if Suc e = i then host_port s i 1 (Suc e) (drop 1 (take e s)) else None)
          else
            (let host = take i s in
             if CHR '':'' \<in> set host then None else host_port s i 0 0 host))"

definition peerAttr :: "string \<Rightarrow> attrs" where
  "peerAttr addr =
     (case SplitHostPort addr of
        None \<Rightarrow> []
      | Some (host, port) \<Rightarrow>
          [(''net.peer.ip'', if host = [] then ''127.0.0.1'' else host),
           (''net.peer.port'', port)])"

text \<open>The address of the peer in the context, of package peer, is the argument.\<close>

definition peerFromCtx :: "string option \<Rightarrow> string" where
  "peerFromCtx peer = (case peer of None \<Rightarrow> [] | Some a \<Rightarrow> a)"

definition spanInfo :: "string \<Rightarrow> string \<Rightarrow> string \<times> attrs" where
  "spanInfo fullMethod peerAddress =
     (case parseFullMethod fullMethod of
        (name, mAttrs) \<Rightarrow>
          (name, [(''rpc.system'', ''grpc'')] @ mAttrs @ peerAttr peerAddress))"

subsection \<open>Recording the result of a call\<close>

text \<open>
  A span holds what was set on it. \<open>recordError\<close> calls the method \<open>Error\<close> of its argument,
  which panics on a nil error, but only with tracing enabled.
\<close>

record span =
  span_code :: "(string \<times> code) option"  \<comment> \<open>the attribute of the status code\<close>
  span_status :: "string option"
  span_errors :: "go_error option list"

definition empty_span :: span where
  "empty_span = \<lparr>span_code = None, span_status = None, span_errors = []\<rparr>"

text \<open>\<open>GRPCStatusCodeKey\<close> of package otelgrpc with the code.\<close>

definition statusCodeAttr :: "code \<Rightarrow> string \<times> code" where
  "statusCodeAttr c = (''rpc.grpc.status_code'', c)"

definition recordErrorStatus :: "lib \<Rightarrow> rpc_status \<Rightarrow> span \<Rightarrow> span" where
  "recordErrorStatus G stat sp =
     (if \<not> TracingEnabled G then sp
      else sp\<lparr>span_code := Some (statusCodeAttr (st_code stat)), span_status := Some (st_message stat),
              span_errors := span_errors sp @ [status_Err G stat]\<rparr>)"

definition recordError :: "lib \<Rightarrow> go_error option \<Rightarrow> span \<Rightarrow> span outcome" where
  "recordError G err sp =
     (if \<not> TracingEnabled G then Done sp
      else
        (let sp1 = sp\<lparr>span_code := Some (statusCodeAttr (status_Code G err))\<rparr> in
         case err of
           None \<Rightarrow> Panics ''nil pointer dereference''
         | Some e \<Rightarrow> Done (sp1\<lparr>span_status := Some (err_Error G e),
                            span_errors := span_errors sp @ [err]\<rparr>)))"

definition recordSuccess :: "lib \<Rightarrow> span \<Rightarrow> span" where
  "recordSuccess G sp = (if \<not> TracingEnabled G then sp else sp\<lparr>span_code := Some (statusCodeAttr OK)\<rparr>)"

subsection \<open>The carrier of trace metadata\<close>

text \<open>
  The carrier points to the metadata it was made for: its methods read that metadata or
  return it updated. \<open>MD.Get\<close> and \<open>MD.Set\<close> are functions of package metadata: parameters.
\<close>

type_synonym metadataSupplier = metadata

definition metadataSupplier_Get :: "(metadata \<Rightarrow> string \<Rightarrow> string list) \<Rightarrow> metadataSupplier \<Rightarrow> string \<Rightarrow> string" where
  "metadataSupplier_Get md_Get md key =
     (let values = md_Get md key in if length values = 0 then [] else values ! 0)"

definition metadataSupplier_Set ::
  "(metadata \<Rightarrow> string \<Rightarrow> string list \<Rightarrow> metadata) \<Rightarrow> metadataSupplier \<Rightarrow> string \<Rightarrow> string \<Rightarrow> metadataSupplier" where
  "metadataSupplier_Set md_Set md key value = md_Set md key [value]"

definition metadataSupplier_Keys :: "metadataSupplier \<Rightarrow> string list" where
  "metadataSupplier_Keys md = map fst md"

subsection \<open>The tracer provider\<close>

datatype tracer_provider = GlobalProvider | SdkProvider

text \<open>
  The deferred function replaces a nil result by the global provider. The environment
  variable and the results of creating the exporter and the resource are arguments.
\<close>

definition TracerProvider ::
  "lib \<Rightarrow> string \<Rightarrow> go_error option \<Rightarrow> go_error option \<Rightarrow> tracer_provider" where
  "TracerProvider G exporterEnv exporterErr resourceErr =
     (let tp = (if \<not> TracingEnabled G then None
                else if exporterEnv = ''otlp'' then
                  (if exporterErr \<noteq> None then None
                   else if resourceErr \<noteq> None then None
                   else Some SdkProvider)
                else None)
      in case tp of None \<Rightarrow> GlobalProvider | Some t \<Rightarrow> t)"

text \<open>\<open>init\<close>: \<open>strconv.ParseBool\<close> of the environment variable, if it parses.\<close>

definition ParseBool :: "string \<Rightarrow> bool option" where
  "ParseBool s =
     (if s \<in> {''1'', ''t'', ''T'', ''TRUE'', ''true'', ''True''} then Some True
      else if s \<in> {''0'', ''f'', ''F'', ''FALSE'', ''false'', ''False''} then Some False
      else None)"

definition init_tracing :: "string \<Rightarrow> bool" where
  "init_tracing env = (case ParseBool env of Some v \<Rightarrow> v | None \<Rightarrow> False)"

subsection \<open>Properties\<close>

lemma last_index_Some:
  "last_index c s = Some i \<Longrightarrow> i < length s \<and> s ! i = c \<and> c \<notin> set (drop (Suc i) s)"
proof (induction s arbitrary: i)
  case Nil
  then show ?case by simp
next
  case (Cons x xs)
  have "last_index c xs = None \<Longrightarrow> c \<notin> set xs" for xs
    by (induction xs) (auto split: option.splits if_splits)
  with Cons show ?case by (fastforce split: option.splits if_splits)
qed

lemma last_index_append: "c \<notin> set t \<Longrightarrow> last_index c (s @ c # t) = Some (length s)"
proof -
  assume t: "c \<notin> set t"
  have "c \<notin> set t \<Longrightarrow> last_index c t = None" by (induction t) auto
  with t show ?thesis by (induction s) auto
qed

lemma first_index_append: "c \<notin> set s \<Longrightarrow> first_index c (s @ c # t) = Some (length s)"
  by (induction s) auto

text \<open>The two forms of a peer address, of package net: with and without brackets.\<close>

definition join_host_port :: "string \<Rightarrow> string \<Rightarrow> string" where
  "join_host_port host port =
     (if CHR '':'' \<in> set host then ''['' @ host @ '']:'' @ port else host @ '':'' @ port)"

lemma SplitHostPort_join:
  assumes "set host \<inter> {CHR ''['', CHR '']''} = {}" and "set port \<inter> {CHR ''['', CHR '']'', CHR '':''} = {}"
  shows "SplitHostPort (join_host_port host port) = Some (host, port)"
proof (cases "CHR '':'' \<in> set host")
  case True
  let ?s = "(CHR ''['' # host @ [CHR '']'']) @ CHR '':'' # port"
  have "last_index (CHR '':'') ?s = Some (length host + 2)"
    using last_index_append [of "CHR '':''" port "CHR ''['' # host @ [CHR '']'']"] assms by simp
  moreover have "first_index (CHR '']'') ?s = Some (Suc (length host))"
    using first_index_append [of "CHR '']''" "CHR ''['' # host" "CHR '':'' # port"] assms by simp
  ultimately show ?thesis
    using True assms by (auto simp: SplitHostPort_def host_port_def join_host_port_def)
next
  case False
  then have "last_index (CHR '':'') (host @ CHR '':'' # port) = Some (length host)"
    using last_index_append [of "CHR '':''" port host] assms by simp
  moreover have "(host @ CHR '':'' # port) ! 0 \<noteq> CHR ''[''"
    using assms by (cases host) auto
  ultimately show ?thesis
    using False assms by (auto simp: SplitHostPort_def host_port_def join_host_port_def)
qed

lemma parseFullMethod_slashName:
  assumes "svc \<noteq> []" and "CHR ''/'' \<notin> set svc" and "m \<noteq> []"
  shows "parseFullMethod (slashName svc m) =
         (svc @ ''/'' @ m, [(''rpc.service'', svc), (''rpc.method'', m)])"
proof -
  have "dropWhile (\<lambda>c. c = CHR ''/'') (slashName svc m) = svc @ CHR ''/'' # m"
    using assms by (cases svc) (auto simp: slashName_def)
  moreover have "takeWhile (\<lambda>c. c \<noteq> CHR ''/'') (svc @ CHR ''/'' # m) = svc"
    "dropWhile (\<lambda>c. c \<noteq> CHR ''/'') (svc @ CHR ''/'' # m) = CHR ''/'' # m"
    using assms by (auto simp: takeWhile_append dropWhile_append)
  ultimately show ?thesis
    using assms by (simp add: parseFullMethod_def str_splitN2_def Let_def)
qed

text \<open>
  the span of a call names the service and the method of the qualified name and the
  host and the port of the peer, for IPv6 addresses too; an empty host is the loopback
  address.
\<close>

lemma spanInfo_correct:
  assumes "svc \<noteq> []" and "CHR ''/'' \<notin> set svc" and "m \<noteq> []"
    and "set host \<inter> {CHR ''['', CHR '']''} = {}"
    and "set port \<inter> {CHR ''['', CHR '']'', CHR '':''} = {}"
  shows "spanInfo (slashName svc m) (join_host_port host port) =
    (svc @ ''/'' @ m,
     [(''rpc.system'', ''grpc''), (''rpc.service'', svc), (''rpc.method'', m),
      (''net.peer.ip'', if host = [] then ''127.0.0.1'' else host), (''net.peer.port'', port)])"
  using assms by (simp add: spanInfo_def parseFullMethod_slashName peerAttr_def SplitHostPort_join)

lemma spanInfo_correct_witness:
  "spanInfo ''/a.B/C'' ''[::1]:80'' =
    (''a.B/C'', [(''rpc.system'', ''grpc''), (''rpc.service'', ''a.B''), (''rpc.method'', ''C''),
      (''net.peer.ip'', ''::1''), (''net.peer.port'', ''80'')])"
  using spanInfo_correct [of "''a.B''" "''C''" "''::1''" "''80''"]
  by (simp add: slashName_def join_host_port_def)

text \<open>
  The two counters of a direction move together: one unit on the RPC counter for every
  measurement of the byte counter, with the same attributes.
\<close>

definition meter_inv :: "meter \<Rightarrow> bool" where
  "meter_inv t \<longleftrightarrow>
     rxRpcCollector t = map (\<lambda>(_, as). (1, as)) (rxBytesCollector t) \<and>
     txRpcCollector t = map (\<lambda>(_, as). (1, as)) (txBytesCollector t)"

lemma meter_inv_track:
  assumes "meter_inv t"
  shows "meter_inv (TrackRxBytes m s k n t)" and "meter_inv (TrackTxBytes m s k n t)"
    and "meter_inv (TrackSvcRxLatency m s k n t)" and "meter_inv (TrackSvcTxLatency m s k n t)"
  using assms by (auto simp: meter_inv_def track_defs Let_def split: option.splits)

text \<open>
  Every tracking function keeps the counters consistent, and without an exporter it
  records nothing.
\<close>

lemma metrics_consistent:
  assumes "meter_inv t"
  shows "meter_inv (TrackRxBytes m s k n t) \<and> meter_inv (TrackTxBytes m s k n t) \<and>
         meter_inv (TrackSvcRxLatency m s k n t) \<and> meter_inv (TrackSvcTxLatency m s k n t) \<and>
         TrackRxBytes None s k n t = t \<and> TrackTxBytes None s k n t = t \<and>
         TrackSvcRxLatency None s k n t = t \<and> TrackSvcTxLatency None s k n t = t"
  using meter_inv_track [OF assms] by (simp add: track_defs)

definition empty_meter :: meter where
  "empty_meter = \<lparr>rxBytesCollector = [], txBytesCollector = [], rxRpcCollector = [],
     txRpcCollector = [], svcRxLatencyCollector = [], svcTxLatencyCollector = []\<rparr>"

lemma empty_meter_inv [simp]: "meter_inv empty_meter"
  by (simp add: meter_inv_def empty_meter_def)

lemma metrics_consistent_witness:
  "meter_inv empty_meter \<and> meter_inv (TrackRxBytes (Some \<lparr>staticAttrs = []\<rparr>) ''s'' ''m'' 3 empty_meter)"
  using metrics_consistent [OF empty_meter_inv] by simp

end
