(* ===== verification/Invokers.thy ===== *)
theory Invokers
  imports Stream_Wrappers Telemetry
begin

text \<open>
  invokers.go: the two implementations of the interface \<open>MethodInvoker\<close>, and the state they
  act on.

  The record \<open>world\<close> is what the goroutines of a process share: the stream controllers by
  address, the set of known streams, the instruments of the metrics and the state of the
  services registered by the user. The code of these services is not part of the
  repository: the argument \<open>H\<close> of type \<open>handlers\<close> stands for the generated
  \<open>grpc.MethodDesc.Handler\<close> functions, which call it. A call that waits for another
  goroutine takes the argument \<open>env\<close>, what the other goroutines do to the world while it
  waits.
\<close>

subsection \<open>Service descriptions and invokers\<close>

record MethodDesc =
  mdesc_Name :: string
  mdesc_Handler :: nat

record StreamDesc =
  sdesc_Name :: string
  sdesc_Handler :: nat
  sdesc_ClientStreams :: bool

record ServiceDesc =
  svc_ServiceName :: string
  svc_Methods :: "MethodDesc list"
  svc_Streams :: "StreamDesc list"

record localServiceInvoker =
  li_serviceImpl :: nat
  li_service :: ServiceDesc
  li_methods :: "string \<rightharpoonup> MethodDesc"
  li_streams :: "string \<rightharpoonup> StreamDesc"
  li_interceptor :: "nat option"
  li_metrics :: "MetricsExporter option"
  li_flags :: topology_flags

record streamControllerInvoker =
  ri_controller :: nat
  ri_flags :: topology_flags

datatype invoker = LocalInvoker localServiceInvoker | ControllerInvoker streamControllerInvoker

text \<open>The loops that fill the two maps: the last entry with a name counts.\<close>

definition newLocalServiceInvoker ::
  "nat \<Rightarrow> ServiceDesc \<Rightarrow> nat option \<Rightarrow> MetricsExporter option \<Rightarrow> topology_flags \<Rightarrow> localServiceInvoker" where
  "newLocalServiceInvoker serviceImpl service interceptor metrics baseTopologyFlags =
     \<lparr>li_serviceImpl = serviceImpl, li_service = service,
      li_methods = foldl (\<lambda>ms d. ms(mdesc_Name d \<mapsto> d)) Map.empty (svc_Methods service),
      li_streams = foldl (\<lambda>ss d. ss(sdesc_Name d \<mapsto> d)) Map.empty (svc_Streams service),
      li_interceptor = interceptor, li_metrics = metrics,
      li_flags = baseTopologyFlags OR TopologyLocal\<rparr>"

definition newStreamControllerInvoker :: "nat \<Rightarrow> topology_flags \<Rightarrow> streamControllerInvoker" where
  "newStreamControllerInvoker ctrl flags = \<lparr>ri_controller = ctrl, ri_flags = flags\<rparr>"

text \<open>\<open>StreamController.NewInvoker\<close>, for the controller at address \<open>k\<close>.\<close>

definition NewInvoker :: "nat \<Rightarrow> 'i StreamController \<Rightarrow> streamControllerInvoker" where
  "NewInvoker k st = newStreamControllerInvoker k (ctl_BaseTopologyFlags st)"

fun invoker_TopologyFlags :: "invoker \<Rightarrow> topology_flags" where
  "invoker_TopologyFlags (LocalInvoker l) = li_flags l"
| "invoker_TopologyFlags (ControllerInvoker r) = ri_flags r"

subsection \<open>The world\<close>

record 'x world =
  w_ctls :: "nat \<rightharpoonup> invoker StreamController"
  w_known :: "nat list"  \<comment> \<open>\<open>gKnownStreams\<close>\<close>
  w_alloc :: nat  \<comment> \<open>the next free address\<close>
  w_meter :: meter
  w_user :: 'x

definition on_ctl ::
  "nat \<Rightarrow> (invoker StreamController \<Rightarrow> ('a \<times> invoker StreamController) outcome) \<Rightarrow> 'x world \<Rightarrow>
   ('a \<times> 'x world) outcome" where
  "on_ctl k f w =
     (case w_ctls w k of
        None \<Rightarrow> Panics ''nil pointer dereference''
      | Some st \<Rightarrow> obind (f st) (\<lambda>(a, st'). Done (a, w\<lparr>w_ctls := (w_ctls w)(k \<mapsto> st')\<rparr>)))"

definition do_ctl ::
  "nat \<Rightarrow> (invoker StreamController \<Rightarrow> invoker StreamController outcome) \<Rightarrow> 'x world \<Rightarrow> 'x world outcome" where
  "do_ctl k f w = obind (on_ctl k (\<lambda>st. obind (f st) (\<lambda>st'. Done ((), st'))) w) (\<lambda>(_, w'). Done w')"

text \<open>
  A generated unary handler: it gets the service, the context, the function that decodes
  the request into a message of its type, and the interceptor.
\<close>

type_synonym ('m, 'x) decoder = "'m \<Rightarrow> 'x world \<Rightarrow> (go_error + 'm) \<times> 'x world"

type_synonym ('m, 'x) handlers =
  "nat \<Rightarrow> nat \<Rightarrow> ctx \<Rightarrow> ('m, 'x) decoder \<Rightarrow> nat option \<Rightarrow> 'x world \<Rightarrow>
   ((go_error + 'm any_msg) \<times> 'x world) outcome"

subsection \<open>Local services\<close>

definition local_decoder :: "'m codec \<Rightarrow> localServiceInvoker \<Rightarrow> RPC \<Rightarrow> ('m, 'x) decoder" where
  "local_decoder K l req v w =
     (let reqBytes = GetRequest (Some req) in
      (Unmarshal K reqBytes v,
       w\<lparr>w_meter := TrackRxBytes (li_metrics l) (ServiceName req) (MethodName req)
            (int (length reqBytes)) (w_meter w)\<rparr>))"

definition unknown_method :: "string \<Rightarrow> go_error" where
  "unknown_method name =
     StatusError \<lparr>st_code = Unimplemented, st_message = ''unknown method '' @ name\<rparr>"

text \<open>\<open>latency\<close> is the time the call took.\<close>

definition local_Invoke ::
  "'m codec \<Rightarrow> ('m, 'x) handlers \<Rightarrow> int \<Rightarrow> localServiceInvoker \<Rightarrow> ctx \<Rightarrow> RPC \<Rightarrow> 'x world \<Rightarrow>
   ((go_error + bytes) \<times> 'x world) outcome" where
  "local_Invoke K H latency l c req w =
     (case li_methods l (MethodName req) of
        None \<Rightarrow> Done (Inl (unknown_method (MethodName req)), w)
      | Some m \<Rightarrow>
          obind (H (mdesc_Handler m) (li_serviceImpl l) c (local_decoder K l req) (li_interceptor l) w)
            (\<lambda>(r, w1).
              case r of
                Inl err \<Rightarrow> Done (Inl err, w1)
              | Inr resp \<Rightarrow>
                  (case Marshal K resp of
                     (_, Some err) \<Rightarrow> Done (Inl err, w1)
                   | (respBytes, None) \<Rightarrow>
                       Done (Inr (the_bytes respBytes),
                         w1\<lparr>w_meter := TrackTxBytes (li_metrics l) (ServiceName req) (MethodName req)
                              (int (length (the_bytes respBytes)))
                              (TrackSvcRxLatency (li_metrics l) (ServiceName req) (MethodName req)
                                latency (w_meter w1))\<rparr>))))"

text \<open>
  A handler of a server-streaming method is a program that calls the methods of its stream
  and reacts to their results. It need not end.
\<close>

codatatype 'm stream_prog =
    PReturn "go_error option"
  | PRecvMsg "'m any_msg" "go_error option \<times> 'm any_msg \<Rightarrow> 'm stream_prog"
  | PSetHeader metadata "go_error option \<Rightarrow> 'm stream_prog"
  | PSendHeader metadata "go_error option \<Rightarrow> 'm stream_prog"
  | PSendMsg "'m any_msg" "go_error option \<Rightarrow> 'm stream_prog"
  | PSetTrailer metadata "'m stream_prog"

text \<open>
  The goroutine that \<open>localServiceInvoker.InvokeStream\<close> starts: the handler runs, then the
  response is sent, then the writer is closed.
\<close>

datatype 'm server_task =
    Handling localServerStreamWrapper "'m stream_prog"
  | SendingExit localServerStreamWrapper RPC
  | Exited localServerStreamWrapper

definition local_InvokeStream ::
  "(nat \<Rightarrow> nat \<Rightarrow> 'm stream_prog) \<Rightarrow> localServiceInvoker \<Rightarrow> ctx \<Rightarrow> RPC \<Rightarrow> RPC chan \<Rightarrow>
   go_error + 'm server_task" where
  "local_InvokeStream HS l c req writer =
     (case li_streams l (MethodName req) of
        None \<Rightarrow> Inl (unknown_method (MethodName req))
      | Some s \<Rightarrow>
          Inr (Handling (newLocalServerStreamWrapper c req writer)
                 (HS (sdesc_Handler s) (li_serviceImpl l))))"

definition exit_response :: "lib \<Rightarrow> go_error option \<Rightarrow> metadata option \<Rightarrow> RPC" where
  "exit_response G rpcError trailers =
     \<lparr>Tag = 0, ServiceName = [], MethodName = [],
      Content = Some (RPC_Response (Some \<lparr>Response_bytes = [],
        StatusProto = (case rpcError of
           Some e \<Rightarrow> status_Convert G rpcError
         | None \<Rightarrow> Some \<lparr>st_code = OK, st_message = code_String G OK\<rparr>)\<rparr>)),
      Metadata = FromMD trailers\<rparr>"

text \<open>One step of that goroutine. The writer of the wrapper is the channel itself.\<close>

definition server_step ::
  "lib \<Rightarrow> 'm codec \<Rightarrow> bool \<Rightarrow> 'm server_task \<Rightarrow> 'm server_task outcome" where
  "server_step G K pick t =
     (case t of
        Handling s (PReturn rpcError) \<Rightarrow>
          obind (lw_Close s) (\<lambda>(trailers, s1). Done (SendingExit s1 (exit_response G rpcError trailers)))
      | Handling s (PRecvMsg m k) \<Rightarrow> obind (lw_RecvMsg K m s) (\<lambda>r. Done (Handling s (k r)))
      | Handling s (PSetHeader md k) \<Rightarrow>
          (case lw_SetHeader G md s of (r, s1) \<Rightarrow> Done (Handling s1 (k r)))
      | Handling s (PSendHeader md k) \<Rightarrow>
          obind (lw_SendHeader G pick md s) (\<lambda>(r, s1). Done (Handling s1 (k r)))
      | Handling s (PSendMsg m k) \<Rightarrow>
          obind (lw_SendMsg K pick m s) (\<lambda>(r, s1). Done (Handling s1 (k r)))
      | Handling s (PSetTrailer md p) \<Rightarrow> Done (Handling (lw_SetTrailer G md s) p)
      | SendingExit s response \<Rightarrow>
          obind (chan_send response (lw_writer s)) (\<lambda>c.
          obind (chan_close c) (\<lambda>c'. Done (Exited (s\<lparr>lw_writer := c'\<rparr>))))
      | Exited s \<Rightarrow> Blocks)"

subsection \<open>Calls through another controller\<close>

text \<open>The incoming metadata of the context is made the outgoing metadata.\<close>

definition forward_ctx :: "lib \<Rightarrow> ctx \<Rightarrow> ctx" where
  "forward_ctx G c =
     (case FromIncomingContext G c of Some md \<Rightarrow> NewOutgoingContext G c md | None \<Rightarrow> c)"

text \<open>
  \<open>TrackTxBytes\<close> and \<open>Request\<close>, the part before the select. The exporter of the
  controller is an argument. The message is written to, so it is returned.
\<close>

definition remote_request ::
  "lib \<Rightarrow> MetricsExporter option \<Rightarrow> streamControllerInvoker \<Rightarrow> ctx \<Rightarrow> RPC \<Rightarrow> 'x world \<Rightarrow>
   ((nat \<times> RPC) \<times> 'x world) outcome" where
  "remote_request G mx r c req w =
     (let w1 = w\<lparr>w_meter := TrackTxBytes mx (ServiceName req) (MethodName req)
                   (int (length (GetRequest (Some req)))) (w_meter w)\<rparr> in
      on_ctl (ri_controller r) (\<lambda>st. obind (Request G c req st) (\<lambda>(rc, req', st').
        Done ((rc, req'), st'))) w1)"

text \<open>
  The select: a reply, or the end of the context. A nil status never has an error, but
  \<open>resp.Response\<close> of a nil response panics.
\<close>

definition remote_result ::
  "lib \<Rightarrow> MetricsExporter option \<Rightarrow> RPC \<Rightarrow> RPC option \<Rightarrow> meter \<Rightarrow> ((go_error + bytes) \<times> meter) outcome" where
  "remote_result G mx req v t =
     (let resp = GetResponse v in
      case status_Err G (GetStatus G resp) of
        Some err \<Rightarrow> Done (Inl err, t)
      | None \<Rightarrow>
          (case resp of
             None \<Rightarrow> Panics ''nil pointer dereference''
           | Some x \<Rightarrow>
               Done (Inr (Response_GetResponse resp),
                 TrackRxBytes mx (ServiceName req) (MethodName req) (int (length (Response_bytes x))) t)))"

definition remote_await ::
  "lib \<Rightarrow> MetricsExporter option \<Rightarrow> bool \<Rightarrow> streamControllerInvoker \<Rightarrow> ctx \<Rightarrow> RPC \<Rightarrow> nat \<Rightarrow> 'x world \<Rightarrow>
   ((go_error + bytes) \<times> 'x world) outcome" where
  "remote_await G mx pick r c req rc w =
     (let ready = on_ctl (ri_controller r) (recv_future rc) w in
      case ctx_err c of
        Some e \<Rightarrow>
          if ready = Blocks \<or> \<not> pick then Done (Inl e, w)
          else obind ready (\<lambda>(v, w1). obind (remote_result G mx req v (w_meter w1)) (\<lambda>(x, t).
                 Done (x, w1\<lparr>w_meter := t\<rparr>)))
      | None \<Rightarrow> obind ready (\<lambda>(v, w1). obind (remote_result G mx req v (w_meter w1)) (\<lambda>(x, t).
                 Done (x, w1\<lparr>w_meter := t\<rparr>))))"

definition remote_Invoke ::
  "lib \<Rightarrow> MetricsExporter option \<Rightarrow> bool \<Rightarrow> ('x world \<Rightarrow> 'x world) \<Rightarrow> streamControllerInvoker \<Rightarrow> ctx \<Rightarrow>
   RPC \<Rightarrow> 'x world \<Rightarrow> ((go_error + bytes) \<times> RPC \<times> 'x world) outcome" where
  "remote_Invoke G mx pick env r c req w =
     (let c1 = forward_ctx G c in
      obind (remote_request G mx r c1 req w) (\<lambda>((rc, req'), w1).
      obind (remote_await G mx pick r c1 req' rc (env w1)) (\<lambda>(x, w2). Done (x, req', w2))))"

text \<open>
  The goroutine that \<open>streamControllerInvoker.InvokeStream\<close> starts. \<open>relay_step\<close> is one
  round of its loop: the reply that was received is passed on, and after a response, or
  when the context ends, the writer is closed. A reply of another kind is dropped.
\<close>

record relay =
  rl_writer :: "RPC chan"
  rl_rc :: nat
  rl_done :: bool

definition remote_InvokeStream ::
  "lib \<Rightarrow> MetricsExporter option \<Rightarrow> streamControllerInvoker \<Rightarrow> ctx \<Rightarrow> RPC \<Rightarrow> RPC chan \<Rightarrow> 'x world \<Rightarrow>
   (relay \<times> 'x world) outcome" where
  "remote_InvokeStream G mx r c req writer w =
     obind (remote_request G mx r (forward_ctx G c) req w) (\<lambda>((rc, req'), w1).
       Done (\<lparr>rl_writer = writer, rl_rc = rc, rl_done = False\<rparr>, w1))"

definition relay_pass :: "RPC option \<Rightarrow> relay \<Rightarrow> relay outcome" where
  "relay_pass v t =
     (case v of
        None \<Rightarrow> Panics ''nil pointer dereference''
      | Some rpc \<Rightarrow>
          (case Content rpc of
             Some (RPC_ServerStreamMsg _) \<Rightarrow>
               obind (chan_send rpc (rl_writer t)) (\<lambda>c. Done (t\<lparr>rl_writer := c\<rparr>))
           | Some (RPC_Response _) \<Rightarrow>
               obind (chan_send rpc (rl_writer t)) (\<lambda>c.
               obind (chan_close c) (\<lambda>c'. Done (t\<lparr>rl_writer := c', rl_done := True\<rparr>)))
           | _ \<Rightarrow> Done t))"

definition relay_cancel :: "relay \<Rightarrow> relay outcome" where
  "relay_cancel t = obind (chan_close (rl_writer t)) (\<lambda>c. Done (t\<lparr>rl_writer := c, rl_done := True\<rparr>))"

subsection \<open>The interface\<close>

text \<open>\<open>MethodInvoker.Invoke\<close>: the dispatch on the implementation.\<close>

record ('m, 'x) env =
  e_lib :: lib
  e_codec :: "'m codec"
  e_handlers :: "('m, 'x) handlers"
  e_streams :: "nat \<Rightarrow> nat \<Rightarrow> 'm stream_prog"
  e_metrics :: "nat \<Rightarrow> MetricsExporter option"  \<comment> \<open>\<open>Metrics\<close> of a controller\<close>
  e_latency :: int
  e_pick :: bool
  e_env :: "'x world \<Rightarrow> 'x world"

definition Invoke ::
  "('m, 'x) env \<Rightarrow> invoker \<Rightarrow> ctx \<Rightarrow> RPC \<Rightarrow> 'x world \<Rightarrow> ((go_error + bytes) \<times> RPC \<times> 'x world) outcome" where
  "Invoke E iv c req w =
     (case iv of
        LocalInvoker l \<Rightarrow>
          obind (local_Invoke (e_codec E) (e_handlers E) (e_latency E) l c req w) (\<lambda>(r, w1).
            Done (r, req, w1))
      | ControllerInvoker r \<Rightarrow>
          remote_Invoke (e_lib E) (e_metrics E (ri_controller r)) (e_pick E) (e_env E) r c req w)"

text \<open>\<open>MethodInvoker.InvokeStream\<close>: the result is the goroutine that was started.\<close>

datatype 'm producer = LocalProducer "'m server_task" | RelayProducer nat relay

definition InvokeStream ::
  "('m, 'x) env \<Rightarrow> invoker \<Rightarrow> ctx \<Rightarrow> RPC \<Rightarrow> RPC chan \<Rightarrow> 'x world \<Rightarrow>
   ((go_error + 'm producer) \<times> 'x world) outcome" where
  "InvokeStream E iv c req writer w =
     (case iv of
        LocalInvoker l \<Rightarrow>
          Done (map_sum id LocalProducer (local_InvokeStream (e_streams E) l c req writer), w)
      | ControllerInvoker r \<Rightarrow>
          obind (remote_InvokeStream (e_lib E) (e_metrics E (ri_controller r)) r c req writer w) (\<lambda>(t, w1).
            Done (Inr (RelayProducer (ri_controller r) t), w1)))"

subsection \<open>The invariant of the world\<close>

definition world_ok :: "'x world \<Rightarrow> bool" where
  "world_ok w \<longleftrightarrow> (\<forall>k st. w_ctls w k = Some st \<longrightarrow> ctl_inv st)"

text \<open>A step that keeps the invariant and removes no controller.\<close>

definition safe :: "'x world \<Rightarrow> 'x world \<Rightarrow> bool" where
  "safe w w' \<longleftrightarrow> (world_ok w \<longrightarrow> world_ok w' \<and> dom (w_ctls w) \<subseteq> dom (w_ctls w'))"

lemma safe_refl [simp]: "safe w w"
  by (simp add: safe_def)

lemma safe_trans [trans]: "safe w w1 \<Longrightarrow> safe w1 w2 \<Longrightarrow> safe w w2"
  by (auto simp: safe_def)

lemma safe_same_ctls: "w_ctls w' = w_ctls w \<Longrightarrow> safe w w'"
  by (simp add: safe_def world_ok_def)

lemma safe_update:
  "(\<And>st. w_ctls w k = Some st \<Longrightarrow> ctl_inv st \<Longrightarrow> ctl_inv st') \<Longrightarrow> w_ctls w k \<noteq> None \<Longrightarrow>
   safe w (w\<lparr>w_ctls := (w_ctls w)(k \<mapsto> st')\<rparr>)"
  by (auto simp: safe_def world_ok_def)

lemma on_ctl_safe:
  assumes "on_ctl k f w = Done (a, w')"
    and "\<And>st a st'. ctl_inv st \<Longrightarrow> f st = Done (a, st') \<Longrightarrow> ctl_inv st'"
  shows "safe w w'"
  using assms by (auto simp: on_ctl_def split: option.splits intro!: safe_update)

text \<open>
  What is assumed of the code outside the repository that runs in the process: handlers
  and other goroutines reach controllers only through the operations of the library.
\<close>

definition handlers_ok :: "('m, 'x) handlers \<Rightarrow> bool" where
  "handlers_ok H \<longleftrightarrow>
     (\<forall>h i c d ix w r w'. (\<forall>x v. w_ctls (snd (d x v)) = w_ctls v) \<longrightarrow>
        H h i c d ix w = Done (r, w') \<longrightarrow> safe w w')"

definition env_ok :: "('m, 'x) env \<Rightarrow> bool" where
  "env_ok E \<longleftrightarrow> handlers_ok (e_handlers E) \<and> (\<forall>w. safe w (e_env E w))"

lemma local_Invoke_safe:
  assumes "handlers_ok H" and "local_Invoke K H lat l c req w = Done (r, w')"
  shows "safe w w'"
proof -
  have dec: "w_ctls (snd (local_decoder K l req x v)) = w_ctls v" for x v
    by (simp add: local_decoder_def Let_def)
  show ?thesis
  proof (cases "li_methods l (MethodName req)")
    case None
    with assms(2) show ?thesis by (simp add: local_Invoke_def)
  next
    case (Some m)
    with assms(2) obtain r1 w1 where
      h: "H (mdesc_Handler m) (li_serviceImpl l) c (local_decoder K l req) (li_interceptor l) w = Done (r1, w1)"
      by (auto simp: local_Invoke_def)
    have e: "w_ctls w' = w_ctls w1"
      using assms(2) Some h by (auto simp: local_Invoke_def split: sum.splits prod.splits option.splits)
    have "safe w w1" using assms(1) dec h unfolding handlers_ok_def by blast
    then show ?thesis by (rule safe_trans) (rule safe_same_ctls [OF e])
  qed
qed

lemma Request_keeps:
  assumes "Request G c req st = Done (rc, req', st')"
  shows "ServiceName req' = ServiceName req \<and> MethodName req' = MethodName req \<and>
         Content req' = Content req"
    and "ctl_inv st \<Longrightarrow> ctl_inv st'"
proof -
  show "ServiceName req' = ServiceName req \<and> MethodName req' = MethodName req \<and>
         Content req' = Content req" using assms by (auto simp: Request_alt)
  assume "ctl_inv st"
  then show "ctl_inv st'" using assms ctl_inv_Request [of st G c req] by auto
qed

lemma recv_future_inv:
  assumes "ctl_inv st" and "recv_future ch st = Done (v, st')"
  shows "ctl_inv st'"
proof -
  obtain c c' where c: "ctl_futures st ch = Some c" "chan_recv c = Done (v, c')"
    and st': "st' = st\<lparr>ctl_futures := (ctl_futures st)(ch \<mapsto> c')\<rparr>"
    using assms(2) by (auto simp: recv_future_def split: option.splits)
  have ok: "future_ok ch c" using assms(1) c(1) by (auto simp: ctl_inv_def futures_ok_def)
  have "chan_cap c' = chan_cap c" "chan_closed c' = chan_closed c"
    "set (chan_buf c') \<subseteq> set (chan_buf c)" "length (chan_buf c') \<le> length (chan_buf c)"
    using c(2) by (auto simp: chan_recv_def split: list.splits if_splits)
  with ok have "future_ok ch c'" by (auto simp: future_ok_def chan_ok_def list_all_iff)
  moreover have "pendingRPCs st (tag_of ch) = Some ch \<Longrightarrow> \<not> chan_closed c'"
    using pending_future [OF assms(1)] c(1) \<open>chan_closed c' = chan_closed c\<close> by fastforce
  ultimately show ?thesis unfolding st' by (rule ctl_inv_future [OF assms(1) c(1)])
qed

lemma remote_request_safe:
  assumes "remote_request G mx r c req w = Done ((rc, req'), w')"
  shows "safe w w'" and "ServiceName req' = ServiceName req \<and> MethodName req' = MethodName req \<and>
         Content req' = Content req"
proof -
  let ?w1 = "w\<lparr>w_meter := TrackTxBytes mx (ServiceName req) (MethodName req)
                   (int (length (GetRequest (Some req)))) (w_meter w)\<rparr>"
  let ?f = "\<lambda>st. obind (Request G c req st) (\<lambda>(rc, req', st'). Done ((rc, req'), st'))"
  have r: "on_ctl (ri_controller r) ?f ?w1 = Done ((rc, req'), w')"
    using assms by (simp add: remote_request_def)
  have "ctl_inv st'" if "ctl_inv st" "?f st = Done (a, st')" for st a st'
    using that Request_keeps(2) [of G c req st] by auto
  then have "safe ?w1 w'" by (rule on_ctl_safe [OF r])
  with safe_same_ctls [of ?w1 w] show "safe w w'" by (auto intro: safe_trans)
  show "ServiceName req' = ServiceName req \<and> MethodName req' = MethodName req \<and>
         Content req' = Content req"
    using r Request_keeps(1) [of G c req] by (fastforce simp: on_ctl_def split: option.splits)
qed

lemma remote_await_safe:
  assumes "remote_await G mx pick r c req rc w = Done (x, w')"
  shows "safe w w'"
proof -
  have "safe w w1" if "on_ctl (ri_controller r) (recv_future rc) w = Done (v, w1)" for v w1
    by (rule on_ctl_safe [OF that recv_future_inv])
  then show ?thesis
    using assms
    by (fastforce simp: remote_await_def Let_def split: option.splits if_splits
        intro: safe_trans safe_same_ctls)
qed

text \<open>
  The contract of an invoker: whatever it does to the world, it keeps the invariant, and
  of the message it is given it changes at most the tag and the metadata.
\<close>

locale method_invoker =
  fixes ok :: "'e \<Rightarrow> bool"
    and invk :: "'e \<Rightarrow> invoker \<Rightarrow> ctx \<Rightarrow> RPC \<Rightarrow> 'x world \<Rightarrow> ((go_error + bytes) \<times> RPC \<times> 'x world) outcome"
    and invk_stream :: "'e \<Rightarrow> invoker \<Rightarrow> ctx \<Rightarrow> RPC \<Rightarrow> RPC chan \<Rightarrow> 'x world \<Rightarrow>
          ((go_error + 'p) \<times> 'x world) outcome"
  assumes invk_safe: "ok e \<Longrightarrow> invk e iv c msg w = Done (r, msg', w') \<Longrightarrow> safe w w'"
    and invk_msg: "ok e \<Longrightarrow> invk e iv c msg w = Done (r, msg', w') \<Longrightarrow>
          ServiceName msg' = ServiceName msg \<and> MethodName msg' = MethodName msg \<and>
          Content msg' = Content msg"
    and invk_stream_safe: "ok e \<Longrightarrow> invk_stream e iv c msg ch w = Done (p, w') \<Longrightarrow> safe w w'"

interpretation mi: method_invoker env_ok Invoke InvokeStream
proof
  fix E :: "('m, 'x) env" and iv c msg and w :: "'x world" and r msg' w'
  assume ok: "env_ok E" and i: "Invoke E iv c msg w = Done (r, msg', w')"
  show "safe w w'"
  proof (cases iv)
    case (LocalInvoker l)
    with i ok show ?thesis by (auto simp: Invoke_def env_ok_def intro: local_Invoke_safe)
  next
    case (ControllerInvoker x)
    with i obtain rc w1 where
      q: "remote_request (e_lib E) (e_metrics E (ri_controller x)) x (forward_ctx (e_lib E) c) msg w =
          Done ((rc, msg'), w1)"
      and a: "remote_await (e_lib E) (e_metrics E (ri_controller x)) (e_pick E) x
          (forward_ctx (e_lib E) c) msg' rc (e_env E w1) = Done (r, w')"
      by (fastforce simp: Invoke_def remote_Invoke_def Let_def)
    have "safe w1 (e_env E w1)" using ok by (simp add: env_ok_def)
    then show ?thesis
      using remote_request_safe(1) [OF q] remote_await_safe [OF a] by (blast intro: safe_trans)
  qed
  show "ServiceName msg' = ServiceName msg \<and> MethodName msg' = MethodName msg \<and>
          Content msg' = Content msg"
    using i remote_request_safe(2)
    by (fastforce simp: Invoke_def remote_Invoke_def Let_def split: invoker.splits)
next
  fix E :: "('m, 'x) env" and iv c msg ch and w :: "'x world" and p w'
  assume "env_ok E" and "InvokeStream E iv c msg ch w = Done (p, w')"
  then show "safe w w'"
    using remote_request_safe(1)
    by (fastforce simp: InvokeStream_def remote_InvokeStream_def split: invoker.splits)
qed

end
