(* ===== verification/Dispatch.thy ===== *)
theory Dispatch
  imports Invokers
begin

text \<open>
  \<open>StreamController.handleRequest\<close> of stream.go: the choice of the handler for a request,
  the broadcast to several handlers, unary calls and the loop that passes on the messages
  of a server-streaming call.

  The invokers are the arguments \<open>invk\<close> and \<open>invk_stream\<close>; the locale \<open>method_invoker\<close> states
  what is relied on of them, and the model of invokers.go is an interpretation of it. The
  request is a pointer that the invoker may write to (\<open>Request\<close> changes its tag), so the
  calls of a broadcast see the message as the previous call left it.
\<close>

subsection \<open>The choice of the handler\<close>

type_synonym 'x invoke_fn =
  "invoker \<Rightarrow> ctx \<Rightarrow> RPC \<Rightarrow> 'x world \<Rightarrow> ((go_error + bytes) \<times> RPC \<times> 'x world) outcome"

type_synonym ('p, 'x) invoke_stream_fn =
  "invoker \<Rightarrow> ctx \<Rightarrow> RPC \<Rightarrow> RPC chan \<Rightarrow> 'x world \<Rightarrow> ((go_error + 'p) \<times> 'x world) outcome"

text \<open>
  The callback of the broadcast. Its state is the message and the world; the error it
  makes for a missing method is recorded on the span and dropped.
\<close>

definition broadcast_method_error :: "lib \<Rightarrow> string \<Rightarrow> go_error" where
  "broadcast_method_error G method =
     StatusError \<lparr>st_code = NotFound,
       st_message = ''method '' @ fmt_q G method @ '' not found (broadcast)''\<rparr>"

definition broadcast_callback ::
  "lib \<Rightarrow> 'x invoke_fn \<Rightarrow> ctx \<Rightarrow> string \<Rightarrow> invoker ServiceHandler \<Rightarrow> (RPC \<times> 'x world) outcome \<Rightarrow>
   bool \<times> (RPC \<times> 'x world) outcome" where
  "broadcast_callback G invk c method sh s =
     (case s of
        Done (msg, w) \<Rightarrow>
          (case MethodInvokers sh method of
             Some iv \<Rightarrow>
               (case invk iv c msg w of
                  Done (_, msg', w') \<Rightarrow> (True, Done (msg', w'))
                | Blocks \<Rightarrow> (False, Blocks)
                | Panics p \<Rightarrow> (False, Panics p))
           | None \<Rightarrow>
               (False, obind (recordError G (Some (broadcast_method_error G method)) empty_span)
                         (\<lambda>_. Done (msg, w))))
      | r \<Rightarrow> (False, r))"

text \<open>
  The broadcast. The variable \<open>err\<close> that is reported is declared outside the callback and
  never assigned: it is nil.
\<close>

definition broadcast ::
  "lib \<Rightarrow> bytes \<Rightarrow> 'x invoke_fn \<Rightarrow> nat \<Rightarrow> ctx \<Rightarrow> invoker ServiceHandlerList \<Rightarrow> RPC \<Rightarrow> 'x world \<Rightarrow> 'x world outcome" where
  "broadcast G emptyResponse invk self c handlers msg w =
     (case shl_Range (broadcast_callback G invk c (MethodName msg)) handlers (Done (msg, w)) of
        (success, r) \<Rightarrow>
          obind r (\<lambda>(_, w1).
            if success then do_ctl self (Reply G c (Tag msg) emptyResponse) w1
            else obind (recordError G None empty_span) (\<lambda>_.
                   do_ctl self (ReplyErr G c (Tag msg) None) w1)))"

text \<open>
  \<open>init\<close> marshals the empty message once, the reply to every broadcast; the argument is what
  \<open>proto.Marshal\<close> returned.
\<close>

definition init_emptyResponse :: "lib \<Rightarrow> bytes \<times> go_error option \<Rightarrow> bytes outcome" where
  "init_emptyResponse G r =
     (case r of (data, err) \<Rightarrow>
        case err of Some e \<Rightarrow> Panics (err_Error G e) | None \<Rightarrow> Done data)"

datatype ('p, 'x) handled = Handled "'x world" | Streams 'p "'x world"

definition finish :: "'x world outcome \<Rightarrow> ('p, 'x) handled outcome" where
  "finish r = obind r (\<lambda>w. Done (Handled w))"

definition reply_error ::
  "lib \<Rightarrow> nat \<Rightarrow> ctx \<Rightarrow> tag \<Rightarrow> go_error \<Rightarrow> 'x world \<Rightarrow> 'x world outcome" where
  "reply_error G self c tag e w =
     obind (recordError G (Some e) empty_span) (\<lambda>_. do_ctl self (ReplyErr G c tag (Some e)) w)"

definition unary_call ::
  "lib \<Rightarrow> 'x invoke_fn \<Rightarrow> nat \<Rightarrow> ctx \<Rightarrow> invoker \<Rightarrow> RPC \<Rightarrow> 'x world \<Rightarrow> 'x world outcome" where
  "unary_call G invk self c iv msg w =
     obind (invk iv c msg w) (\<lambda>(r, _, w1).
       case r of
         Inl err \<Rightarrow> reply_error G self c (Tag msg) err w1
       | Inr response \<Rightarrow> do_ctl self (Reply G c (Tag msg) response) w1)"

definition method_not_found :: "lib \<Rightarrow> string \<Rightarrow> go_error" where
  "method_not_found G method =
     StatusError \<lparr>st_code = NotFound, st_message = ''method '' @ fmt_q G method @ '' not found''\<rparr>"

definition unknown_service :: "lib \<Rightarrow> string \<Rightarrow> go_error" where
  "unknown_service G name =
     StatusError \<lparr>st_code = Unimplemented, st_message = ''unknown service: '' @ fmt_q G name\<rparr>"

text \<open>A method that is not in the map \<open>MethodInfo\<close> has the zero value there: it is unary.\<close>

definition info_of :: "'i ServiceHandler \<Rightarrow> string \<Rightarrow> method_info" where
  "info_of sh method =
     (case MethodInfo sh method of
        Some i \<Rightarrow> i
      | None \<Rightarrow> \<lparr>mi_Name = [], IsClientStream = False, IsServerStream = False\<rparr>)"

definition call_first ::
  "lib \<Rightarrow> 'x invoke_fn \<Rightarrow> ('p, 'x) invoke_stream_fn \<Rightarrow> nat \<Rightarrow> ctx \<Rightarrow> invoker ServiceHandler \<Rightarrow> RPC \<Rightarrow>
   'x world \<Rightarrow> ('p, 'x) handled outcome" where
  "call_first G invk invk_stream self c first msg w =
     (case MethodInvokers first (MethodName msg) of
        Some iv \<Rightarrow>
          (let info = info_of first (MethodName msg) in
           if \<not> IsServerStream info \<and> \<not> IsClientStream info then
             finish (unary_call G invk self c iv msg w)
           else if IsServerStream info \<and> \<not> IsClientStream info then
             obind (invk_stream iv c msg (make_chan 1) w) (\<lambda>(r, w1).
               case r of
                 Inl err \<Rightarrow> finish (reply_error G self c (Tag msg) err w1)
               | Inr producer \<Rightarrow> Done (Streams producer w1))
           else Done (Handled w))
      | None \<Rightarrow> finish (reply_error G self c (Tag msg) (method_not_found G (MethodName msg)) w))"

definition handleRequest ::
  "lib \<Rightarrow> bytes \<Rightarrow> 'x invoke_fn \<Rightarrow> ('p, 'x) invoke_stream_fn \<Rightarrow> nat \<Rightarrow> ctx \<Rightarrow> RPC \<Rightarrow> 'x world \<Rightarrow>
   ('p, 'x) handled outcome" where
  "handleRequest G emptyResponse invk invk_stream self c msg w =
     (case w_ctls w self of
        None \<Rightarrow> Panics ''nil pointer dereference''
      | Some st \<Rightarrow>
          (let unknown = finish (reply_error G self c (Tag msg) (unknown_service G (ServiceName msg)) w) in
           case ctl_services st (ServiceName msg) of
             None \<Rightarrow> unknown
           | Some handlers \<Rightarrow>
               if Len handlers > 0 then
                 (case First handlers of
                    None \<Rightarrow> unknown
                  | Some first \<Rightarrow>
                      if Len handlers > 1 \<and>
                         map_option qos_ReplicationStrategy (MethodQOS first (MethodName msg)) =
                           Some ReplicationStrategy_Broadcast
                      then finish (broadcast G emptyResponse invk self c handlers msg w)
                      else call_first G invk invk_stream self c first msg w)
               else unknown))"

subsection \<open>The loop of a server-streaming call\<close>

text \<open>
  The loop receives from \<open>responseC\<close>: stream messages go out with the tag of the request,
  a response is kept until the channel is closed and then sent as the last reply. When the
  context ends, the loop returns without a reply.
\<close>

record stream_loop =
  sl_exit :: "RPC option"
  sl_returned :: bool

definition loop_init :: stream_loop where
  "loop_init = \<lparr>sl_exit = None, sl_returned = False\<rparr>"

text \<open>The last reply, with the trailers of the exit response as outgoing metadata.\<close>

definition exit_reply ::
  "lib \<Rightarrow> ctx \<Rightarrow> tag \<Rightarrow> RPC \<Rightarrow> 'i StreamController \<Rightarrow> 'i StreamController outcome" where
  "exit_reply G c requestTag exitResponse st =
     (let stat = GetStatus G (GetResponse (Some exitResponse));
          c1 = NewOutgoingContext G c (ToMD (GetMetadata (Some exitResponse)))
      in if st_code stat \<noteq> OK then
           obind (recordError G (status_Err G stat) empty_span) (\<lambda>_.
             ReplyErr G c1 requestTag (status_Err G stat) st)
         else Reply G c1 requestTag (Response_GetResponse (GetResponse (Some exitResponse))) st)"

definition loop_recv ::
  "lib \<Rightarrow> ctx \<Rightarrow> tag \<Rightarrow> RPC option \<Rightarrow> stream_loop \<Rightarrow> 'i StreamController \<Rightarrow>
   (stream_loop \<times> 'i StreamController) outcome" where
  "loop_recv G c requestTag v sl st =
     (case v of
        None \<Rightarrow>
          (case sl_exit sl of
             Some r \<Rightarrow> obind (exit_reply G c requestTag r st) (\<lambda>st'. Done (sl\<lparr>sl_returned := True\<rparr>, st'))
           | None \<Rightarrow> Done (sl\<lparr>sl_returned := True\<rparr>, st))
      | Some response \<Rightarrow>
          (case Content response of
             Some (RPC_Response _) \<Rightarrow> Done (sl\<lparr>sl_exit := Some response\<rparr>, st)
           | Some (RPC_ServerStreamMsg _) \<Rightarrow>
               obind (StreamReply requestTag (GetServerStreamMsg (Some response)) st) (\<lambda>st'. Done (sl, st'))
           | _ \<Rightarrow> Done (sl, st)))"

definition loop_cancel :: "lib \<Rightarrow> ctx \<Rightarrow> stream_loop \<Rightarrow> stream_loop outcome" where
  "loop_cancel G c sl =
     (case ctx_err c of
        None \<Rightarrow> Blocks
      | Some e \<Rightarrow> obind (recordError G (Some e) empty_span) (\<lambda>_. Done (sl\<lparr>sl_returned := True\<rparr>)))"

subsection \<open>Replies\<close>

text \<open>\<open>replied k m w w'\<close>: the one thing that happens is that controller \<open>k\<close> sends \<open>m\<close>.\<close>

definition replied :: "nat \<Rightarrow> RPC \<Rightarrow> 'x world \<Rightarrow> 'x world \<Rightarrow> bool" where
  "replied k m w w' \<longleftrightarrow>
     (\<exists>st st'. w_ctls w k = Some st \<and> send_or_kick m st = Done st' \<and>
        w' = w\<lparr>w_ctls := (w_ctls w)(k \<mapsto> st')\<rparr>)"

lemma do_ctl_send_or_kick:
  "do_ctl k (send_or_kick m) w = Done w' \<longleftrightarrow> replied k m w w'"
  by (auto simp: do_ctl_def on_ctl_def replied_def split: option.splits)

lemma do_ctl_send_total:
  assumes "world_ok w" and "k \<in> dom (w_ctls w)"
  shows "\<exists>w'. do_ctl k (send_or_kick m) w = Done w'"
proof -
  obtain st where st: "w_ctls w k = Some st" "ctl_inv st"
    using assms by (auto simp: world_ok_def)
  then obtain st' where "send_or_kick m st = Done st'" using ctl_inv_send_or_kick by blast
  with st show ?thesis by (auto simp: do_ctl_send_or_kick replied_def)
qed

lemma send_or_kick_keeps: "ctl_inv st \<Longrightarrow> send_or_kick m st = Done st' \<Longrightarrow> ctl_inv st'"
  using ctl_inv_send_or_kick [of st m] by auto

lemma replied_safe: "replied k m w w' \<Longrightarrow> safe w w'"
  by (auto simp: replied_def intro!: safe_update dest: send_or_kick_keeps)

lemma replied_attempts:
  assumes "replied k m w w'" and "world_ok w"
  shows "\<exists>st st'. w_ctls w k = Some st \<and> w_ctls w' k = Some st' \<and>
           s_attempts (ctl_stream st') = s_attempts (ctl_stream st) @ [m]"
proof -
  obtain st st' where st: "w_ctls w k = Some st" "send_or_kick m st = Done st'"
    "w' = w\<lparr>w_ctls := (w_ctls w)(k \<mapsto> st')\<rparr>"
    using assms(1) by (auto simp: replied_def)
  have "kick_ok (ctl_kickOnce st) (ctl_receiver st)"
    using assms(2) st(1) by (auto simp: world_ok_def ctl_inv_def)
  then obtain s once v where
    "send_or_kick m st = Done (st\<lparr>ctl_stream := s, ctl_kickOnce := once, ctl_receiver := v\<rparr>)"
    "s_attempts s = s_attempts (ctl_stream st) @ [m]"
    using send_or_kick_Done [of st m] by metis
  with st show ?thesis by auto
qed

text \<open>The reply to a request: a response with the tag of the request.\<close>

definition reply_to :: "tag \<Rightarrow> RPC \<Rightarrow> bool" where
  "reply_to t m \<longleftrightarrow> Tag m = t \<and> (\<exists>r. Content m = Some (RPC_Response (Some r)))"

definition error_reply :: "lib \<Rightarrow> ctx \<Rightarrow> tag \<Rightarrow> go_error option \<Rightarrow> RPC" where
  "error_reply G c t e = response_msg t [] (status_Convert G e) (FromMD (Some (outgoing_md G c)))"

definition ok_reply :: "lib \<Rightarrow> ctx \<Rightarrow> tag \<Rightarrow> bytes \<Rightarrow> RPC" where
  "ok_reply G c t b =
     response_msg t b (Some \<lparr>st_code = OK, st_message = code_String G OK\<rparr>)
       (FromMD (Some (outgoing_md G c)))"

definition result_reply :: "lib \<Rightarrow> ctx \<Rightarrow> tag \<Rightarrow> go_error + bytes \<Rightarrow> RPC" where
  "result_reply G c t r = (case r of Inl e \<Rightarrow> error_reply G c t (Some e) | Inr b \<Rightarrow> ok_reply G c t b)"

lemma reply_to_simps [simp]:
  "reply_to t (error_reply G c t' e) \<longleftrightarrow> t' = t" "reply_to t (ok_reply G c t' b) \<longleftrightarrow> t' = t"
  "reply_to t (result_reply G c t' r) \<longleftrightarrow> t' = t"
  by (auto simp: reply_to_def error_reply_def ok_reply_def response_msg_def result_reply_def
      split: sum.splits)

lemma Reply_eq: "Reply G c t b = send_or_kick (ok_reply G c t b)"
  by (simp add: Reply_def ok_reply_def fun_eq_iff)

lemma ReplyErr_eq: "ReplyErr G c t e = send_or_kick (error_reply G c t e)"
  by (simp add: ReplyErr_def error_reply_def fun_eq_iff)

lemma recordError_Some [simp]: "obind (recordError G (Some e) sp) (\<lambda>_. r) = r"
  by (simp add: recordError_def Let_def)

lemma reply_error_eq: "reply_error G k c t e w = do_ctl k (send_or_kick (error_reply G c t (Some e))) w"
  by (simp add: reply_error_def ReplyErr_eq)

lemma unary_call_eq:
  "unary_call G invk k c iv msg w =
     obind (invk iv c msg w) (\<lambda>(r, _, w1). do_ctl k (send_or_kick (result_reply G c (Tag msg) r)) w1)"
proof -
  have "(case r of Inl err \<Rightarrow> reply_error G k c (Tag msg) err w1
         | Inr response \<Rightarrow> do_ctl k (Reply G c (Tag msg) response) w1) =
        do_ctl k (send_or_kick (result_reply G c (Tag msg) r)) w1" for r w1
    by (simp add: reply_error_eq Reply_eq result_reply_def split: sum.split)
  then show ?thesis unfolding unary_call_def by (cases "invk iv c msg w") (simp_all add: case_prod_beta)
qed

lemma finish_Done [simp]:
  "finish r = Done x \<longleftrightarrow> (\<exists>w. r = Done w \<and> x = Handled w)"
  by (auto simp: finish_def)

subsection \<open>Broadcasts\<close>

text \<open>The calls of a broadcast, one after the other.\<close>

fun invoke_all ::
  "'x invoke_fn \<Rightarrow> ctx \<Rightarrow> invoker list \<Rightarrow> RPC \<times> 'x world \<Rightarrow> (RPC \<times> 'x world) outcome" where
  "invoke_all invk c [] s = Done s"
| "invoke_all invk c (iv # ivs) s =
     obind (invk iv c (fst s) (snd s)) (\<lambda>(_, s'). invoke_all invk c ivs s')"

text \<open>
  What a request asks for, by the handlers \<open>hs\<close> of its service: whether it goes to all of
  them, and which invokers \<open>handleRequest\<close> calls with \<open>Invoke\<close>, in their order. A broadcast
  stops at the first handler without the method; any other request goes to the first handler.
\<close>

definition handlers_of :: "'i StreamController \<Rightarrow> string \<Rightarrow> 'i ServiceHandler list" where
  "handlers_of st name = (case ctl_services st name of None \<Rightarrow> [] | Some hs \<Rightarrow> shl_data hs)"

definition broadcasts :: "'i ServiceHandler list \<Rightarrow> string \<Rightarrow> bool" where
  "broadcasts hs method \<longleftrightarrow>
     1 < length hs \<and>
     map_option qos_ReplicationStrategy (MethodQOS (hd hs) method) = Some ReplicationStrategy_Broadcast"

definition is_unary :: "method_info \<Rightarrow> bool" where
  "is_unary info \<longleftrightarrow> \<not> IsServerStream info \<and> \<not> IsClientStream info"

definition called_invokers :: "'i ServiceHandler list \<Rightarrow> string \<Rightarrow> 'i list" where
  "called_invokers hs method =
     (if broadcasts hs method then map the (takeWhile (\<lambda>x. x \<noteq> None) (map (\<lambda>h. MethodInvokers h method) hs))
      else case hs of
        [] \<Rightarrow> []
      | first # _ \<Rightarrow>
          (case MethodInvokers first method of
             Some iv \<Rightarrow> if is_unary (info_of first method) then [iv] else []
           | None \<Rightarrow> []))"

text \<open>The methods that the switch of \<open>handleRequest\<close> has no case for.\<close>

definition client_streaming :: "'i ServiceHandler list \<Rightarrow> string \<Rightarrow> bool" where
  "client_streaming hs method \<longleftrightarrow>
     hs \<noteq> [] \<and> \<not> broadcasts hs method \<and> MethodInvokers (hd hs) method \<noteq> None \<and>
     IsClientStream (info_of (hd hs) method)"

definition server_streaming :: "'i ServiceHandler list \<Rightarrow> string \<Rightarrow> bool" where
  "server_streaming hs method \<longleftrightarrow>
     hs \<noteq> [] \<and> \<not> broadcasts hs method \<and> MethodInvokers (hd hs) method \<noteq> None \<and>
     IsServerStream (info_of (hd hs) method) \<and> \<not> IsClientStream (info_of (hd hs) method)"

text \<open>The same choice as \<open>handleRequest\<close> makes it.\<close>

lemma handleRequest_eq:
  assumes "w_ctls w k = Some st"
  shows "handleRequest G er invk invk_stream k c msg w =
    (case handlers_of st (ServiceName msg) of
       [] \<Rightarrow> finish (reply_error G k c (Tag msg) (unknown_service G (ServiceName msg)) w)
     | first # _ \<Rightarrow>
         if broadcasts (handlers_of st (ServiceName msg)) (MethodName msg)
         then finish (broadcast G er invk k c (the (ctl_services st (ServiceName msg))) msg w)
         else call_first G invk invk_stream k c first msg w)"
  using assms
  by (auto simp: handleRequest_def handlers_of_def broadcasts_def Len_def First_def Let_def
      split: option.splits list.splits)

lemma call_first_unary:
  assumes "MethodInvokers first (MethodName msg) = Some iv" and "is_unary (info_of first (MethodName msg))"
  shows "call_first G invk invk_stream k c first msg w = finish (unary_call G invk k c iv msg w)"
  using assms by (simp add: call_first_def is_unary_def)

lemma broadcast_callback_None:
  "MethodInvokers h method = None \<Longrightarrow>
   broadcast_callback G invk c method h (Done (msg, w)) = (False, Done (msg, w))"
  by (simp add: broadcast_callback_def)

lemma broadcast_callback_Some:
  "MethodInvokers h method = Some iv \<Longrightarrow>
   broadcast_callback G invk c method h (Done (msg, w)) =
     (case invk iv c msg w of
        Done (_, s) \<Rightarrow> (True, Done s)
      | Blocks \<Rightarrow> (False, Blocks)
      | Panics p \<Rightarrow> (False, Panics p))"
  by (simp add: broadcast_callback_def split: outcome.splits)

lemma broadcast_callback_stuck [simp]:
  "range_loop (broadcast_callback G invk c method) hs Blocks = (hs = [], Blocks)"
  "range_loop (broadcast_callback G invk c method) hs (Panics p) = (hs = [], Panics p)"
  by (cases hs; simp add: broadcast_callback_def)+

lemma broadcast_range:
  assumes "list_all2 (\<lambda>h iv. MethodInvokers h method = Some iv) hs ivs"
    and "invoke_all invk c ivs s = Done s'"
  shows "range_loop (broadcast_callback G invk c method) hs (Done s) = (True, Done s')"
  using assms
proof (induction arbitrary: s rule: list_all2_induct)
  case Nil
  then show ?case by simp
next
  case (Cons h hs iv ivs)
  then obtain r s1 where "invk iv c (fst s) (snd s) = Done (r, s1)" "invoke_all invk c ivs s1 = Done s'"
    by auto
  with Cons show ?case by (cases s) (simp add: broadcast_callback_Some)
qed

lemma broadcast_all:
  assumes "list_all2 (\<lambda>h iv. MethodInvokers h (MethodName msg) = Some iv) (shl_data hl) ivs"
    and "invoke_all invk c ivs (msg, w) = Done (msg', w1)"
  shows "broadcast G er invk k c hl msg w = do_ctl k (send_or_kick (ok_reply G c (Tag msg) er)) w1"
  using broadcast_range [OF assms] by (simp add: broadcast_def shl_Range_def Reply_eq)

lemma broadcast_Done_range:
  assumes "broadcast G er invk k c hl msg w = Done w'"
  shows "\<exists>msg1 w1 m. snd (range_loop (broadcast_callback G invk c (MethodName msg)) (shl_data hl) (Done (msg, w))) =
     Done (msg1, w1) \<and> replied k m w1 w' \<and> reply_to (Tag msg) m"
  using assms
  by (auto simp: broadcast_def shl_Range_def Reply_eq ReplyErr_eq do_ctl_send_or_kick
      split: prod.splits if_splits intro!: exI)

lemma range_invokes:
  assumes "snd (range_loop (broadcast_callback G invk c method) hs (Done s)) = Done s'"
  shows "invoke_all invk c (map the (takeWhile (\<lambda>x. x \<noteq> None) (map (\<lambda>h. MethodInvokers h method) hs))) s = Done s'"
  using assms
proof (induction hs arbitrary: s)
  case Nil
  then show ?case by simp
next
  case (Cons h hs)
  obtain msg w where s: "s = (msg, w)" by (cases s)
  show ?case
  proof (cases "MethodInvokers h method")
    case None
    with Cons.prems s show ?thesis by (simp add: broadcast_callback_None)
  next
    case (Some iv)
    with Cons.prems s obtain r s1 where i: "invk iv c msg w = Done (r, s1)"
      by (cases "invk iv c msg w") (auto simp: broadcast_callback_Some)
    with Some Cons.prems s have "snd (range_loop (broadcast_callback G invk c method) hs (Done s1)) = Done s'"
      by (simp add: broadcast_callback_Some)
    from Cons.IH [OF this] Some i s show ?thesis by simp
  qed
qed

context method_invoker
begin

lemma range_safe:
  assumes "ok e"
    and "snd (range_loop (broadcast_callback G (invk e) c method) hs (Done (msg, w))) = Done (msg1, w1)"
  shows "safe w w1"
  using assms(2)
proof (induction hs arbitrary: msg w)
  case Nil
  then show ?case by simp
next
  case (Cons h hs)
  show ?case
  proof (cases "MethodInvokers h method")
    case None
    with Cons.prems show ?thesis by (simp add: broadcast_callback_None)
  next
    case (Some iv)
    with Cons.prems obtain r msg2 w2 where i: "invk e iv c msg w = Done (r, msg2, w2)"
      by (cases "invk e iv c msg w") (auto simp: broadcast_callback_Some)
    with Some Cons.prems have
      "snd (range_loop (broadcast_callback G (invk e) c method) hs (Done (msg2, w2))) = Done (msg1, w1)"
      by (simp add: broadcast_callback_Some)
    with invk_safe [OF assms(1) i] Cons.IH show ?thesis by (blast intro: safe_trans)
  qed
qed

lemma invoke_all_safe:
  "ok e \<Longrightarrow> invoke_all (invk e) c ivs s = Done s' \<Longrightarrow> safe (snd s) (snd s')"
proof (induction ivs arbitrary: s)
  case Nil
  then show ?case by simp
next
  case (Cons iv ivs)
  then obtain r s1 where i: "invk e iv c (fst s) (snd s) = Done (r, s1)"
    and "invoke_all (invk e) c ivs s1 = Done s'" by auto
  moreover have "safe (snd s) (snd s1)"
    using invk_safe [of e iv c "fst s" "snd s" r "fst s1" "snd s1"] Cons.prems i by simp
  ultimately show ?case using Cons.IH Cons.prems(1) by (blast intro: safe_trans)
qed

lemma call_first_reply:
  assumes "ok e" and "call_first G (invk e) (invk_stream e) k c first msg w = Done (Handled w')"
    and hs: "hs = first # rest" and nb: "\<not> broadcasts hs (MethodName msg)"
  shows "(w' = w \<and> client_streaming hs (MethodName msg)) \<or>
    (\<not> client_streaming hs (MethodName msg) \<and>
     (\<exists>msg1 w1 m. safe w w1 \<and> replied k m w1 w' \<and> reply_to (Tag msg) m \<and>
       (invoke_all (invk e) c (called_invokers hs (MethodName msg)) (msg, w) = Done (msg1, w1) \<and>
          \<not> server_streaming hs (MethodName msg) \<or>
        (\<exists>iv err. server_streaming hs (MethodName msg) \<and> MethodInvokers (hd hs) (MethodName msg) = Some iv \<and>
          invk_stream e iv c msg (make_chan 1) w = Done (Inl err, w1)))))"
proof (cases "MethodInvokers first (MethodName msg)")
  case None
  then have "\<exists>m. replied k m w w' \<and> reply_to (Tag msg) m"
    using assms(2) by (auto simp: call_first_def reply_error_eq do_ctl_send_or_kick intro: reply_to_simps)
  moreover have "invoke_all (invk e) c (called_invokers hs (MethodName msg)) (msg, w) = Done (msg, w)"
    using None hs nb by (simp add: called_invokers_def)
  moreover have "\<not> client_streaming hs (MethodName msg)" "\<not> server_streaming hs (MethodName msg)"
    using None hs by (simp_all add: client_streaming_def server_streaming_def)
  ultimately show ?thesis using safe_refl [of w] by blast
next
  case (Some iv)
  let ?i = "info_of first (MethodName msg)"
  consider "IsClientStream ?i" | "is_unary ?i" | "\<not> IsClientStream ?i" "IsServerStream ?i"
    by (auto simp: is_unary_def)
  then show ?thesis
  proof cases
    case 1
    with Some assms(2) hs nb show ?thesis by (simp add: call_first_def client_streaming_def)
  next
    case 2
    with assms(2) obtain r msg1 w1 where i: "invk e iv c msg w = Done (r, msg1, w1)"
      "replied k (result_reply G c (Tag msg) r) w1 w'"
      by (auto simp: call_first_unary [OF Some] unary_call_eq do_ctl_send_or_kick)
    have "invoke_all (invk e) c (called_invokers hs (MethodName msg)) (msg, w) = Done (msg1, w1)"
      using Some 2 hs nb i(1) by (simp add: called_invokers_def)
    moreover have "\<not> client_streaming hs (MethodName msg)" "\<not> server_streaming hs (MethodName msg)"
      using 2 hs by (auto simp: client_streaming_def server_streaming_def is_unary_def)
    ultimately show ?thesis using invk_safe [OF assms(1) i(1)] i(2) reply_to_simps(3) by blast
  next
    case 3
    then have st: "server_streaming hs (MethodName msg)" "\<not> client_streaming hs (MethodName msg)"
      using Some hs nb by (auto simp: server_streaming_def client_streaming_def)
    from 3 Some assms(2) obtain r w1 where i: "invk_stream e iv c msg (make_chan 1) w = Done (r, w1)"
      by (auto simp: call_first_def)
    with 3 Some assms(2) obtain err where r: "r = Inl err" "replied k (error_reply G c (Tag msg) (Some err)) w1 w'"
      by (cases r) (auto simp: call_first_def reply_error_eq do_ctl_send_or_kick)
    have "reply_to (Tag msg) (error_reply G c (Tag msg) (Some err))" by simp
    then show ?thesis using st Some hs i r invk_stream_safe [OF assms(1) i] by fastforce
  qed
qed

text \<open>
  Every request that is answered in one go is answered once, with a response of its tag, and
  \<open>w1\<close>, where it is sent, is where the calls of the invokers have led.
\<close>

lemma handleRequest_reply:
  assumes "ok e" and "w_ctls w k = Some st"
    and "handleRequest G er (invk e) (invk_stream e) k c msg w = Done (Handled w')"
  defines "hs \<equiv> handlers_of st (ServiceName msg)"
  shows "(w' = w \<and> client_streaming hs (MethodName msg)) \<or>
    (\<not> client_streaming hs (MethodName msg) \<and>
     (\<exists>msg1 w1 m. safe w w1 \<and> replied k m w1 w' \<and> reply_to (Tag msg) m \<and>
       (invoke_all (invk e) c (called_invokers hs (MethodName msg)) (msg, w) = Done (msg1, w1) \<and>
          \<not> server_streaming hs (MethodName msg) \<or>
        (\<exists>iv err. server_streaming hs (MethodName msg) \<and> MethodInvokers (hd hs) (MethodName msg) = Some iv \<and>
          invk_stream e iv c msg (make_chan 1) w = Done (Inl err, w1)))))"
proof -
  note h = assms(3) [unfolded handleRequest_eq [OF assms(2)]]
  show ?thesis
  proof (cases hs)
    case Nil
    then have "\<exists>m. replied k m w w' \<and> reply_to (Tag msg) m"
      using h by (auto simp: hs_def reply_error_eq do_ctl_send_or_kick intro: reply_to_simps)
    moreover have "invoke_all (invk e) c (called_invokers hs (MethodName msg)) (msg, w) = Done (msg, w)"
      using Nil by (simp add: called_invokers_def broadcasts_def)
    ultimately show ?thesis
      using Nil safe_refl [of w] unfolding client_streaming_def server_streaming_def by blast
  next
    case (Cons first tl)
    show ?thesis
    proof (cases "broadcasts hs (MethodName msg)")
      case True
      then have b: "broadcast G er (invk e) k c (the (ctl_services st (ServiceName msg))) msg w = Done w'"
        using h Cons by (simp add: hs_def)
      have d: "shl_data (the (ctl_services st (ServiceName msg))) = hs"
        using Cons by (auto simp: hs_def handlers_of_def split: option.splits)
      from broadcast_Done_range [OF b] d obtain msg1 w1 m where
        r: "snd (range_loop (broadcast_callback G (invk e) c (MethodName msg)) hs (Done (msg, w))) = Done (msg1, w1)"
        and m: "replied k m w1 w'" "reply_to (Tag msg) m" by auto
      have "invoke_all (invk e) c (called_invokers hs (MethodName msg)) (msg, w) = Done (msg1, w1)"
        using range_invokes [OF r] True by (simp add: called_invokers_def)
      with m range_safe [OF assms(1) r] True show ?thesis
        by (auto simp: client_streaming_def server_streaming_def)
    next
      case False
      then have f: "call_first G (invk e) (invk_stream e) k c first msg w = Done (Handled w')"
        using h Cons by (simp add: hs_def)
      show ?thesis by (rule call_first_reply [OF assms(1) f Cons False])
    qed
  qed
qed

end

subsection \<open>Properties of the dispatch\<close>

text \<open>
  C4: every request that \<open>handleRequest\<close> finishes by itself is answered exactly once: the
  invokers of the request are called, each once and in order, and in the world that they
  leave the controller makes one send, of a response that carries the tag the request came
  with, even though forwarding the request overwrites its tag; or the stream that the
  method asks for was refused, and the same holds. The one exception is a method with a
  stream of the client, for which nothing happens at all.
\<close>

theorem request_answered_once:
  assumes "env_ok E" and "w_ctls w k = Some st"
    and "handleRequest G er (Invoke E) (InvokeStream E) k c msg w = Done (Handled w')"
    and "hs = handlers_of st (ServiceName msg)"
  shows "(w' = w \<and> client_streaming hs (MethodName msg)) \<or>
    (\<not> client_streaming hs (MethodName msg) \<and>
     (\<exists>msg1 w1 m. safe w w1 \<and> replied k m w1 w' \<and> reply_to (Tag msg) m \<and>
       (invoke_all (Invoke E) c (called_invokers hs (MethodName msg)) (msg, w) = Done (msg1, w1) \<and>
          \<not> server_streaming hs (MethodName msg) \<or>
        (\<exists>iv err. server_streaming hs (MethodName msg) \<and> MethodInvokers (hd hs) (MethodName msg) = Some iv \<and>
          InvokeStream E iv c msg (make_chan 1) w = Done (Inl err, w1)))))"
  unfolding assms(4) by (rule mi.handleRequest_reply [OF assms(1-3)])

text \<open>
  C34: a request for a service that was never registered, or whose handlers are all gone, is
  answered with Unimplemented; one for a method that the handler does not have, which the
  request is not a broadcast of, with NotFound. No invoker is called: the one thing that
  happens is the reply.
\<close>

theorem unknown_requests_rejected:
  assumes "status_laws G" and "world_ok w" and "w_ctls w k = Some st"
  shows "(handlers_of st (ServiceName msg) = [] \<longrightarrow>
            (\<exists>w'. handleRequest G er invk invk_stream k c msg w = Done (Handled w') \<and>
               replied k (response_msg (Tag msg) [] (Some \<lparr>st_code = Unimplemented,
                   st_message = ''unknown service: '' @ fmt_q G (ServiceName msg)\<rparr>)
                 (FromMD (Some (outgoing_md G c)))) w w')) \<and>
         (\<forall>h tl. handlers_of st (ServiceName msg) = h # tl \<longrightarrow> MethodInvokers h (MethodName msg) = None \<longrightarrow>
            \<not> broadcasts (h # tl) (MethodName msg) \<longrightarrow>
            (\<exists>w'. handleRequest G er invk invk_stream k c msg w = Done (Handled w') \<and>
               replied k (response_msg (Tag msg) [] (Some \<lparr>st_code = NotFound,
                   st_message = ''method '' @ fmt_q G (MethodName msg) @ '' not found''\<rparr>)
                 (FromMD (Some (outgoing_md G c)))) w w'))"
proof -
  have d: "k \<in> dom (w_ctls w)" using assms(3) by blast
  have rejected: "\<exists>w'. finish (reply_error G k c (Tag msg) e w) = Done (Handled w') \<and>
      replied k (error_reply G c (Tag msg) (Some e)) w w'" for e
    using do_ctl_send_total [OF assms(2) d, of "error_reply G c (Tag msg) (Some e)"]
    by (auto simp: reply_error_eq do_ctl_send_or_kick)
  show ?thesis
    using rejected [of "unknown_service G (ServiceName msg)"] rejected [of "method_not_found G (MethodName msg)"] assms(1)
    by (auto simp: handleRequest_eq [OF assms(3)] call_first_def error_reply_def unknown_service_def method_not_found_def)
qed

text \<open>
  C27: a unary call is answered with what the invoker of the first handler returned: its
  bytes with status OK, or its error converted to a status, under the tag of the request.
  The service may have any number of handlers, as long as the first one does not ask for a
  broadcast of the method.
\<close>

theorem unary_request_result:
  assumes "env_ok E" and "world_ok w" and "w_ctls w k = Some st"
    and "handlers_of st (ServiceName msg) = h # rest"
    and "rest = [] \<or> map_option qos_ReplicationStrategy (MethodQOS h (MethodName msg)) \<noteq> Some ReplicationStrategy_Broadcast"
    and "MethodInvokers h (MethodName msg) = Some iv"
    and "\<not> IsServerStream (info_of h (MethodName msg))" and "\<not> IsClientStream (info_of h (MethodName msg))"
    and "Invoke E iv c msg w = Done (r, msg', w1)"
  shows "\<exists>w'. handleRequest G er (Invoke E) (InvokeStream E) k c msg w = Done (Handled w') \<and>
           replied k (result_reply G c (Tag msg) r) w1 w'"
proof -
  have "safe w w1" using mi.invk_safe [OF assms(1,9)] .
  with assms(2,3) have "world_ok w1" "k \<in> dom (w_ctls w1)" by (auto simp: safe_def)
  then obtain w' where w': "do_ctl k (send_or_kick (result_reply G c (Tag msg) r)) w1 = Done w'"
    using do_ctl_send_total by blast
  have "\<not> broadcasts (h # rest) (MethodName msg)" "is_unary (info_of h (MethodName msg))"
    using assms(5,7,8) by (auto simp: broadcasts_def is_unary_def)
  with w' assms(4,6,9) show ?thesis
    by (auto simp: handleRequest_eq [OF assms(3)] call_first_unary unary_call_eq do_ctl_send_or_kick)
qed

lemma broadcast_method_present:
  assumes "shl_inv hs" and "list_all handler_wf (shl_data hs)" and "First hs = Some first"
    and "MethodInvokers first method \<noteq> None"
  shows "\<exists>ivs. list_all2 (\<lambda>h iv. MethodInvokers h method = Some iv) (shl_data hs) ivs"
proof -
  have f: "first \<in> set (shl_data hs)" using assms(3) by (auto simp: First_def split: list.splits)
  then have "method \<in> md_Name ` set (sd_Method (Descriptor first))"
    using assms(2,4) by (auto simp: list_all_iff handler_wf_def)
  then have "MethodInvokers h method \<noteq> None" if "h \<in> set (shl_data hs)" for h
    using assms(1,2) f that unfolding list_all_iff handler_wf_def shl_inv_def by (metis domIff)
  then have "list_all2 (\<lambda>h iv. MethodInvokers h method = Some iv) (shl_data hs)
      (map (\<lambda>h. the (MethodInvokers h method)) (shl_data hs))"
    by (auto simp: list.rel_map intro!: list.rel_refl_strong)
  then show ?thesis by blast
qed

text \<open>
  C26: a broadcast reaches every handler of the service: on a handler list that obeys its
  invariant the invokers of all handlers are called in the order of the list, whatever
  their results, and the request is answered once with an empty success.
\<close>

theorem broadcast_reaches_all:
  assumes "env_ok E" and "world_ok w" and "w_ctls w k = Some st"
    and "ctl_services st (ServiceName msg) = Some hs" and "1 < Len hs" and "First hs = Some first"
    and "MethodQOS first (MethodName msg) = Some q"
    and "qos_ReplicationStrategy q = ReplicationStrategy_Broadcast"
    and "shl_inv hs" and "list_all handler_wf (shl_data hs)"
    and "MethodInvokers first (MethodName msg) \<noteq> None"
  shows "\<exists>ivs. map (\<lambda>h. MethodInvokers h (MethodName msg)) (shl_data hs) = map Some ivs \<and>
           (\<forall>msg' w1. invoke_all (Invoke E) c ivs (msg, w) = Done (msg', w1) \<longrightarrow>
              (\<exists>w'. handleRequest G er (Invoke E) (InvokeStream E) k c msg w = Done (Handled w') \<and>
                 replied k (ok_reply G c (Tag msg) er) w1 w'))"
proof -
  obtain ivs where ivs: "list_all2 (\<lambda>h iv. MethodInvokers h (MethodName msg) = Some iv) (shl_data hs) ivs"
    using broadcast_method_present [OF assms(9,10,6,11)] by blast
  then have m: "map (\<lambda>h. MethodInvokers h (MethodName msg)) (shl_data hs) = map Some ivs"
    by (induction rule: list_all2_induct) auto
  have "\<exists>w'. handleRequest G er (Invoke E) (InvokeStream E) k c msg w = Done (Handled w') \<and>
          replied k (ok_reply G c (Tag msg) er) w1 w'"
    if i: "invoke_all (Invoke E) c ivs (msg, w) = Done (msg', w1)" for msg' w1
  proof -
    have "safe w w1" using mi.invoke_all_safe [OF assms(1) i] by simp
    with assms(2,3) have "world_ok w1" "k \<in> dom (w_ctls w1)" by (auto simp: safe_def)
    obtain w' where "do_ctl k (send_or_kick (ok_reply G c (Tag msg) er)) w1 = Done w'"
      using do_ctl_send_total \<open>world_ok w1\<close> \<open>k \<in> dom (w_ctls w1)\<close> by blast
    with broadcast_all [OF ivs i, of G er k] show ?thesis
      using assms(3-8) by (auto simp: handleRequest_def do_ctl_send_or_kick)
  qed
  with m show ?thesis by blast
qed

subsection \<open>A concrete instance\<close>

text \<open>
  A service with one method that returns its request, on a controller whose stream accepts
  everything. Messages are their own encoding.
\<close>

definition echo_handler :: "(bytes, unit) handlers" where
  "echo_handler h i c d ix w = (case d [] w of (r, w1) \<Rightarrow> Done (map_sum id AnyV2 r, w1))"

definition echo_env :: "(bytes, unit) env" where
  "echo_env = \<lparr>e_lib = std_lib, e_codec = byte_codec, e_handlers = echo_handler,
     e_streams = (\<lambda>_ _. PReturn None), e_metrics = (\<lambda>_. None), e_latency = 0, e_pick = True,
     e_env = (\<lambda>w. w)\<rparr>"

lemma echo_env_ok: "env_ok echo_env"
  by (auto simp: env_ok_def echo_env_def handlers_ok_def echo_handler_def
      intro!: safe_same_ctls split: prod.splits) (metis snd_conv)

definition echo_service :: ServiceDesc where
  "echo_service = \<lparr>svc_ServiceName = ''svc'',
     svc_Methods = [\<lparr>mdesc_Name = ''M'', mdesc_Handler = 0\<rparr>], svc_Streams = []\<rparr>"

definition echo_invoker :: invoker where
  "echo_invoker = LocalInvoker (newLocalServiceInvoker 0 echo_service None None 0)"

definition echo_descriptor :: "QOS option \<Rightarrow> ServiceDescriptor" where
  "echo_descriptor q = \<lparr>sd_Name = ''svc'', sd_Method = [\<lparr>md_Name = ''M'', md_InputType = ''.B'',
     md_OutputType = ''.google.protobuf.Empty'', md_ClientStreaming = False,
     md_ServerStreaming = False, md_Qos = q\<rparr>], sd_Visibility = None\<rparr>"

definition echo_sh :: "QOS option \<Rightarrow> nat \<Rightarrow> invoker ServiceHandler" where
  "echo_sh q p = \<lparr>sh_ptr = p, controllerContext = bg_ctx, Descriptor = echo_descriptor q,
     MethodInvokers = [''M'' \<mapsto> echo_invoker],
     MethodInfo = [''M'' \<mapsto> \<lparr>mi_Name = ''M'', IsClientStream = False, IsServerStream = False\<rparr>],
     MethodQOS = (case q of None \<Rightarrow> Map.empty | Some x \<Rightarrow> [''M'' \<mapsto> x]),
     sh_TopologyFlags = TopologyLocal\<rparr>"

lemma echo_sh_built:
  "NewDefaultServiceHandler invoker_TopologyFlags p bg_ctx
     (echo_descriptor (Some \<lparr>qos_ReplicationStrategy = ReplicationStrategy_Broadcast\<rparr>)) echo_invoker =
   Done (echo_sh (Some \<lparr>qos_ReplicationStrategy = ReplicationStrategy_Broadcast\<rparr>) p)"
  by (simp add: NewDefaultServiceHandler_def add_method_def echo_descriptor_def echo_sh_def
      echo_invoker_def newLocalServiceInvoker_def)

definition echo_list :: "invoker ServiceHandler list \<Rightarrow> invoker ServiceHandlerList" where
  "echo_list hs = \<lparr>shl_data = hs, shl_after = hs\<rparr>"

definition echo_ctl :: "invoker ServiceHandler list \<Rightarrow> invoker StreamController" where
  "echo_ctl hs = (new_controller (sample_stream (\<lambda>_ _. None)) (sample_w [] PumpReceiving) ''u'' ''n'' 0)
     \<lparr>ctl_services := [''svc'' \<mapsto> echo_list hs]\<rparr>"

definition echo_world :: "invoker ServiceHandler list \<Rightarrow> unit world" where
  "echo_world hs = \<lparr>w_ctls = [0 \<mapsto> echo_ctl hs], w_known = [], w_alloc = 100, w_meter = empty_meter, w_user = ()\<rparr>"

lemma echo_ctl_inv: "ctl_inv (echo_ctl hs)"
proof -
  have "kick_ok False (sample_w [] PumpReceiving)" by (simp add: kick_ok_def sample_w_def)
  then have "ctl_inv (new_controller (sample_stream (\<lambda>_ _. None)) (sample_w [] PumpReceiving) ''u'' ''n'' 0)"
    by (rule ctl_inv_new)
  then show ?thesis by (simp add: echo_ctl_def ctl_inv_def futures_ok_def pending_ok_def)
qed

lemma echo_world_ok [simp]: "world_ok (echo_world hs)"
  by (auto simp: echo_world_def world_ok_def echo_ctl_inv split: if_splits)

lemma echo_world_simps [simp]:
  "w_ctls (echo_world hs) 0 = Some (echo_ctl hs)"
  "ctl_services (echo_ctl hs) ''svc'' = Some (echo_list hs)" "shl_data (echo_list hs) = hs"
  "shl_after (echo_list hs) = hs"
  by (simp_all add: echo_world_def echo_ctl_def echo_list_def)

lemma echo_sh_simps [simp]:
  "MethodInvokers (echo_sh q p) ''M'' = Some echo_invoker"
  "info_of (echo_sh q p) ''M'' = \<lparr>mi_Name = ''M'', IsClientStream = False, IsServerStream = False\<rparr>"
  "MethodQOS (echo_sh (Some x) p) ''M'' = Some x" "MethodQOS (echo_sh None p) ''M'' = None"
  "MethodInvokers (echo_sh q p) ''N'' = None" "MethodQOS (echo_sh q p) ''N'' = None"
  "sh_ptr (echo_sh q p) = p" "Descriptor (echo_sh q p) = echo_descriptor q"
  "handler_wf (echo_sh q p)"
  by (auto simp: echo_sh_def info_of_def handler_wf_def echo_descriptor_def split: option.splits)

lemma echo_Invoke:
  assumes "MethodName msg = ''M''" and "Content msg = Some (RPC_Request b)"
  shows "Invoke echo_env echo_invoker c msg w = Done (Inr b, msg, w)"
  using assms
  by (simp add: Invoke_def echo_env_def echo_invoker_def local_Invoke_def newLocalServiceInvoker_def
      echo_service_def echo_handler_def local_decoder_def byte_codec_def getter_defs the_bytes_def
      track_defs)

lemma sample_request_simps [simp]:
  "Tag sample_request = 0" "ServiceName sample_request = ''svc''" "MethodName sample_request = ''M''"
  "Content sample_request = Some (RPC_Request [1])"
  by (simp_all add: sample_request_def)

lemma echo_handlers [simp]: "handlers_of (echo_ctl hs) ''svc'' = hs"
  by (simp add: handlers_of_def)

theorem request_answered_once_witness:
  "\<exists>w' m. handleRequest std_lib [] (Invoke echo_env) (InvokeStream echo_env) 0 bg_ctx sample_request
       (echo_world [echo_sh None 1, echo_sh None 2]) = Done (Handled w') \<and>
     replied 0 m (echo_world [echo_sh None 1, echo_sh None 2]) w' \<and> reply_to 0 m"
proof -
  let ?hs = "[echo_sh None 1, echo_sh None 2]"
  obtain w' where "do_ctl 0 (send_or_kick (result_reply std_lib bg_ctx 0 (Inr [1]))) (echo_world ?hs) = Done w'"
    using do_ctl_send_total [OF echo_world_ok, of 0] by fastforce
  then have h: "handleRequest std_lib [] (Invoke echo_env) (InvokeStream echo_env) 0 bg_ctx sample_request
       (echo_world ?hs) = Done (Handled w')"
    by (simp add: handleRequest_def Len_def First_def call_first_def unary_call_eq echo_Invoke)
  have hs: "?hs = handlers_of (echo_ctl ?hs) (ServiceName sample_request)" by simp
  have "called_invokers ?hs ''M'' = [echo_invoker]" "\<not> client_streaming ?hs ''M''" "\<not> server_streaming ?hs ''M''"
    by (simp_all add: called_invokers_def broadcasts_def is_unary_def client_streaming_def server_streaming_def)
  then show ?thesis
    using h request_answered_once [OF echo_env_ok echo_world_simps(1) h hs] by (auto simp: echo_Invoke)
qed

theorem unknown_requests_rejected_witness:
  "(\<exists>w'. handleRequest std_lib [] (Invoke echo_env) (InvokeStream echo_env) 0 bg_ctx
       (sample_request\<lparr>ServiceName := ''other''\<rparr>) (echo_world [echo_sh None 1]) = Done (Handled w') \<and>
     replied 0 (response_msg 0 [] (Some \<lparr>st_code = Unimplemented, st_message = ''unknown service: other''\<rparr>)
       (FromMD (Some (outgoing_md std_lib bg_ctx)))) (echo_world [echo_sh None 1]) w') \<and>
   (\<exists>w'. handleRequest std_lib [] (Invoke echo_env) (InvokeStream echo_env) 0 bg_ctx
       (sample_request\<lparr>MethodName := ''N''\<rparr>) (echo_world [echo_sh None 1]) = Done (Handled w') \<and>
     replied 0 (response_msg 0 [] (Some \<lparr>st_code = NotFound, st_message = ''method N not found''\<rparr>)
       (FromMD (Some (outgoing_md std_lib bg_ctx)))) (echo_world [echo_sh None 1]) w')"
proof -
  note r = unknown_requests_rejected [OF std_lib_laws(1) echo_world_ok echo_world_simps(1) [of "[echo_sh None 1]"],
      where er = "[]" and invk = "Invoke echo_env" and invk_stream = "InvokeStream echo_env" and c = bg_ctx]
  have f: "fmt_q std_lib x = x" for x by (simp add: std_lib_def)
  have "handlers_of (echo_ctl [echo_sh None 1]) ''other'' = []" by (simp add: handlers_of_def echo_ctl_def)
  moreover have "\<not> broadcasts [echo_sh None 1] ''N''" by (simp add: broadcasts_def)
  ultimately show ?thesis
    using r [of "sample_request\<lparr>ServiceName := ''other''\<rparr>"] r [of "sample_request\<lparr>MethodName := ''N''\<rparr>"]
    by (simp add: f)
qed

theorem unary_request_result_witness:
  "\<exists>w'. handleRequest std_lib [] (Invoke echo_env) (InvokeStream echo_env) 0 bg_ctx sample_request
       (echo_world [echo_sh None 1, echo_sh None 2]) = Done (Handled w') \<and>
     replied 0 (ok_reply std_lib bg_ctx 0 [1]) (echo_world [echo_sh None 1, echo_sh None 2]) w'"
proof -
  let ?w = "echo_world [echo_sh None 1, echo_sh None 2]"
  have i: "Invoke echo_env echo_invoker bg_ctx sample_request ?w = Done (Inr [1], sample_request, ?w)"
    by (rule echo_Invoke) simp_all
  show ?thesis
    using unary_request_result [OF echo_env_ok echo_world_ok echo_world_simps(1) _ _ _ _ _ i,
        of "echo_sh None 1" "[echo_sh None 2]" std_lib "[]"]
    by (simp add: result_reply_def)
qed

theorem broadcast_reaches_all_witness:
  "\<exists>w'. handleRequest std_lib [] (Invoke echo_env) (InvokeStream echo_env) 0 bg_ctx sample_request
       (echo_world (map (echo_sh (Some \<lparr>qos_ReplicationStrategy = ReplicationStrategy_Broadcast\<rparr>)) [1, 2])) =
         Done (Handled w') \<and>
     replied 0 (ok_reply std_lib bg_ctx 0 [])
       (echo_world (map (echo_sh (Some \<lparr>qos_ReplicationStrategy = ReplicationStrategy_Broadcast\<rparr>)) [1, 2])) w'"
proof -
  let ?q = "Some \<lparr>qos_ReplicationStrategy = ReplicationStrategy_Broadcast\<rparr>"
  let ?hs = "map (echo_sh ?q) [1, 2]"
  have h: "ctl_services (echo_ctl ?hs) (ServiceName sample_request) = Some (echo_list ?hs)"
    "1 < Len (echo_list ?hs)" "First (echo_list ?hs) = Some (echo_sh ?q 1)"
    "MethodQOS (echo_sh ?q 1) (MethodName sample_request) =
       Some \<lparr>qos_ReplicationStrategy = ReplicationStrategy_Broadcast\<rparr>"
    "shl_inv (echo_list ?hs)" "list_all handler_wf (shl_data (echo_list ?hs))"
    "MethodInvokers (echo_sh ?q 1) (MethodName sample_request) \<noteq> None"
    by (simp_all add: shl_inv_def Len_def First_def)
  have q: "qos_ReplicationStrategy \<lparr>qos_ReplicationStrategy = ReplicationStrategy_Broadcast\<rparr> =
      ReplicationStrategy_Broadcast" by simp
  obtain ivs where ivs: "map (\<lambda>h. MethodInvokers h (MethodName sample_request)) (shl_data (echo_list ?hs)) =
        map Some ivs"
    and r: "\<forall>msg' w1. invoke_all (Invoke echo_env) bg_ctx ivs (sample_request, echo_world ?hs) = Done (msg', w1) \<longrightarrow>
       (\<exists>w'. handleRequest std_lib [] (Invoke echo_env) (InvokeStream echo_env) 0 bg_ctx sample_request
              (echo_world ?hs) = Done (Handled w') \<and>
            replied 0 (ok_reply std_lib bg_ctx (Tag sample_request) []) w1 w')"
    using broadcast_reaches_all [OF echo_env_ok echo_world_ok echo_world_simps(1) h(1-4) q h(5-7),
        of bg_ctx std_lib "[]"]
    by blast
  have "ivs = [echo_invoker, echo_invoker]" using ivs by (auto simp: Cons_eq_map_conv)
  then have "invoke_all (Invoke echo_env) bg_ctx ivs (sample_request, echo_world ?hs) =
      Done (sample_request, echo_world ?hs)"
    by (simp add: echo_Invoke)
  with r show ?thesis by simp
qed

end
