(* ===== verification/Server_Streams.thy ===== *)
theory Server_Streams
  imports Dispatch
begin

text \<open>
  A server-streaming call on the side of the server: the goroutine of the handler, started
  by \<open>localServiceInvoker.InvokeStream\<close>, and the loop of \<open>handleRequest\<close>, which run
  concurrently and are joined by a channel of capacity one. \<open>ss_step\<close> interleaves them.
  Four fields record what has happened and are not in the program: \<open>ss_asked\<close> the messages
  that the handler gave to \<open>SendMsg\<close> and \<open>SendHeader\<close>, \<open>ss_result\<close> what it returned, \<open>ss_written\<close> what came onto the channel, and \<open>ss_cancelled\<close>
  that the loop left because its context ended.
\<close>

fun task_wrapper :: "'m server_task \<Rightarrow> localServerStreamWrapper" where
  "task_wrapper (Handling s p) = s"
| "task_wrapper (SendingExit s r) = s"
| "task_wrapper (Exited s) = s"

fun map_wrapper ::
  "(localServerStreamWrapper \<Rightarrow> localServerStreamWrapper) \<Rightarrow> 'm server_task \<Rightarrow> 'm server_task" where
  "map_wrapper f (Handling s p) = Handling (f s) p"
| "map_wrapper f (SendingExit s r) = SendingExit (f s) r"
| "map_wrapper f (Exited s) = Exited (f s)"

definition task_chan :: "'m server_task \<Rightarrow> RPC chan" where
  "task_chan t = lw_writer (task_wrapper t)"

record ('m, 'i) stream_sys =
  ss_task :: "'m server_task"
  ss_loop :: stream_loop
  ss_ctl :: "'i StreamController"
  ss_asked :: "ServerStreamMessage option list"
  ss_result :: "go_error option option"
  ss_written :: "RPC list"
  ss_cancelled :: bool

text \<open>What a step of the handler adds to the channel.\<close>

definition new_messages :: "RPC chan \<Rightarrow> RPC chan \<Rightarrow> RPC list" where
  "new_messages ch ch' = drop (length (chan_buf ch)) (chan_buf ch')"

text \<open>
  What the handler asks to be sent with its next call: the encoding of the message of a
  \<open>SendMsg\<close>, if it has one, and the empty message of a \<open>SendHeader\<close> that comes before any
  message and has valid headers. It is read off the program of the handler, not off the
  channel or the result of the call.
\<close>

definition handler_sends ::
  "lib \<Rightarrow> 'm codec \<Rightarrow> 'm server_task \<Rightarrow> ServerStreamMessage option list" where
  "handler_sends G K t =
     (case t of
        Handling s (PSendMsg m k) \<Rightarrow>
          (case Marshal K m of
             (b, None) \<Rightarrow> [Some \<lparr>Headers = None, SSM_Response = the_bytes b\<rparr>]
           | (b, Some e) \<Rightarrow> [])
      | Handling s (PSendHeader md k) \<Rightarrow>
          (if \<not> lw_wroteHeaders s \<and> (md = [] \<or> validateMetadata G md = None) then [None] else [])
      | _ \<Rightarrow> [])"

definition handler_returns :: "'m server_task \<Rightarrow> go_error option option" where
  "handler_returns t = (case t of Handling s (PReturn err) \<Rightarrow> Some err | _ \<Rightarrow> None)"

inductive ss_step ::
  "lib \<Rightarrow> 'm codec \<Rightarrow> ctx \<Rightarrow> tag \<Rightarrow> ('m, 'i) stream_sys \<Rightarrow> ('m, 'i) stream_sys \<Rightarrow> bool"
  for G K c t where
  ss_handler: "server_step G K pick (ss_task s) = Done task' \<Longrightarrow>
     ss_step G K c t s (s\<lparr>ss_task := task',
       ss_asked := ss_asked s @ handler_sends G K (ss_task s),
       ss_result := (case handler_returns (ss_task s) of None \<Rightarrow> ss_result s | r \<Rightarrow> r),
       ss_written := ss_written s @ new_messages (task_chan (ss_task s)) (task_chan task')\<rparr>)"
| ss_recv: "\<not> sl_returned (ss_loop s) \<Longrightarrow> chan_recv (task_chan (ss_task s)) = Done (v, ch) \<Longrightarrow>
     loop_recv G c t v (ss_loop s) (ss_ctl s) = Done (sl, st) \<Longrightarrow>
     ss_step G K c t s (s\<lparr>ss_task := map_wrapper (\<lambda>w. w\<lparr>lw_writer := ch\<rparr>) (ss_task s),
       ss_loop := sl, ss_ctl := st\<rparr>)"
| ss_cancel: "\<not> sl_returned (ss_loop s) \<Longrightarrow> loop_cancel G c (ss_loop s) = Done sl \<Longrightarrow>
     ss_step G K c t s (s\<lparr>ss_loop := sl, ss_cancelled := True\<rparr>)"

definition ss_init ::
  "ctx \<Rightarrow> RPC \<Rightarrow> 'm stream_prog \<Rightarrow> 'i StreamController \<Rightarrow> ('m, 'i) stream_sys" where
  "ss_init c req p st =
     \<lparr>ss_task = Handling (newLocalServerStreamWrapper c req (make_chan 1)) p, ss_loop = loop_init,
      ss_ctl = st, ss_asked = [], ss_result = None, ss_written = [], ss_cancelled = False\<rparr>"

inductive ss_reachable ::
  "lib \<Rightarrow> 'm codec \<Rightarrow> ctx \<Rightarrow> tag \<Rightarrow> ('m, 'i) stream_sys \<Rightarrow> ('m, 'i) stream_sys \<Rightarrow> bool"
  for G K c t s0 where
  ssr_init: "ss_reachable G K c t s0 s0"
| ssr_step: "ss_reachable G K c t s0 s \<Longrightarrow> ss_step G K c t s s' \<Longrightarrow> ss_reachable G K c t s0 s'"

subsection \<open>What the loop sends\<close>

text \<open>The stream messages that a handler writes: their field \<open>Headers\<close> is never set.\<close>

definition is_stream_msg :: "RPC \<Rightarrow> bool" where
  "is_stream_msg m \<longleftrightarrow> (\<exists>x. Content m = Some (RPC_ServerStreamMsg x) \<and> SSM_GetHeaders x = None)"

definition is_exit_msg :: "RPC \<Rightarrow> bool" where
  "is_exit_msg m \<longleftrightarrow> (\<exists>x. Content m = Some (RPC_Response x))"

definition stream_reply_msg :: "tag \<Rightarrow> RPC \<Rightarrow> RPC" where
  "stream_reply_msg t m =
     \<lparr>Tag = t, ServiceName = [], MethodName = [],
      Content = Some (RPC_ServerStreamMsg (GetServerStreamMsg (Some m))), Metadata = None\<rparr>"

definition exit_reply_msg :: "lib \<Rightarrow> ctx \<Rightarrow> tag \<Rightarrow> RPC \<Rightarrow> RPC" where
  "exit_reply_msg G c t m =
     (let stat = GetStatus G (GetResponse (Some m));
          c1 = NewOutgoingContext G c (ToMD (GetMetadata (Some m)))
      in if st_code stat \<noteq> OK then error_reply G c1 t (status_Err G stat)
         else ok_reply G c1 t (Response_GetResponse (GetResponse (Some m))))"

lemma exit_reply_eq:
  "status_laws G \<Longrightarrow> exit_reply G c t m st = send_or_kick (exit_reply_msg G c t m) st"
  by (simp add: exit_reply_def exit_reply_msg_def Let_def status_Err_laws ReplyErr_eq Reply_eq)

lemma StreamReply_eq: "StreamReply t (GetServerStreamMsg (Some m)) = send_or_kick (stream_reply_msg t m)"
  by (simp add: StreamReply_def stream_reply_msg_def fun_eq_iff)

lemma send_attempts:
  assumes "ctl_inv st" and "send_or_kick m st = Done st'"
  shows "s_attempts (ctl_stream st') = s_attempts (ctl_stream st) @ [m]" and "ctl_inv st'"
proof -
  have "kick_ok (ctl_kickOnce st) (ctl_receiver st)" using assms(1) by (simp add: ctl_inv_def)
  then obtain s once w where
    "send_or_kick m st = Done (st\<lparr>ctl_stream := s, ctl_kickOnce := once, ctl_receiver := w\<rparr>)"
    "s_attempts s = s_attempts (ctl_stream st) @ [m]"
    using send_or_kick_Done [of st m] by metis
  with assms(2) show "s_attempts (ctl_stream st') = s_attempts (ctl_stream st) @ [m]" by auto
  show "ctl_inv st'" by (rule send_or_kick_keeps [OF assms])
qed

subsection \<open>The invariant\<close>

text \<open>The messages the handler goroutine has sent, by its phase.\<close>

fun phase_ok :: "'m server_task \<Rightarrow> RPC list \<Rightarrow> bool" where
  "phase_ok (Handling s p) ms \<longleftrightarrow>
     \<not> lw_closedWriter s \<and> \<not> chan_closed (lw_writer s) \<and> list_all is_stream_msg ms"
| "phase_ok (SendingExit s r) ms \<longleftrightarrow>
     \<not> chan_closed (lw_writer s) \<and> list_all is_stream_msg ms \<and> is_exit_msg r"
| "phase_ok (Exited s) ms \<longleftrightarrow>
     chan_closed (lw_writer s) \<and> ms \<noteq> [] \<and> list_all is_stream_msg (butlast ms) \<and> is_exit_msg (last ms)"

text \<open>What the loop knows after it has received \<open>rs\<close>.\<close>

definition loop_exit :: "RPC list \<Rightarrow> RPC option" where
  "loop_exit rs = (if rs \<noteq> [] \<and> is_exit_msg (last rs) then Some (last rs) else None)"

definition sent_replies :: "lib \<Rightarrow> ctx \<Rightarrow> tag \<Rightarrow> RPC list \<Rightarrow> bool \<Rightarrow> RPC list" where
  "sent_replies G c t rs complete =
     map (stream_reply_msg t) (filter is_stream_msg rs) @
     (if complete then [exit_reply_msg G c t (last rs)] else [])"

definition ss_inv ::
  "lib \<Rightarrow> ctx \<Rightarrow> tag \<Rightarrow> 'i StreamController \<Rightarrow> ('m, 'i) stream_sys \<Rightarrow> bool" where
  "ss_inv G c t st0 s \<longleftrightarrow>
     phase_ok (ss_task s) (ss_written s) \<and> ctl_inv (ss_ctl s) \<and>
     (\<exists>rs. ss_written s = rs @ chan_buf (task_chan (ss_task s)) \<and>
        sl_exit (ss_loop s) = loop_exit rs \<and>
        s_attempts (ctl_stream (ss_ctl s)) =
          s_attempts (ctl_stream st0) @
          sent_replies G c t rs (sl_returned (ss_loop s) \<and> \<not> ss_cancelled s)) \<and>
     (ss_cancelled s \<longrightarrow> sl_returned (ss_loop s) \<and> ctx_err c \<noteq> None) \<and>
     (sl_returned (ss_loop s) \<and> \<not> ss_cancelled s \<longrightarrow>
        (\<exists>w. ss_task s = Exited w) \<and> chan_buf (task_chan (ss_task s)) = [])"

text \<open>A send of the handler appends one stream message to the channel, if it goes through.\<close>

lemma select_send_cases:
  assumes "\<not> lw_closedWriter s" and "select_send pick m s = Done (b, s')"
  shows "b" and "s' = s\<lparr>lw_writer := (lw_writer s)\<lparr>chan_buf := chan_buf (lw_writer s) @ [m]\<rparr>\<rparr>"
  using assms by (auto simp: select_send_def Let_def chan_send_def split: if_splits)

lemma writer_after_send:
  assumes "\<not> lw_closedWriter s" and "lw_SendMsg K pick m s = Done (r, s')"
  shows "\<not> lw_closedWriter s' \<and> chan_closed (lw_writer s') = chan_closed (lw_writer s) \<and>
         (\<exists>ms. chan_buf (lw_writer s') = chan_buf (lw_writer s) @ ms \<and> list_all is_stream_msg ms)"
proof -
  obtain b e where b: "Marshal K m = (b, e)" by (cases "Marshal K m")
  show ?thesis
  proof (cases e)
    case (Some x)
    with b assms show ?thesis by (auto simp: lw_SendMsg_def)
  next
    case None
    let ?s1 = "if \<not> lw_wroteHeaders s then s\<lparr>lw_wroteHeaders := True, lw_headers := None\<rparr> else s"
    let ?m = "stream_msg (the_bytes b) (if \<not> lw_wroteHeaders s then FromMD (lw_headers s) else None)"
    obtain x where x: "select_send pick ?m ?s1 = Done (x, s')"
      using b None assms(2) by (auto simp: lw_SendMsg_def Let_def)
    have "\<not> lw_closedWriter ?s1" "lw_writer ?s1 = lw_writer s" using assms(1) by auto
    with select_send_cases(2) [OF _ x] show ?thesis
      by (auto simp: is_stream_msg_def stream_msg_def SSM_GetHeaders_def)
  qed
qed

lemma writer_after_header:
  assumes "\<not> lw_closedWriter s" and "lw_SendHeader G pick md s = Done (r, s')"
  shows "\<not> lw_closedWriter s' \<and> chan_closed (lw_writer s') = chan_closed (lw_writer s) \<and>
         (\<exists>ms. chan_buf (lw_writer s') = chan_buf (lw_writer s) @ ms \<and> list_all is_stream_msg ms)"
proof -
  obtain e s1 where h: "lw_SetHeader G md s = (e, s1)" by (cases "lw_SetHeader G md s")
  have s1: "lw_writer s1 = lw_writer s" "lw_closedWriter s1 = lw_closedWriter s"
    using h by (auto simp: lw_SetHeader_def split: if_splits option.splits)
  show ?thesis
  proof (cases "e = None \<and> \<not> lw_wroteHeaders s1")
    case False
    with h s1 assms show ?thesis by (auto simp: lw_SendHeader_def split: option.splits)
  next
    case True
    let ?m = "\<lparr>Tag = 0, ServiceName = [], MethodName = [],
      Content = Some (RPC_ServerStreamMsg None), Metadata = FromMD (lw_headers s1)\<rparr>"
    obtain x s2 where x: "select_send pick ?m (s1\<lparr>lw_wroteHeaders := True\<rparr>) = Done (x, s2)"
      and s': "s' = s2 \<or> s' = s2\<lparr>lw_headers := None\<rparr>"
      using True h assms(2) by (auto simp: lw_SendHeader_def split: if_splits)
    have "\<not> lw_closedWriter (s1\<lparr>lw_wroteHeaders := True\<rparr>)" using assms(1) s1 by simp
    with select_send_cases(2) [OF _ x] s1 s' show ?thesis
      by (auto simp: is_stream_msg_def SSM_GetHeaders_def)
  qed
qed

lemma phase_ok_step:
  assumes "phase_ok task ms" and "server_step G K pick task = Done task'"
  shows "phase_ok task' (ms @ new_messages (task_chan task) (task_chan task')) \<and>
         chan_buf (task_chan task') = chan_buf (task_chan task) @ new_messages (task_chan task) (task_chan task')"
proof (cases task)
  case (Handling s p)
  show ?thesis
  proof (cases p)
    case (PSendMsg m k)
    with Handling assms(2) obtain r s' where r: "lw_SendMsg K pick m s = Done (r, s')"
      and t: "task' = Handling s' (k r)" by (auto simp: server_step_def)
    with writer_after_send [OF _ r] assms(1) Handling show ?thesis
      by (auto simp: new_messages_def task_chan_def)
  next
    case (PSendHeader md k)
    with Handling assms(2) obtain r s' where r: "lw_SendHeader G pick md s = Done (r, s')"
      and t: "task' = Handling s' (k r)" by (auto simp: server_step_def)
    with writer_after_header [OF _ r] assms(1) Handling show ?thesis
      by (auto simp: new_messages_def task_chan_def)
  qed (use assms Handling in \<open>auto simp: server_step_def new_messages_def task_chan_def lw_Close_def
        lw_SetHeader_def lw_SetTrailer_def is_exit_msg_def exit_response_def
        split: if_splits option.splits prod.splits\<close>)
next
  case (SendingExit s r)
  with assms show ?thesis
    by (auto simp: server_step_def new_messages_def task_chan_def chan_send_def chan_close_def
        split: if_splits)
next
  case (Exited s)
  with assms show ?thesis by (simp add: server_step_def)
qed

lemma stream_not_exit: "is_stream_msg m \<Longrightarrow> \<not> is_exit_msg m"
  by (auto simp: is_stream_msg_def is_exit_msg_def)

lemma loop_recv_exit:
  assumes "is_exit_msg m"
  shows "loop_recv G c t (Some m) sl st = Done (sl\<lparr>sl_exit := Some m\<rparr>, st)"
  using assms by (auto simp: loop_recv_def is_exit_msg_def)

lemma phase_ok_prefix:
  assumes "phase_ok task (rs @ m # xs)"
  shows "list_all is_stream_msg rs" and "is_stream_msg m \<or> is_exit_msg m"
proof -
  have "list_all is_stream_msg (rs @ m # xs) \<or>
        (list_all is_stream_msg (butlast (rs @ m # xs)) \<and> is_exit_msg (last (rs @ m # xs)))"
    using assms by (cases task) auto
  then show "list_all is_stream_msg rs" "is_stream_msg m \<or> is_exit_msg m"
    by (auto simp: butlast_append split: if_splits)
qed

lemma phase_ok_set_chan:
  "phase_ok (map_wrapper (\<lambda>w. w\<lparr>lw_writer := ch\<rparr>) task) ms =
   phase_ok task ms" if "chan_closed ch = chan_closed (task_chan task)"
  using that by (cases task) (auto simp: task_chan_def)

lemma task_chan_set [simp]: "task_chan (map_wrapper (\<lambda>w. w\<lparr>lw_writer := ch\<rparr>) task) = ch"
  by (cases task) (auto simp: task_chan_def)

lemma loop_exit_stream [simp]: "list_all is_stream_msg rs \<Longrightarrow> loop_exit rs = None"
  by (auto simp: loop_exit_def list_all_iff stream_not_exit)

lemma closed_is_exited:
  "phase_ok task ms \<Longrightarrow> chan_closed (task_chan task) \<Longrightarrow> \<exists>w. task = Exited w"
  by (cases task) (auto simp: task_chan_def)

lemma filter_stream_butlast:
  "list_all is_stream_msg (butlast ms) \<Longrightarrow> is_exit_msg (last ms) \<Longrightarrow> ms \<noteq> [] \<Longrightarrow>
   filter is_stream_msg ms = butlast ms"
  by (cases ms rule: rev_cases) (auto simp: stream_not_exit list_all_iff)

lemma ss_inv_message:
  assumes inv: "ss_inv G c t st0 s" and "\<not> sl_returned (ss_loop s)"
    and buf: "chan_recv (task_chan (ss_task s)) = Done (Some m, ch)"
    and l: "loop_recv G c t (Some m) (ss_loop s) (ss_ctl s) = Done (sl, st)"
  shows "ss_inv G c t st0 (s\<lparr>ss_task := map_wrapper (\<lambda>w. w\<lparr>lw_writer := ch\<rparr>) (ss_task s),
           ss_loop := sl, ss_ctl := st\<rparr>)"
proof -
  obtain rs where rs: "ss_written s = rs @ chan_buf (task_chan (ss_task s))"
    "sl_exit (ss_loop s) = loop_exit rs"
    "s_attempts (ctl_stream (ss_ctl s)) = s_attempts (ctl_stream st0) @ sent_replies G c t rs False"
    using inv assms(2) by (auto simp: ss_inv_def)
  have ch: "chan_buf (task_chan (ss_task s)) = m # chan_buf ch"
    "chan_closed ch = chan_closed (task_chan (ss_task s))"
    using buf by (auto simp: chan_recv_def split: list.splits if_splits)
  have ph: "phase_ok (ss_task s) (rs @ m # chan_buf ch)" using inv rs(1) ch(1) by (simp add: ss_inv_def)
  note str = phase_ok_prefix [OF ph]
  have common: "phase_ok (map_wrapper (\<lambda>w. w\<lparr>lw_writer := ch\<rparr>) (ss_task s)) (ss_written s)"
    "ss_written s = (rs @ [m]) @ chan_buf ch" "\<not> ss_cancelled s"
    using inv ph ch rs(1) assms(2) by (auto simp: ss_inv_def phase_ok_set_chan)
  show ?thesis
  proof (cases "is_stream_msg m")
    case True
    then have "sl = ss_loop s" and snd: "send_or_kick (stream_reply_msg t m) (ss_ctl s) = Done st"
      using l by (auto simp: loop_recv_def is_stream_msg_def StreamReply_eq)
    with send_attempts [OF _ snd] inv common rs str True assms(2) show ?thesis
      unfolding ss_inv_def by (auto simp: sent_replies_def intro!: exI [where x = "rs @ [m]"])
  next
    case False
    with str(2) have e: "is_exit_msg m" by blast
    then have "sl = (ss_loop s)\<lparr>sl_exit := Some m\<rparr>" "st = ss_ctl s"
      using l by (simp_all add: loop_recv_exit)
    with inv common rs str False e assms(2) show ?thesis
      unfolding ss_inv_def
      by (auto simp: sent_replies_def loop_exit_def intro!: exI [where x = "rs @ [m]"])
  qed
qed

lemma ss_inv_closed:
  assumes inv: "ss_inv G c t st0 s" and ret: "\<not> sl_returned (ss_loop s)" and laws: "status_laws G"
    and buf: "chan_recv (task_chan (ss_task s)) = Done (None, ch)"
    and l: "loop_recv G c t None (ss_loop s) (ss_ctl s) = Done (sl, st)"
  shows "ss_inv G c t st0 (s\<lparr>ss_task := map_wrapper (\<lambda>w. w\<lparr>lw_writer := ch\<rparr>) (ss_task s),
           ss_loop := sl, ss_ctl := st\<rparr>)"
proof -
  have ch: "chan_buf (task_chan (ss_task s)) = []" "chan_closed (task_chan (ss_task s))"
    "ch = task_chan (ss_task s)"
    using buf by (auto simp: chan_recv_def split: list.splits if_splits)
  have ph: "phase_ok (ss_task s) (ss_written s)" using inv by (simp add: ss_inv_def)
  then obtain w where w: "ss_task s = Exited w" using closed_is_exited ch(2) by blast
  have wr: "ss_written s \<noteq> []" "is_exit_msg (last (ss_written s))" using ph w by auto
  have a: "sl_exit (ss_loop s) = Some (last (ss_written s))"
    "s_attempts (ctl_stream (ss_ctl s)) =
       s_attempts (ctl_stream st0) @ sent_replies G c t (ss_written s) False" "\<not> ss_cancelled s"
    using inv ret ch(1) wr by (auto simp: ss_inv_def loop_exit_def)
  then have sl: "sl = (ss_loop s)\<lparr>sl_returned := True\<rparr>"
    and snd: "send_or_kick (exit_reply_msg G c t (last (ss_written s))) (ss_ctl s) = Done st"
    using l laws by (auto simp: loop_recv_def exit_reply_eq)
  have "ctl_inv (ss_ctl s)" using inv by (simp add: ss_inv_def)
  note st = send_attempts [OF this snd]
  have tk: "map_wrapper (\<lambda>w. w\<lparr>lw_writer := ch\<rparr>) (ss_task s) = ss_task s"
    using w ch(3) by (simp add: task_chan_def)
  show ?thesis
    unfolding ss_inv_def tk
    using ph st sl a w wr ch by (auto simp: sent_replies_def loop_exit_def intro!: exI [where x = "ss_written s"])
qed

lemma ss_inv_step:
  assumes "ss_inv G c t st0 s" and "ss_step G K c t s s'" and "status_laws G"
  shows "ss_inv G c t st0 s'"
  using assms(2)
proof cases
  case (ss_handler pick task')
  have nr: "\<not> (sl_returned (ss_loop s) \<and> \<not> ss_cancelled s)"
    using ss_handler(2) assms(1) by (auto simp: ss_inv_def server_step_def)
  have p: "phase_ok (ss_task s) (ss_written s)" using assms(1) by (simp add: ss_inv_def)
  from phase_ok_step [OF p ss_handler(2)] assms(1) nr show ?thesis
    unfolding ss_handler(1) ss_inv_def by auto
next
  case (ss_recv v ch sl st)
  then show ?thesis
    using ss_inv_message [OF assms(1)] ss_inv_closed [OF assms(1) _ assms(3)] by (cases v) auto
next
  case (ss_cancel sl)
  then have "ctx_err c \<noteq> None" "sl = (ss_loop s)\<lparr>sl_returned := True\<rparr>"
    by (auto simp: loop_cancel_def split: option.splits)
  with ss_cancel assms(1) show ?thesis by (auto simp: ss_inv_def)
qed

lemma ss_inv_init:
  assumes "ctl_inv st"
  shows "ss_inv G c t st (ss_init c req p st)"
  using assms
  by (simp add: ss_inv_def ss_init_def newLocalServerStreamWrapper_def loop_init_def task_chan_def
      sent_replies_def)

lemma ss_reachable_inv:
  assumes "ss_reachable G K c t (ss_init c req p st) s" and "ctl_inv st" and "status_laws G"
  shows "ss_inv G c t st s"
  using assms(1)
  by induction (auto intro: ss_inv_init [OF assms(2)] ss_inv_step [OF _ _ assms(3)])

text \<open>What has been sent when the loop has returned.\<close>

lemma complete_stream_sent:
  assumes "ss_reachable G K c t (ss_init c req p st) s" and "ctl_inv st" and "status_laws G"
    and "sl_returned (ss_loop s)" and "ctx_err c = None"
  shows "\<exists>ms e. ss_written s = ms @ [e] \<and> list_all is_stream_msg ms \<and> is_exit_msg e \<and>
           s_attempts (ctl_stream (ss_ctl s)) =
             s_attempts (ctl_stream st) @ map (stream_reply_msg t) ms @ [exit_reply_msg G c t e] \<and>
           reply_to t (exit_reply_msg G c t e)"
proof -
  have inv: "ss_inv G c t st s" by (rule ss_reachable_inv [OF assms(1-3)])
  then have nc: "\<not> ss_cancelled s" using assms(5) by (auto simp: ss_inv_def)
  then obtain w where w: "ss_task s = Exited w" "chan_buf (task_chan (ss_task s)) = []"
    using inv assms(4) by (auto simp: ss_inv_def)
  then have ph: "ss_written s \<noteq> []" "list_all is_stream_msg (butlast (ss_written s))"
    "is_exit_msg (last (ss_written s))" using inv by (auto simp: ss_inv_def)
  have "s_attempts (ctl_stream (ss_ctl s)) =
      s_attempts (ctl_stream st) @ sent_replies G c t (ss_written s) True"
    using inv w nc assms(4) by (auto simp: ss_inv_def)
  then show ?thesis
    using ph filter_stream_butlast [OF ph(2,3,1)]
    by (intro exI [where x = "butlast (ss_written s)"] exI [where x = "last (ss_written s)"])
      (auto simp: sent_replies_def exit_reply_msg_def Let_def)
qed

subsection \<open>What the handler sent and what went onto the channel\<close>

abbreviation body_of :: "RPC \<Rightarrow> ServerStreamMessage option" where
  "body_of m \<equiv> GetServerStreamMsg (Some m)"

lemma exit_response_kind [simp]: "is_exit_msg (exit_response G err tr)" "\<not> is_stream_msg (exit_response G err tr)"
  by (auto simp: is_exit_msg_def is_stream_msg_def exit_response_def)

text \<open>A method that reports success has put exactly its message on the channel, any other nothing.\<close>

lemma SendMsg_exact:
  assumes "\<not> lw_closedWriter s" and "lw_SendMsg K pick m s = Done (r, s')"
  obtains ms where "chan_buf (lw_writer s') = chan_buf (lw_writer s) @ ms" and "list_all is_stream_msg ms"
    and "map body_of ms = handler_sends G K (Handling s (PSendMsg m k))"
proof -
  obtain b e where b: "Marshal K m = (b, e)" by (cases "Marshal K m")
  show thesis
  proof (cases e)
    case (Some x)
    with b assms show thesis by (intro that [of "[]"]) (auto simp: lw_SendMsg_def handler_sends_def)
  next
    case None
    let ?s1 = "if \<not> lw_wroteHeaders s then s\<lparr>lw_wroteHeaders := True, lw_headers := None\<rparr> else s"
    let ?m = "stream_msg (the_bytes b) (if \<not> lw_wroteHeaders s then FromMD (lw_headers s) else None)"
    obtain x where x: "select_send pick ?m ?s1 = Done (x, s')"
      using b None assms(2) by (auto simp: lw_SendMsg_def Let_def)
    have "\<not> lw_closedWriter ?s1" "lw_writer ?s1 = lw_writer s" using assms(1) by auto
    with select_send_cases(2) [OF _ x] b None show thesis
      by (intro that [of "[?m]"]) (auto simp: is_stream_msg_def stream_msg_def getter_defs handler_sends_def)
  qed
qed

lemma SendHeader_exact:
  assumes "\<not> lw_closedWriter s" and "lw_SendHeader G pick md s = Done (r, s')"
  obtains ms where "chan_buf (lw_writer s') = chan_buf (lw_writer s) @ ms" and "list_all is_stream_msg ms"
    and "map body_of ms = handler_sends G K (Handling s (PSendHeader md k))"
proof -
  obtain e s1 where h: "lw_SetHeader G md s = (e, s1)" by (cases "lw_SetHeader G md s")
  have s1: "lw_writer s1 = lw_writer s" "lw_closedWriter s1 = lw_closedWriter s"
    "lw_wroteHeaders s1 = lw_wroteHeaders s" "e = None \<longleftrightarrow> md = [] \<or> validateMetadata G md = None"
    using h by (auto simp: lw_SetHeader_def split: if_splits option.splits)
  show thesis
  proof (cases "e = None \<and> \<not> lw_wroteHeaders s1")
    case False
    with h s1 assms(2) show thesis
      by (intro that [of "[]"]) (auto simp: lw_SendHeader_def handler_sends_def split: option.splits)
  next
    case True
    let ?m = "\<lparr>Tag = 0, ServiceName = [], MethodName = [],
      Content = Some (RPC_ServerStreamMsg None), Metadata = FromMD (lw_headers s1)\<rparr>"
    obtain x s2 where x: "select_send pick ?m (s1\<lparr>lw_wroteHeaders := True\<rparr>) = Done (x, s2)"
      and s': "lw_writer s' = lw_writer s2"
      using True h assms(2) by (auto simp: lw_SendHeader_def split: if_splits)
    have "\<not> lw_closedWriter (s1\<lparr>lw_wroteHeaders := True\<rparr>)" using assms(1) s1 by simp
    with select_send_cases(2) [OF _ x] s1 s' True show thesis
      by (intro that [of "[?m]"]) (auto simp: is_stream_msg_def getter_defs handler_sends_def)
  qed
qed

lemma handler_sends_exact:
  assumes "phase_ok task ms" and "server_step G K pick task = Done task'"
  shows "handler_sends G K task =
    map body_of (filter is_stream_msg (new_messages (task_chan task) (task_chan task')))"
proof (cases task)
  case (Handling s p)
  show ?thesis
  proof (cases p)
    case (PSendMsg m k)
    with Handling assms(2) obtain r s' where r: "lw_SendMsg K pick m s = Done (r, s')"
      and t: "task' = Handling s' (k r)" by (auto simp: server_step_def)
    have "\<not> lw_closedWriter s" using assms(1) Handling by simp
    from SendMsg_exact [OF this r] obtain ns where "chan_buf (lw_writer s') = chan_buf (lw_writer s) @ ns"
      "list_all is_stream_msg ns" "map body_of ns = handler_sends G K (Handling s (PSendMsg m k))" .
    moreover from this(2) have "filter is_stream_msg ns = ns" by (simp add: list_all_iff)
    ultimately show ?thesis using Handling PSendMsg t
      by (simp add: new_messages_def task_chan_def)
  next
    case (PSendHeader md k)
    with Handling assms(2) obtain r s' where r: "lw_SendHeader G pick md s = Done (r, s')"
      and t: "task' = Handling s' (k r)" by (auto simp: server_step_def)
    have "\<not> lw_closedWriter s" using assms(1) Handling by simp
    from SendHeader_exact [OF this r] obtain ns where "chan_buf (lw_writer s') = chan_buf (lw_writer s) @ ns"
      "list_all is_stream_msg ns" "map body_of ns = handler_sends G K (Handling s (PSendHeader md k))" .
    moreover from this(2) have "filter is_stream_msg ns = ns" by (simp add: list_all_iff)
    ultimately show ?thesis using Handling PSendHeader t
      by (simp add: new_messages_def task_chan_def)
  qed (use assms(2) Handling in \<open>auto simp: handler_sends_def server_step_def new_messages_def task_chan_def lw_Close_def
        lw_SetHeader_def lw_SetTrailer_def split: if_splits option.splits prod.splits\<close>)
next
  case (SendingExit s r)
  with assms have "is_exit_msg r" by simp
  then have "\<not> is_stream_msg r" using stream_not_exit by blast
  with SendingExit assms(2) show ?thesis
    by (auto simp: handler_sends_def server_step_def new_messages_def task_chan_def chan_send_def chan_close_def
        split: if_splits)
next
  case (Exited s)
  with assms(2) show ?thesis by (simp add: server_step_def)
qed

text \<open>The response that the goroutine sends, or has sent, is that of what the handler returned.\<close>

definition result_ok :: "lib \<Rightarrow> 'm server_task \<Rightarrow> go_error option option \<Rightarrow> RPC list \<Rightarrow> bool" where
  "result_ok G task res ms \<longleftrightarrow>
     (case task of
        Handling s p \<Rightarrow> res = None
      | SendingExit s r \<Rightarrow> (\<exists>err tr. res = Some err \<and> r = exit_response G err tr)
      | Exited s \<Rightarrow> (\<exists>err tr. res = Some err \<and> last ms = exit_response G err tr))"

definition log_inv :: "lib \<Rightarrow> ('m, 'i) stream_sys \<Rightarrow> bool" where
  "log_inv G s \<longleftrightarrow>
     ss_asked s = map body_of (filter is_stream_msg (ss_written s)) \<and>
     result_ok G (ss_task s) (ss_result s) (ss_written s)"

lemma result_ok_step:
  assumes "result_ok G task res ms" and "server_step G K pick task = Done task'"
  shows "result_ok G task' (case handler_returns task of None \<Rightarrow> res | r \<Rightarrow> r)
    (ms @ new_messages (task_chan task) (task_chan task'))"
proof (cases task)
  case (Handling s p)
  then show ?thesis using assms
    by (cases p) (auto simp: result_ok_def handler_returns_def server_step_def lw_Close_def
        split: if_splits prod.splits)
next
  case (SendingExit s r)
  then show ?thesis using assms
    by (auto simp: result_ok_def handler_returns_def server_step_def new_messages_def task_chan_def chan_send_def
        chan_close_def split: if_splits)
next
  case (Exited s)
  with assms(2) show ?thesis by (simp add: server_step_def)
qed

lemma result_ok_map [simp]: "result_ok G (map_wrapper f task) res ms = result_ok G task res ms"
  by (cases task) (simp_all add: result_ok_def)

lemma log_inv_step:
  assumes "log_inv G s" and "phase_ok (ss_task s) (ss_written s)" and "ss_step G K c t s s'"
  shows "log_inv G s'"
  using assms(3)
proof cases
  case (ss_handler pick task')
  with handler_sends_exact [OF assms(2) ss_handler(2)] result_ok_step [OF _ ss_handler(2)] assms(1) show ?thesis
    by (simp add: log_inv_def)
qed (use assms(1) in \<open>simp_all add: log_inv_def\<close>)

lemma ss_reachable_log:
  assumes "ss_reachable G K c t (ss_init c req p st) s" and "ctl_inv st" and "status_laws G"
  shows "log_inv G s"
  using assms(1)
proof induction
  case ssr_init
  then show ?case by (simp add: log_inv_def ss_init_def result_ok_def)
next
  case (ssr_step s s')
  have "phase_ok (ss_task s) (ss_written s)"
    using ss_reachable_inv [OF ssr_step(1) assms(2,3)] by (simp add: ss_inv_def)
  from log_inv_step [OF ssr_step.IH this ssr_step.hyps(2)] show ?case .
qed

text \<open>A handler that has returned has sent its messages, then its response.\<close>

lemma complete_stream_asked:
  assumes "ss_reachable G K c t (ss_init c req p st) s" and "ctl_inv st" and "status_laws G"
    and "sl_returned (ss_loop s)" and "ctx_err c = None"
    and w: "ss_written s = ms @ [e]" "list_all is_stream_msg ms"
  shows "ss_asked s = map body_of ms" and "\<exists>err tr. ss_result s = Some err \<and> e = exit_response G err tr"
proof -
  have inv: "ss_inv G c t st s" by (rule ss_reachable_inv [OF assms(1-3)])
  then have "\<not> ss_cancelled s" using assms(5) by (auto simp: ss_inv_def)
  then obtain h where h: "ss_task s = Exited h" using inv assms(4) by (auto simp: ss_inv_def)
  have l: "log_inv G s" by (rule ss_reachable_log [OF assms(1-3)])
  then show r: "\<exists>err tr. ss_result s = Some err \<and> e = exit_response G err tr"
    using h w(1) by (simp add: log_inv_def result_ok_def)
  have "filter is_stream_msg ms = ms" using w(2) by (simp add: list_all_iff)
  with l r w(1) show "ss_asked s = map body_of ms" by (auto simp: log_inv_def)
qed

definition stream_reply :: "tag \<Rightarrow> ServerStreamMessage option \<Rightarrow> RPC" where
  "stream_reply t body =
     \<lparr>Tag = t, ServiceName = [], MethodName = [], Content = Some (RPC_ServerStreamMsg body), Metadata = None\<rparr>"

lemma stream_reply_body: "stream_reply_msg t m = stream_reply t (body_of m)"
  by (simp add: stream_reply_msg_def stream_reply_def)

text \<open>
  C9: a server-streaming call passes on everything its handler sends, in order and under
  the tag of the request. When the loop returns and the context has not ended, the handler
  has returned, and the controller has sent one stream message for every message that the
  handler gave to \<open>SendMsg\<close> and \<open>SendHeader\<close>, with its encoding, followed by exactly one
  response, that of what the handler returned; nothing else.
\<close>

theorem server_stream_complete:
  assumes "ss_reachable G K c t (ss_init c req p st) s" and "ctl_inv st" and "status_laws G"
    and "sl_returned (ss_loop s)" and "ctx_err c = None"
  shows "\<exists>err trailers. ss_result s = Some err \<and>
           s_attempts (ctl_stream (ss_ctl s)) =
             s_attempts (ctl_stream st) @ map (stream_reply t) (ss_asked s) @
             [exit_reply_msg G c t (exit_response G err trailers)] \<and>
           reply_to t (exit_reply_msg G c t (exit_response G err trailers))"
proof -
  obtain ms e where w: "ss_written s = ms @ [e]" "list_all is_stream_msg ms"
    and a: "s_attempts (ctl_stream (ss_ctl s)) =
        s_attempts (ctl_stream st) @ map (stream_reply_msg t) ms @ [exit_reply_msg G c t e]"
      "reply_to t (exit_reply_msg G c t e)"
    using complete_stream_sent [OF assms] by blast
  from complete_stream_asked [OF assms w] a show ?thesis by (auto simp: stream_reply_body o_def)
qed

text \<open>
  at every moment, the stream messages sent under the tag of the request are those the
  handler has written, up to the ones still in the channel: a prefix of them, in order. No
  response goes out before the handler has returned.
\<close>

lemma server_stream_prefix:
  assumes "ss_reachable G K c t (ss_init c req p st) s" and "ctl_inv st" and "status_laws G"
    and "\<not> sl_returned (ss_loop s)"
  shows "\<exists>rs. ss_written s = rs @ chan_buf (task_chan (ss_task s)) \<and>
           s_attempts (ctl_stream (ss_ctl s)) =
             s_attempts (ctl_stream st) @ map (stream_reply_msg t) (filter is_stream_msg rs)"
  using ss_reachable_inv [OF assms(1-3)] assms(4) by (auto simp: ss_inv_def sent_replies_def)

text \<open>
  C35: the headers that a handler sets never reach the client: they are put into the
  metadata of the message on the channel, but what the loop sends for it has no metadata,
  and the field \<open>Headers\<close>, which the client reads, is empty in every stream message.
\<close>

theorem stream_headers_lost:
  assumes "ss_reachable G K c t (ss_init c req p st) s" and "ctl_inv st" and "status_laws G"
  shows "\<exists>ms rest. s_attempts (ctl_stream (ss_ctl s)) = s_attempts (ctl_stream st) @ ms @ rest \<and>
           length rest \<le> 1 \<and> (\<forall>m \<in> set rest. reply_to t m) \<and>
           (\<forall>m \<in> set ms. Metadata m = None \<and> SSM_GetHeaders (GetServerStreamMsg (Some m)) = None)"
proof -
  obtain rs where "s_attempts (ctl_stream (ss_ctl s)) = s_attempts (ctl_stream st) @
      sent_replies G c t rs (sl_returned (ss_loop s) \<and> \<not> ss_cancelled s)"
    using ss_reachable_inv [OF assms] by (auto simp: ss_inv_def)
  then show ?thesis
    by (intro exI [where x = "map (stream_reply_msg t) (filter is_stream_msg rs)"]
        exI [where x = "if sl_returned (ss_loop s) \<and> \<not> ss_cancelled s then [exit_reply_msg G c t (last rs)] else []"])
      (auto simp: sent_replies_def stream_reply_msg_def is_stream_msg_def getter_defs
        exit_reply_msg_def Let_def)
qed

text \<open>
  C36: when the context of the request ends, the loop leaves and nobody reads the channel
  any more, but the sends of the handler do not watch the context: a handler that sends
  while the channel is full is stuck for ever, for no step of the call is possible.
\<close>

theorem abandoned_handler_stuck:
  assumes "ss_reachable G K c t (ss_init c req p st) s" and "ctl_inv st" and "status_laws G"
    and "sl_returned (ss_loop s)" and "ss_task s = Handling w (PSendMsg m k)"
    and "snd (Marshal K m) = None" and "chan_cap (lw_writer w) \<le> length (chan_buf (lw_writer w))"
  shows "\<not> ss_step G K c t s s'"
proof
  assume "ss_step G K c t s s'"
  then show False
  proof cases
    case (ss_handler pick task')
    have "phase_ok (ss_task s) (ss_written s)"
      using ss_reachable_inv [OF assms(1-3)] by (simp add: ss_inv_def)
    then have w: "\<not> lw_closedWriter w" "\<not> chan_closed (lw_writer w)" using assms(5) by auto
    have "select_send pick r (w\<lparr>lw_wroteHeaders := a, lw_headers := b\<rparr>) = Blocks"
      "select_send pick r w = Blocks" for r a b
      using w assms(7) by (simp_all add: select_send_def chan_send_def)
    then have "lw_SendMsg K pick m w = Blocks"
      using assms(6) by (cases "Marshal K m") (simp add: lw_SendMsg_def Let_def)
    with ss_handler(2) assms(5) show False by (simp add: server_step_def)
  qed (use assms(4) in simp_all)
qed

subsection \<open>A concrete call\<close>

text \<open>A handler that sends one message and returns; its call runs to the end.\<close>

definition one_msg_prog :: "bytes stream_prog" where
  "one_msg_prog = PSendMsg (AnyV2 [5]) (\<lambda>_. PReturn None)"

definition after_send :: "RPC \<Rightarrow> invoker StreamController \<Rightarrow> invoker StreamController" where
  "after_send m st = st\<lparr>ctl_stream := (ctl_stream st)
     \<lparr>s_attempts := s_attempts (ctl_stream st) @ [m], s_wire := s_wire (ctl_stream st) @ [m]\<rparr>\<rparr>"

lemma send_accepted:
  "s_send (ctl_stream st) = (\<lambda>_ _. None) \<Longrightarrow> send_or_kick m st = Done (after_send m st)"
  by (simp add: send_or_kick_def stream_Send_def after_send_def)

lemma after_send_stream [simp]: "s_send (ctl_stream (after_send m st)) = s_send (ctl_stream st)"
  by (simp add: after_send_def)

lemma echo_ctl_send [simp]: "s_send (ctl_stream (echo_ctl hs)) = (\<lambda>_ _. None)"
  by (simp add: echo_ctl_def new_controller_def sample_stream_def)

lemma one_msg_run:
  "\<exists>s. ss_reachable std_lib byte_codec bg_ctx t
     (ss_init bg_ctx sample_request one_msg_prog (echo_ctl [])) s \<and> sl_returned (ss_loop s) \<and>
     ss_written s = [stream_msg [5] None, exit_response std_lib None None] \<and>
     ss_asked s = [Some \<lparr>Headers = None, SSM_Response = [5]\<rparr>] \<and> ss_result s = Some None"
proof -
  let ?G = std_lib and ?K = byte_codec
  let ?m = "stream_msg [5] None" and ?e = "exit_response std_lib None None"
  let ?w = "\<lambda>b cl cw. \<lparr>lw_ctx = bg_ctx, lw_req = sample_request, lw_headers = None, lw_trailers = None,
     lw_wroteHeaders = True, lw_writer = \<lparr>chan_buf = b, chan_cap = 1, chan_closed = cl\<rparr>,
     lw_closedWriter = cw\<rparr>"
  let ?mk = "\<lambda>task sl st wr. \<lparr>ss_task = task, ss_loop = sl, ss_ctl = st,
     ss_asked = [Some \<lparr>Headers = None, SSM_Response = [5]\<rparr>],
     ss_result = (case task of Handling _ _ \<Rightarrow> None | _ \<Rightarrow> Some None), ss_written = wr, ss_cancelled = False\<rparr>"
  let ?st1 = "after_send (stream_reply_msg t ?m) (echo_ctl [])"
  let ?st2 = "after_send (exit_reply_msg ?G bg_ctx t ?e) ?st1"
  let ?l1 = "loop_init\<lparr>sl_exit := Some ?e\<rparr>"
  let ?init = "ss_init bg_ctx sample_request one_msg_prog (echo_ctl [])"
  let ?R = "ss_reachable ?G ?K bg_ctx t ?init"
  have c: "Content ?m = Some (RPC_ServerStreamMsg (Some \<lparr>Headers = None, SSM_Response = [5]\<rparr>))"
    "\<exists>x. Content ?e = Some (RPC_Response x)"
    by (simp_all add: stream_msg_def exit_response_def)
  have "ss_step ?G ?K bg_ctx t ?init (?mk (Handling (?w [?m] False False) (PReturn None)) loop_init (echo_ctl []) [?m])"
    using ss_handler [where G = ?G and K = ?K and c = bg_ctx and t = t and pick = True and s = ?init]
    by (simp add: ss_init_def one_msg_prog_def server_step_def lw_SendMsg_def byte_codec_def Let_def
        select_send_def newLocalServerStreamWrapper_def chan_send_def make_chan_def the_bytes_def
        FromMD_def new_messages_def task_chan_def handler_sends_def handler_returns_def)
  then have 1: "?R (?mk (Handling (?w [?m] False False) (PReturn None)) loop_init (echo_ctl []) [?m])"
    by (rule ssr_step [OF ssr_init])
  have "ss_step ?G ?K bg_ctx t (?mk (Handling (?w [?m] False False) (PReturn None)) loop_init (echo_ctl []) [?m])
      (?mk (Handling (?w [] False False) (PReturn None)) loop_init ?st1 [?m])"
    using ss_recv [where G = ?G and K = ?K and c = bg_ctx and t = t and v = "Some ?m" and
        s = "?mk (Handling (?w [?m] False False) (PReturn None)) loop_init (echo_ctl []) [?m]"]
    by (simp add: task_chan_def chan_recv_def loop_recv_def c(1) StreamReply_eq send_accepted loop_init_def)
  with 1 have 2: "?R (?mk (Handling (?w [] False False) (PReturn None)) loop_init ?st1 [?m])"
    by (rule ssr_step)
  have "ss_step ?G ?K bg_ctx t (?mk (Handling (?w [] False False) (PReturn None)) loop_init ?st1 [?m])
      (?mk (SendingExit (?w [] False True) ?e) loop_init ?st1 [?m])"
    using ss_handler [where G = ?G and K = ?K and c = bg_ctx and t = t and pick = True and
        s = "?mk (Handling (?w [] False False) (PReturn None)) loop_init ?st1 [?m]"]
    by (simp add: server_step_def lw_Close_def new_messages_def task_chan_def handler_sends_def handler_returns_def)
  with 2 have 3: "?R (?mk (SendingExit (?w [] False True) ?e) loop_init ?st1 [?m])" by (rule ssr_step)
  have "ss_step ?G ?K bg_ctx t (?mk (SendingExit (?w [] False True) ?e) loop_init ?st1 [?m])
      (?mk (Exited (?w [?e] True True)) loop_init ?st1 [?m, ?e])"
    using ss_handler [where G = ?G and K = ?K and c = bg_ctx and t = t and pick = True and
        s = "?mk (SendingExit (?w [] False True) ?e) loop_init ?st1 [?m]"]
    by (simp add: server_step_def chan_send_def chan_close_def new_messages_def task_chan_def handler_sends_def handler_returns_def)
  with 3 have 4: "?R (?mk (Exited (?w [?e] True True)) loop_init ?st1 [?m, ?e])" by (rule ssr_step)
  have "ss_step ?G ?K bg_ctx t (?mk (Exited (?w [?e] True True)) loop_init ?st1 [?m, ?e])
      (?mk (Exited (?w [] True True)) ?l1 ?st1 [?m, ?e])"
    using ss_recv [where G = ?G and K = ?K and c = bg_ctx and t = t and v = "Some ?e" and
        s = "?mk (Exited (?w [?e] True True)) loop_init ?st1 [?m, ?e]"] c(2)
    by (auto simp: task_chan_def chan_recv_def loop_recv_def loop_init_def)
  with 4 have 5: "?R (?mk (Exited (?w [] True True)) ?l1 ?st1 [?m, ?e])" by (rule ssr_step)
  have "ss_step ?G ?K bg_ctx t (?mk (Exited (?w [] True True)) ?l1 ?st1 [?m, ?e])
      (?mk (Exited (?w [] True True)) (?l1\<lparr>sl_returned := True\<rparr>) ?st2 [?m, ?e])"
    using ss_recv [where G = ?G and K = ?K and c = bg_ctx and t = t and v = None and
        s = "?mk (Exited (?w [] True True)) ?l1 ?st1 [?m, ?e]"]
    by (simp add: task_chan_def chan_recv_def loop_recv_def loop_init_def exit_reply_eq send_accepted)
  with 5 have "?R (?mk (Exited (?w [] True True)) (?l1\<lparr>sl_returned := True\<rparr>) ?st2 [?m, ?e])"
    by (rule ssr_step)
  then show ?thesis by (intro exI conjI) auto
qed

theorem server_stream_complete_witness:
  "\<exists>s trailers. ss_reachable std_lib byte_codec bg_ctx 3 (ss_init bg_ctx sample_request one_msg_prog (echo_ctl [])) s \<and>
     s_attempts (ctl_stream (ss_ctl s)) =
       [stream_reply 3 (Some \<lparr>Headers = None, SSM_Response = [5]\<rparr>),
        exit_reply_msg std_lib bg_ctx 3 (exit_response std_lib None trailers)]"
proof -
  obtain s where s: "ss_reachable std_lib byte_codec bg_ctx 3
     (ss_init bg_ctx sample_request one_msg_prog (echo_ctl [])) s" "sl_returned (ss_loop s)"
     "ss_asked s = [Some \<lparr>Headers = None, SSM_Response = [5]\<rparr>]" "ss_result s = Some None"
    using one_msg_run [of 3] by blast
  have "ctx_err bg_ctx = None" by (simp add: bg_ctx_def)
  moreover have "s_attempts (ctl_stream (echo_ctl [])) = []"
    by (simp add: echo_ctl_def new_controller_def sample_stream_def)
  ultimately show ?thesis
    using server_stream_complete [OF s(1) echo_ctl_inv std_lib_laws(1) s(2)] s(1,3,4) by auto
qed

lemma server_stream_prefix_witness:
  "\<exists>rs. ss_written (ss_init bg_ctx sample_request one_msg_prog (echo_ctl [])) =
     rs @ chan_buf (task_chan (ss_task (ss_init bg_ctx sample_request one_msg_prog (echo_ctl []))))"
proof -
  let ?init = "ss_init bg_ctx sample_request one_msg_prog (echo_ctl [])"
  have r: "ss_reachable std_lib byte_codec bg_ctx 3 ?init ?init" by (rule ssr_init)
  have "\<not> sl_returned (ss_loop ?init)" by (simp add: ss_init_def loop_init_def)
  then show ?thesis using server_stream_prefix [OF r echo_ctl_inv std_lib_laws(1)] by blast
qed

theorem stream_headers_lost_witness:
  "\<exists>s ms rest. ss_reachable std_lib byte_codec bg_ctx 3
       (ss_init bg_ctx sample_request one_msg_prog (echo_ctl [])) s \<and> sl_returned (ss_loop s) \<and>
     s_attempts (ctl_stream (ss_ctl s)) = s_attempts (ctl_stream (echo_ctl [])) @ ms @ rest \<and>
     (\<forall>m \<in> set ms. Metadata m = None \<and> SSM_GetHeaders (GetServerStreamMsg (Some m)) = None)"
proof -
  obtain s where s: "ss_reachable std_lib byte_codec bg_ctx 3
     (ss_init bg_ctx sample_request one_msg_prog (echo_ctl [])) s" "sl_returned (ss_loop s)"
    using one_msg_run by blast
  then show ?thesis using stream_headers_lost [OF s(1) echo_ctl_inv std_lib_laws(1)] by blast
qed

text \<open>A handler with two messages whose request is cancelled after the first.\<close>

definition done_ctx :: ctx where
  "done_ctx = bg_ctx\<lparr>ctx_err := Some (CtxErr CtxCanceled)\<rparr>"

theorem abandoned_handler_stuck_witness:
  "\<exists>s. ss_reachable std_lib byte_codec done_ctx 3 (ss_init done_ctx sample_request
         (PSendMsg (AnyV2 [5]) (\<lambda>_. one_msg_prog)) (echo_ctl [])) s \<and>
       (\<forall>s'. \<not> ss_step std_lib byte_codec done_ctx 3 s s')"
proof -
  let ?G = std_lib and ?K = byte_codec
  let ?m = "stream_msg [5] None"
  let ?w = "\<lparr>lw_ctx = done_ctx, lw_req = sample_request, lw_headers = None, lw_trailers = None,
     lw_wroteHeaders = True, lw_writer = \<lparr>chan_buf = [?m], chan_cap = 1, chan_closed = False\<rparr>,
     lw_closedWriter = False\<rparr>"
  let ?mk = "\<lambda>sl b. \<lparr>ss_task = Handling ?w one_msg_prog, ss_loop = sl, ss_ctl = echo_ctl [],
     ss_asked = [Some \<lparr>Headers = None, SSM_Response = [5]\<rparr>], ss_result = None,
     ss_written = [?m], ss_cancelled = b\<rparr>"
  let ?init = "ss_init done_ctx sample_request (PSendMsg (AnyV2 [5]) (\<lambda>_. one_msg_prog)) (echo_ctl [])"
  have "ss_step ?G ?K done_ctx 3 ?init (?mk loop_init False)"
    using ss_handler [where G = ?G and K = ?K and c = done_ctx and t = 3 and pick = True and s = ?init]
    by (simp add: ss_init_def server_step_def lw_SendMsg_def byte_codec_def Let_def
        select_send_def newLocalServerStreamWrapper_def chan_send_def make_chan_def the_bytes_def
        FromMD_def new_messages_def task_chan_def handler_sends_def handler_returns_def)
  then have 1: "ss_reachable ?G ?K done_ctx 3 ?init (?mk loop_init False)" by (rule ssr_step [OF ssr_init])
  have "ss_step ?G ?K done_ctx 3 (?mk loop_init False) (?mk (loop_init\<lparr>sl_returned := True\<rparr>) True)"
    using ss_cancel [where G = ?G and K = ?K and c = done_ctx and t = 3 and s = "?mk loop_init False"]
    by (simp add: loop_cancel_def done_ctx_def loop_init_def)
  with 1 have 2: "ss_reachable ?G ?K done_ctx 3 ?init (?mk (loop_init\<lparr>sl_returned := True\<rparr>) True)"
    by (rule ssr_step)
  show ?thesis
    using abandoned_handler_stuck [OF 2 echo_ctl_inv std_lib_laws(1)] 2
    by (auto simp: one_msg_prog_def byte_codec_def)
qed

end
