(* ===== verification/Client_Conn.thy ===== *)
theory Client_Conn
  imports Dispatch
begin

text \<open>
  clientconn.go: the \<open>grpc.ClientConnInterface\<close> that \<open>Server.Serve\<close> returns. A unary call
  marshals the request, sends it through the controller and waits for the future; the
  method name \<open>Forward\<close> passes on a raw RPC message without unpacking its response. The
  reply is the target that the caller gave, so the call returns it. Call options that
  receive headers or trailers are addresses; what is stored there is returned as well.
\<close>

subsection \<open>Calls\<close>

definition Forward :: string where "Forward = ''(forward)''"

datatype call_option = HeaderCallOption nat | TrailerCallOption nat | OtherCallOption

record ClientConn =
  cc_controller :: nat
  cc_interceptor :: "nat option"
  cc_metrics :: "MetricsExporter option"

text \<open>The result of a call: its error, the reply, and the metadata stored for the options.\<close>

type_synonym 'm call_result = "go_error option \<times> 'm any_msg \<times> (nat \<times> metadata) list"

record prepared =
  pr_serviceName :: string
  pr_methodName :: string
  pr_reqMsg :: bytes
  pr_md :: metadata

definition is_rpc :: "'m any_msg \<Rightarrow> bool" where
  "is_rpc m \<longleftrightarrow> (case m of AnyRPC _ \<Rightarrow> True | _ \<Rightarrow> False)"

text \<open>The checks at the start of \<open>invoke\<close>: the service and the method of the name.\<close>

definition call_target :: "string \<Rightarrow> 'm any_msg \<Rightarrow> 'm any_msg \<Rightarrow> go_error + (string \<times> string)" where
  "call_target method req reply =
     (if method \<noteq> Forward then parseQualifiedMethod method
      else if \<not> is_rpc req then Inl (ErrorString ''[totem] invalid forwarding request type'')
      else if \<not> is_rpc reply then Inl (ErrorString ''[totem] invalid forwarding response type'')
      else Inr ([], []))"

text \<open>The type switch on the request.\<close>

definition marshal_request ::
  "lib \<Rightarrow> 'm codec \<Rightarrow> 'm any_msg \<Rightarrow> metadata \<Rightarrow> string \<times> string \<Rightarrow> (go_error + prepared) outcome" where
  "marshal_request G K req md target =
     (case req of
        AnyRPC r \<Rightarrow>
          Done (Inr \<lparr>pr_serviceName = ServiceName r, pr_methodName = MethodName r,
            pr_reqMsg = GetRequest (Some r),
            pr_md = (case Metadata r of None \<Rightarrow> md | Some _ \<Rightarrow> md_Join G md (ToMD (Metadata r)))\<rparr>)
      | AnyOther \<Rightarrow> Panics ''[totem] unsupported request type''
      | _ \<Rightarrow>
          (case Marshal K req of
             (_, Some e) \<Rightarrow> Done (Inl e)
           | (b, None) \<Rightarrow>
               Done (Inr \<lparr>pr_serviceName = fst target, pr_methodName = snd target,
                 pr_reqMsg = the_bytes b, pr_md = md\<rparr>)))"

definition prepare_call ::
  "lib \<Rightarrow> 'm codec \<Rightarrow> ctx \<Rightarrow> string \<Rightarrow> 'm any_msg \<Rightarrow> 'm any_msg \<Rightarrow> (go_error + prepared) outcome" where
  "prepare_call G K c method req reply =
     (case call_target method req reply of
        Inl e \<Rightarrow> Done (Inl e)
      | Inr target \<Rightarrow>
          obind (marshal_request G K req (or_nil (FromOutgoingContext G c)) target) (\<lambda>r.
            Done (map_sum id (\<lambda>p. if TracingEnabled G then p\<lparr>pr_md := otel_Inject G c (pr_md p)\<rparr> else p) r)))"

text \<open>The message, the metrics and the call of \<open>Request\<close>.\<close>

definition send_call ::
  "lib \<Rightarrow> ClientConn \<Rightarrow> ctx \<Rightarrow> prepared \<Rightarrow> 'x world \<Rightarrow> (nat \<times> 'x world) outcome" where
  "send_call G cc c p w =
     (let w1 = w\<lparr>w_meter := TrackTxBytes (cc_metrics cc) (pr_serviceName p) (pr_methodName p)
                   (int (length (pr_reqMsg p))) (w_meter w)\<rparr> in
      on_ctl (cc_controller cc) (\<lambda>st. obind (Request G c
        \<lparr>Tag = 0, ServiceName = pr_serviceName p, MethodName = pr_methodName p,
         Content = Some (RPC_Request (pr_reqMsg p)), Metadata = FromMD (Some (pr_md p))\<rparr> st)
        (\<lambda>(ch, _, st'). Done (ch, st'))) w1)"

fun option_writes :: "metadata \<Rightarrow> call_option list \<Rightarrow> (nat \<times> metadata) list" where
  "option_writes md [] = []"
| "option_writes md (HeaderCallOption a # os) = (a, md) # option_writes md os"
| "option_writes md (TrailerCallOption a # os) = (a, md) # option_writes md os"
| "option_writes md (OtherCallOption # os) = option_writes md os"

text \<open>The type switch on the reply.\<close>

definition unpack_reply ::
  "'m codec \<Rightarrow> RPC \<Rightarrow> Response \<Rightarrow> 'm any_msg \<Rightarrow> (go_error option \<times> 'm any_msg) outcome" where
  "unpack_reply K rpc resp reply =
     (case reply of
        AnyRPC r \<Rightarrow>
          Done (None, AnyRPC (r\<lparr>Content := Some (RPC_Response (Some resp)),
                               Metadata := FromMD (Some (ToMD (Metadata rpc)))\<rparr>))
      | AnyV2 x \<Rightarrow> Done (unmarshal_reply K (Response_bytes resp) AnyV2 x)
      | AnyV1 x \<Rightarrow> Done (unmarshal_reply K (Response_bytes resp) AnyV1 x)
      | AnyOther \<Rightarrow> Panics ''[totem] unsupported request type'')"

text \<open>
  What \<open>invoke\<close> does with a message from the future: a status error is returned unless the
  call forwards; then the metrics, the call options and the reply. The length of
  \<open>resp.Response\<close> is read, which panics on a nil response.
\<close>

definition receive_reply ::
  "lib \<Rightarrow> 'm codec \<Rightarrow> ClientConn \<Rightarrow> bool \<Rightarrow> int \<Rightarrow> prepared \<Rightarrow> call_option list \<Rightarrow> 'm any_msg \<Rightarrow> RPC option \<Rightarrow>
   'x world \<Rightarrow> ('m call_result \<times> 'x world) outcome" where
  "receive_reply G K cc forwarding latency p callOpts reply v w =
     (case v of
        None \<Rightarrow> Panics ''nil pointer dereference''
      | Some rpc \<Rightarrow>
          (let resp = GetResponse v in
           case (if forwarding then None else status_Err G (GetStatus G resp)) of
             Some err \<Rightarrow> Done ((Some err, reply, []), w)
           | None \<Rightarrow>
               (case resp of
                  None \<Rightarrow> Panics ''nil pointer dereference''
                | Some x \<Rightarrow>
                    obind (unpack_reply K rpc x reply) (\<lambda>(err, reply').
                      Done ((err, reply', option_writes (ToMD (Metadata rpc)) callOpts),
                        w\<lparr>w_meter := TrackRxBytes (cc_metrics cc) (pr_serviceName p) (pr_methodName p)
                             (int (length (Response_bytes x)))
                             (TrackSvcTxLatency (cc_metrics cc) (pr_serviceName p) (pr_methodName p)
                               latency (w_meter w))\<rparr>)))))"

definition await_reply ::
  "lib \<Rightarrow> 'm codec \<Rightarrow> ClientConn \<Rightarrow> bool \<Rightarrow> bool \<Rightarrow> int \<Rightarrow> ctx \<Rightarrow> prepared \<Rightarrow> call_option list \<Rightarrow> 'm any_msg \<Rightarrow>
   nat \<Rightarrow> 'x world \<Rightarrow> ('m call_result \<times> 'x world) outcome" where
  "await_reply G K cc forwarding pick latency c p callOpts reply ch w =
     (let ready = on_ctl (cc_controller cc) (recv_future ch) w in
      if ctx_err c \<noteq> None \<and> (ready = Blocks \<or> \<not> pick) then Done ((ctx_err c, reply, []), w)
      else obind ready (\<lambda>(v, w1). receive_reply G K cc forwarding latency p callOpts reply v w1))"

text \<open>\<open>ClientConn.invoke\<close>; \<open>envr\<close> is what happens while the call waits for its future.\<close>

definition cc_invoke ::
  "('m, 'x) env \<Rightarrow> ClientConn \<Rightarrow> ctx \<Rightarrow> string \<Rightarrow> 'm any_msg \<Rightarrow> 'm any_msg \<Rightarrow> call_option list \<Rightarrow>
   'x world \<Rightarrow> ('m call_result \<times> 'x world) outcome" where
  "cc_invoke E cc c method req reply callOpts w =
     obind (prepare_call (e_lib E) (e_codec E) c method req reply) (\<lambda>r.
       case r of
         Inl e \<Rightarrow> Done ((Some e, reply, []), w)
       | Inr p \<Rightarrow>
           obind (send_call (e_lib E) cc c p w) (\<lambda>(ch, w1).
             await_reply (e_lib E) (e_codec E) cc (method = Forward) (e_pick E) (e_latency E) c p
               callOpts reply ch (e_env E w1)))"

text \<open>The interceptor of the server options, if there is one, is called with \<open>invoke\<close>;
  \<open>interceptors\<close> gives the function at an address.\<close>

definition cc_Invoke ::
  "('m, 'x) env \<Rightarrow>
   (nat \<Rightarrow> ctx \<Rightarrow> string \<Rightarrow> 'm any_msg \<Rightarrow> 'm any_msg \<Rightarrow>
     (ctx \<Rightarrow> string \<Rightarrow> 'm any_msg \<Rightarrow> 'm any_msg \<Rightarrow> call_option list \<Rightarrow> 'x world \<Rightarrow> ('m call_result \<times> 'x world) outcome) \<Rightarrow>
     call_option list \<Rightarrow> 'x world \<Rightarrow> ('m call_result \<times> 'x world) outcome) \<Rightarrow>
   ClientConn \<Rightarrow> ctx \<Rightarrow> string \<Rightarrow> 'm any_msg \<Rightarrow> 'm any_msg \<Rightarrow> call_option list \<Rightarrow>
   'x world \<Rightarrow> ('m call_result \<times> 'x world) outcome" where
  "cc_Invoke E interceptors cc c method req reply callOpts w =
     (case cc_interceptor cc of
        Some i \<Rightarrow> interceptors i c method req reply (cc_invoke E cc) callOpts w
      | None \<Rightarrow> cc_invoke E cc c method req reply callOpts w)"

definition cc_NewStream ::
  "ctx \<Rightarrow> StreamDesc \<Rightarrow> string \<Rightarrow> nat list \<Rightarrow> (go_error + serverStreamClientWrapper) outcome" where
  "cc_NewStream c desc method onFinish =
     (if sdesc_ClientStreams desc then Panics ''[totem] client streaming not implemented''
      else Done (map_sum id (\<lambda>(serviceName, methodName).
             newServerStreamClientWrapper c serviceName methodName onFinish) (parseQualifiedMethod method)))"

subsection \<open>Properties\<close>

lemma parse_slashName:
  "CHR ''/'' \<notin> set svc \<Longrightarrow> CHR ''/'' \<notin> set m \<Longrightarrow> parseQualifiedMethod (slashName svc m) = Inr (svc, m)"
  by (auto simp: parseQualifiedMethod_Inr intro: exI [where x = "[]"])

lemma slashName_not_Forward [simp]: "slashName svc m \<noteq> Forward"
  by (simp add: slashName_def Forward_def)

lemma on_ctl_recv:
  assumes "w_ctls w k = Some st" and "ctl_futures st ch = Some \<lparr>chan_buf = m # ms, chan_cap = n, chan_closed = b\<rparr>"
  shows "\<exists>w'. on_ctl k (recv_future ch) w = Done (Some m, w')"
  using assms by (simp add: on_ctl_def recv_future_def chan_recv_def)

text \<open>The request that a call of \<open>/svc/m\<close> puts on the wire.\<close>

definition call_request :: "lib \<Rightarrow> ctx \<Rightarrow> tag \<Rightarrow> string \<Rightarrow> string \<Rightarrow> bytes \<Rightarrow> RPC" where
  "call_request G c t svc m b =
     \<lparr>Tag = t, ServiceName = svc, MethodName = m, Content = Some (RPC_Request b),
      Metadata = FromMD (Some (outgoing_md G c))\<rparr>"

lemma prepare_message:
  assumes "CHR ''/'' \<notin> set svc" and "CHR ''/'' \<notin> set m" and "Marshal K (AnyV2 x) = (Some b, None)"
  shows "\<exists>p. prepare_call G K c (slashName svc m) (AnyV2 x) reply = Done (Inr p) \<and>
           pr_serviceName p = svc \<and> pr_methodName p = m \<and> pr_reqMsg p = b"
  using assms
  by (auto simp: prepare_call_def call_target_def parse_slashName marshal_request_def the_bytes_def)

lemma send_call_request:
  assumes "w_ctls w (cc_controller cc) = Some st" and "ctl_inv st"
  shows "\<exists>st1 w1. send_call G cc c p w = Done (ctl_nfut st, w1) \<and>
           w_ctls w1 = (w_ctls w)(cc_controller cc \<mapsto> st1) \<and>
           send_or_kick (call_request G c (ctl_count st + 1) (pr_serviceName p) (pr_methodName p) (pr_reqMsg p))
             (with_call st) = Done st1 \<and> ctl_inv st1"
proof -
  obtain st1 where st1: "send_or_kick (call_request G c (ctl_count st + 1) (pr_serviceName p)
      (pr_methodName p) (pr_reqMsg p)) (with_call st) = Done st1" "ctl_inv st1"
    using ctl_inv_send_or_kick [OF ctl_inv_with_call [OF assms(2)]] by blast
  then show ?thesis
    using assms(1) by (simp add: send_call_def on_ctl_def Request_alt call_request_def Let_def)
qed

text \<open>What a caller gets for a response.\<close>

definition response_result ::
  "lib \<Rightarrow> 'm codec \<Rightarrow> RPC \<Rightarrow> Response \<Rightarrow> 'm \<Rightarrow> call_option list \<Rightarrow> 'm call_result" where
  "response_result G K rpc resp y opts =
     (case status_Err G (GetStatus G (Some resp)) of
        Some err \<Rightarrow> (Some err, AnyV2 y, [])
      | None \<Rightarrow>
          (case Unmarshal K (Response_bytes resp) y of
             Inl e \<Rightarrow> (Some (WrapError ''[totem] malformed response'' e), AnyV2 y,
                       option_writes (ToMD (Metadata rpc)) opts)
           | Inr z \<Rightarrow> (None, AnyV2 z, option_writes (ToMD (Metadata rpc)) opts)))"

lemma receive_reply_message:
  assumes "Content rpc = Some (RPC_Response (Some resp))"
  shows "\<exists>w'. receive_reply G K cc False lat p opts (AnyV2 y) (Some rpc) w =
           Done (response_result G K rpc resp y opts, w')"
proof -
  have "GetResponse (Some rpc) = Some resp" using assms by (simp add: getter_defs)
  then show ?thesis
    by (simp add: receive_reply_def response_result_def unpack_reply_def unmarshal_reply_def
        split: option.split sum.split)
qed

text \<open>A call whose future gets a message while it waits continues with that message.\<close>

lemma call_receives:
  assumes "prepare_call (e_lib E) (e_codec E) c method req reply = Done (Inr p)"
    and "w_ctls w (cc_controller cc) = Some st" and "ctl_inv st" and "ctx_err c = None"
    and sent: "send_or_kick (call_request (e_lib E) c (ctl_count st + 1) (pr_serviceName p) (pr_methodName p) (pr_reqMsg p))
      (with_call st) = Done st1"
    and env: "\<And>w1. w_ctls w1 = (w_ctls w)(cc_controller cc \<mapsto> st1) \<Longrightarrow>
       \<exists>st2. w_ctls (e_env E w1) (cc_controller cc) = Some st2 \<and>
         ctl_futures st2 (ctl_nfut st) = Some \<lparr>chan_buf = [rpc], chan_cap = 1, chan_closed = True\<rparr>"
  shows "\<exists>w2. cc_invoke E cc c method req reply opts w =
    receive_reply (e_lib E) (e_codec E) cc (method = Forward) (e_latency E) p opts reply (Some rpc) w2"
proof -
  obtain w1 where s: "send_call (e_lib E) cc c p w = Done (ctl_nfut st, w1)"
    "w_ctls w1 = (w_ctls w)(cc_controller cc \<mapsto> st1)"
    using send_call_request [OF assms(2,3), of "e_lib E" c p] sent by auto
  then obtain w2 where "on_ctl (cc_controller cc) (recv_future (ctl_nfut st)) (e_env E w1) = Done (Some rpc, w2)"
    using env on_ctl_recv by blast
  with assms(1,4) s(1) show ?thesis by (auto simp: cc_invoke_def await_reply_def)
qed

text \<open>
  C24: a unary call \<open>/svc/m\<close> sends exactly one request, with the service and the method of
  the name, the marshalled message and a fresh tag, and returns what the response in its
  future says: the unmarshalled body for status OK, otherwise the error of the status with
  the reply untouched.
\<close>

theorem unary_call_result:
  assumes "CHR ''/'' \<notin> set svc" and "CHR ''/'' \<notin> set m" and "Marshal (e_codec E) (AnyV2 x) = (Some b, None)"
    and "w_ctls w (cc_controller cc) = Some st" and "ctl_inv st" and "ctx_err c = None"
    and sent: "send_or_kick (call_request (e_lib E) c (ctl_count st + 1) svc m b) (with_call st) = Done st1"
    and env: "\<And>w1. w_ctls w1 = (w_ctls w)(cc_controller cc \<mapsto> st1) \<Longrightarrow>
       \<exists>st2. w_ctls (e_env E w1) (cc_controller cc) = Some st2 \<and>
         ctl_futures st2 (ctl_nfut st) = Some \<lparr>chan_buf = [rpc], chan_cap = 1, chan_closed = True\<rparr>"
    and "Content rpc = Some (RPC_Response (Some resp))"
  shows "\<exists>w2. cc_invoke E cc c (slashName svc m) (AnyV2 x) (AnyV2 y) opts w =
             Done (response_result (e_lib E) (e_codec E) rpc resp y opts, w2)"
proof -
  obtain p where p: "prepare_call (e_lib E) (e_codec E) c (slashName svc m) (AnyV2 x) (AnyV2 y) = Done (Inr p)"
    "pr_serviceName p = svc" "pr_methodName p = m" "pr_reqMsg p = b"
    using prepare_message [OF assms(1-3)] by blast
  obtain w2 where w2: "cc_invoke E cc c (slashName svc m) (AnyV2 x) (AnyV2 y) opts w =
      receive_reply (e_lib E) (e_codec E) cc (slashName svc m = Forward) (e_latency E) p opts (AnyV2 y) (Some rpc) w2"
    using call_receives [OF p(1) assms(4-6) _ env] sent p(2-4) by blast
  then show ?thesis
    using receive_reply_message [OF assms(9), of "e_lib E" "e_codec E" cc "e_latency E" p opts y w2] by simp
qed

text \<open>
  A name that is not of the form \<open>x/service/method\<close> is refused with an error before
  anything is sent: the world does not change, for calls and for streams.
\<close>

lemma malformed_method_refused:
  assumes "length (filter (\<lambda>ch. ch = CHR ''/'') method) \<noteq> 2" and "method \<noteq> Forward"
  shows "cc_invoke E cc c method req reply opts w =
           Done ((Some (ErrorString (''invalid method name: '' @ method)), reply, []), w) \<and>
         (\<not> sdesc_ClientStreams desc \<longrightarrow>
            cc_NewStream c desc method fs = Done (Inl (ErrorString (''invalid method name: '' @ method))))"
proof -
  have "count_list s (CHR ''/'') = length (filter (\<lambda>ch. ch = CHR ''/'') s)" for s
    by (induction s) auto
  then have "parseQualifiedMethod method = Inl (ErrorString (''invalid method name: '' @ method))"
    using assms(1) by (simp add: parseQualifiedMethod_def Let_def length_str_split)
  then show ?thesis
    using assms(2) by (simp add: cc_invoke_def prepare_call_def call_target_def cc_NewStream_def)
qed

lemma send_call_md: "send_call G cc c (p\<lparr>pr_md := md\<rparr>) w = send_call G cc c p w"
  by (simp add: send_call_def Request_def)

lemma receive_reply_md:
  "receive_reply G K cc f lat (p\<lparr>pr_md := md\<rparr>) opts reply v w =
   receive_reply G K cc f lat p opts reply v w"
  by (cases v) (simp_all add: receive_reply_def Let_def split: option.split)

lemma await_reply_md:
  "await_reply G K cc f pick lat c (p\<lparr>pr_md := md\<rparr>) opts reply ch w =
   await_reply G K cc f pick lat c p opts reply ch w"
  unfolding await_reply_def receive_reply_md by simp

text \<open>
  C37: the metadata of a forwarded RPC has no effect at all: the call, the world after it
  and its result are the same whatever metadata the RPC carries, although \<open>invoke\<close> joins
  it with the outgoing metadata.
\<close>

theorem forwarded_metadata_ignored:
  "cc_invoke E cc c Forward (AnyRPC (r\<lparr>Metadata := md\<rparr>)) reply opts w =
   cc_invoke E cc c Forward (AnyRPC (r\<lparr>Metadata := None\<rparr>)) reply opts w"
proof (cases "is_rpc reply")
  case False
  then show ?thesis by (simp add: cc_invoke_def prepare_call_def call_target_def is_rpc_def)
next
  case True
  let ?p = "\<lambda>x. \<lparr>pr_serviceName = ServiceName r, pr_methodName = MethodName r,
      pr_reqMsg = GetRequest (Some r), pr_md = x\<rparr>"
  have "\<exists>x. prepare_call (e_lib E) (e_codec E) c Forward (AnyRPC (r\<lparr>Metadata := m\<rparr>)) reply =
      Done (Inr (?p x))" for m
    using True
    by (auto simp: prepare_call_def call_target_def is_rpc_def marshal_request_def getter_defs
        split: option.splits)
  then obtain x y where
    "prepare_call (e_lib E) (e_codec E) c Forward (AnyRPC (r\<lparr>Metadata := md\<rparr>)) reply = Done (Inr (?p x))"
    "prepare_call (e_lib E) (e_codec E) c Forward (AnyRPC (r\<lparr>Metadata := None\<rparr>)) reply = Done (Inr (?p y))"
    by metis
  then show ?thesis
    by (simp add: cc_invoke_def send_call_md [where p = "?p y" and md = x, simplified]
        await_reply_md [where p = "?p y" and md = x, simplified])
qed

subsection \<open>Concrete instances\<close>

text \<open>An environment in which the peer echoes the request of the first call.\<close>

definition echo_reply :: RPC where
  "echo_reply = response_msg 1 [7] (Some \<lparr>st_code = OK, st_message = ''OK''\<rparr>) None"

definition answer_first :: "unit world \<Rightarrow> unit world" where
  "answer_first w =
     (case w_ctls w 0 of
        None \<Rightarrow> w
      | Some st \<Rightarrow> w\<lparr>w_ctls := (w_ctls w)(0 \<mapsto> answered st 0 echo_reply)\<rparr>)"

definition call_env :: "(bytes, unit) env" where
  "call_env = echo_env\<lparr>e_env := answer_first\<rparr>"

theorem unary_call_result_witness:
  "\<exists>w2. cc_invoke call_env \<lparr>cc_controller = 0, cc_interceptor = None, cc_metrics = None\<rparr> bg_ctx ''/svc/M'' (AnyV2 [7]) (AnyV2 []) []
     (echo_world []) = Done ((None, AnyV2 [7], []), w2)"
proof -
  let ?cc = "\<lparr>cc_controller = 0, cc_interceptor = None, cc_metrics = None\<rparr>"
  obtain st1 where s: "send_or_kick (call_request (e_lib call_env) bg_ctx (ctl_count (echo_ctl []) + 1)
      ''svc'' ''M'' [7]) (with_call (echo_ctl [])) = Done st1"
    using ctl_inv_send_or_kick [OF ctl_inv_with_call [OF echo_ctl_inv]] by blast
  have n: "ctl_nfut (echo_ctl []) = 0" by (simp add: echo_ctl_def new_controller_def)
  have "\<exists>w2. cc_invoke call_env ?cc bg_ctx (slashName ''svc'' ''M'') (AnyV2 [7]) (AnyV2 []) [] (echo_world []) =
      Done (response_result (e_lib call_env) (e_codec call_env) echo_reply
        \<lparr>Response_bytes = [7], StatusProto = Some \<lparr>st_code = OK, st_message = ''OK''\<rparr>\<rparr> [] [], w2)"
  proof (rule unary_call_result [where st = "echo_ctl []" and ?st1.0 = st1 and b = "[7]"])
    fix w1 :: "unit world"
    assume "w_ctls w1 = (w_ctls (echo_world []))(cc_controller ?cc \<mapsto> st1)"
    then show "\<exists>st2. w_ctls (e_env call_env w1) (cc_controller ?cc) = Some st2 \<and>
         ctl_futures st2 (ctl_nfut (echo_ctl [])) =
           Some \<lparr>chan_buf = [echo_reply], chan_cap = 1, chan_closed = True\<rparr>"
      by (simp add: call_env_def answer_first_def answered_def n)
  qed (use s in \<open>auto simp: call_env_def echo_env_def byte_codec_def echo_ctl_inv bg_ctx_def
        echo_reply_def response_msg_def\<close>)
  then show ?thesis
    by (simp add: response_result_def slashName_def call_env_def echo_env_def byte_codec_def std_lib_def
        GetStatus_def)
qed

lemma malformed_method_refused_witness:
  "cc_invoke call_env \<lparr>cc_controller = 0, cc_interceptor = None, cc_metrics = None\<rparr> bg_ctx ''svc/M'' (AnyV2 [7]) (AnyV2 []) []
     (echo_world []) = Done ((Some (ErrorString ''invalid method name: svc/M''), AnyV2 [], []), echo_world [])"
  using malformed_method_refused [of "''svc/M''" call_env] by (simp add: Forward_def)

end
