(* ===== verification/Discovery.thy ===== *)
theory Discovery
  imports Dispatch "HOL-Library.Multiset" "HOL-Library.Countable"
begin

text \<open>
  Service discovery: \<open>ListServices\<close> of stream.go, the generated handler of the reflection
  service (totem_grpc.pb.go) and \<open>discoverServices\<close> of discovery.go.

  A controller answers with the services it has and with those of the controllers spliced
  to it, which it asks in turn; the list of visited controllers and the hop counter travel
  with the request. \<open>net_invoke\<close> closes the loop: a call through a controller is answered by
  \<open>ListServices\<close> of the controller at the other end of its stream, with fuel for the depth
  of the recursion, and \<open>discovery_terminates\<close> shows how much is enough.
\<close>

subsection \<open>ListServices\<close>

text \<open>
  Package proto on the two messages of the protocol, and the iteration orders of the two
  Go maps: the table of services and the map that removes duplicates.
\<close>

record disc =
  d_enc_req :: "DiscoveryRequest \<Rightarrow> bytes"
  d_dec_req :: "bytes \<Rightarrow> go_error + DiscoveryRequest"
  d_enc_info :: "ServiceInfo \<Rightarrow> bytes"
  d_dec_info :: "bytes \<Rightarrow> go_error + ServiceInfo"
  d_keys :: "(string \<rightharpoonup> invoker ServiceHandlerList) \<Rightarrow> string list"
  d_iter :: "(string \<times> ServiceDescriptor) list \<Rightarrow> (string \<times> ServiceDescriptor) list"

definition disc_ok :: "disc \<Rightarrow> bool" where
  "disc_ok D \<longleftrightarrow>
     (\<forall>r. d_dec_req D (d_enc_req D r) = Inr r) \<and> (\<forall>i. d_dec_info D (d_enc_info D i) = Inr i) \<and>
     (\<forall>m. finite (dom m) \<longrightarrow> set (d_keys D m) = dom m) \<and> (\<forall>m. distinct (d_keys D m)) \<and> (\<forall>xs. mset (d_iter D xs) = mset xs)"

text \<open>The descriptors of the first handler of every service.\<close>

definition first_descriptors ::
  "disc \<Rightarrow> (string \<rightharpoonup> invoker ServiceHandlerList) \<Rightarrow> ServiceDescriptor list" where
  "first_descriptors D services =
     concat (map (\<lambda>key. case services key of
        None \<Rightarrow> []
      | Some hs \<Rightarrow> snd (shl_Range (\<lambda>sh acc. (False, acc @ [Descriptor sh])) hs [])) (d_keys D services))"

text \<open>
  The callback of the loop over the handlers of the reflection service. Its state is the
  list of services and the world. Local invokers are skipped, and so is the peer that the
  request came from, unless the request came from a spliced stream.
\<close>

definition list_request :: "bytes \<Rightarrow> RPC" where
  "list_request reqBytes =
     \<lparr>Tag = 0, ServiceName = ''totem.ServerReflection'', MethodName = ''ListServices'',
      Content = Some (RPC_Request reqBytes), Metadata = None\<rparr>"

definition asks :: "invoker StreamController \<Rightarrow> invoker ServiceHandler \<Rightarrow> invoker \<Rightarrow> bool" where
  "asks st handler iv \<longleftrightarrow>
     (let flags = invoker_TopologyFlags iv in
      flags AND TopologyLocal = 0 \<and>
      \<not> (flags AND TopologySpliced = 0 \<or>
         ctx_id (controllerContext handler) = ctx_id (s_ctx (ctl_stream st))))"

definition list_callback ::
  "disc \<Rightarrow> 'x invoke_fn \<Rightarrow> ctx \<Rightarrow> invoker StreamController \<Rightarrow> DiscoveryRequest \<Rightarrow> invoker ServiceHandler \<Rightarrow>
   (ServiceDescriptor list \<times> 'x world) outcome \<Rightarrow> bool \<times> (ServiceDescriptor list \<times> 'x world) outcome" where
  "list_callback D invk c st req handler s =
     (case s of
        Done (services, w) \<Rightarrow>
          (case MethodInvokers handler ''ListServices'' of
             None \<Rightarrow> (True, s)
           | Some iv \<Rightarrow>
               if \<not> asks st handler iv then (True, s)
               else
                 (case invk iv c (list_request (d_enc_req D req)) w of
                    Done (Inl err, _, w') \<Rightarrow> (True, Done (services, w'))
                  | Done (Inr respData, _, w') \<Rightarrow>
                      (case d_dec_info D respData of
                         Inl err \<Rightarrow> (True, Done (services, w'))
                       | Inr remoteInfo \<Rightarrow> (True, Done (services @ Services remoteInfo, w')))
                  | Blocks \<Rightarrow> (False, Blocks)
                  | Panics p \<Rightarrow> (False, Panics p)))
      | r \<Rightarrow> (False, r))"

text \<open>The map that removes duplicates: the first descriptor with a name stays.\<close>

definition dedup_add :: "(string \<times> ServiceDescriptor) list \<Rightarrow> ServiceDescriptor \<Rightarrow> (string \<times> ServiceDescriptor) list" where
  "dedup_add m svc = (if sd_Name svc \<in> fst ` set m then m else m @ [(sd_Name svc, svc)])"

definition dedup :: "ServiceDescriptor list \<Rightarrow> (string \<times> ServiceDescriptor) list" where
  "dedup services = foldl dedup_add [] services"

text \<open>The reply lists the values of the map of the services that were kept, in some order.\<close>

definition service_values :: "disc \<Rightarrow> (string \<times> ServiceDescriptor) list \<Rightarrow> ServiceInfo" where
  [simp]: "service_values D deduped = \<lparr>Services = map snd (d_iter D deduped)\<rparr>"

definition ListServices ::
  "disc \<Rightarrow> 'x invoke_fn \<Rightarrow> nat \<Rightarrow> ctx \<Rightarrow> DiscoveryRequest \<Rightarrow> 'x world \<Rightarrow>
   ((go_error + ServiceInfo) \<times> 'x world) outcome" where
  "ListServices D invk self c req w =
     (case w_ctls w self of
        None \<Rightarrow> Panics ''nil pointer dereference''
      | Some st \<Rightarrow>
          if RemainingHops req = 0 then Done (Inr \<lparr>Services = []\<rparr>, w)
          else if Initiator req = ctl_uuid st then Done (Inr \<lparr>Services = []\<rparr>, w)
          else if ctl_uuid st \<in> set (Visited req) then Done (Inr \<lparr>Services = []\<rparr>, w)
          else
            (let req1 = req\<lparr>Visited := Visited req @ [ctl_uuid st], RemainingHops := RemainingHops req - 1\<rparr>;
                 services = first_descriptors D (ctl_services st)
             in obind
                  (case ctl_services st ''totem.ServerReflection'' of
                     None \<Rightarrow> Done (services, w)
                   | Some hs \<Rightarrow> snd (shl_Range (list_callback D invk c st req1) hs (Done (services, w))))
                  (\<lambda>(all, w1). Done (Inr (service_values D (dedup all)), w1))))"

text \<open>
  The generated handler \<open>_ServerReflection_ListServices_Handler\<close>: decode, then the method,
  through the interceptor if there is one.
\<close>

definition ListServices_Handler ::
  "(ctx \<Rightarrow> DiscoveryRequest \<Rightarrow> 'w \<Rightarrow> ((go_error + ServiceInfo) \<times> 'w) outcome) \<Rightarrow> ctx \<Rightarrow>
   ('w \<Rightarrow> (go_error + DiscoveryRequest) \<times> 'w) \<Rightarrow>
   (ctx \<Rightarrow> DiscoveryRequest \<Rightarrow> string \<Rightarrow> (ctx \<Rightarrow> DiscoveryRequest \<Rightarrow> 'w \<Rightarrow> ((go_error + ServiceInfo) \<times> 'w) outcome) \<Rightarrow>
      'w \<Rightarrow> ((go_error + ServiceInfo) \<times> 'w) outcome) option \<Rightarrow>
   'w \<Rightarrow> ((go_error + ServiceInfo) \<times> 'w) outcome" where
  "ListServices_Handler srv c dec interceptor w =
     (case dec w of
        (Inl err, w1) \<Rightarrow> Done (Inl err, w1)
      | (Inr req, w1) \<Rightarrow>
          (case interceptor of
             None \<Rightarrow> srv c req w1
           | Some f \<Rightarrow> f c req ''/totem.ServerReflection/ListServices'' srv w1))"

subsection \<open>discoverServices\<close>

text \<open>\<open>envr\<close> is what happens while the caller waits for its future.\<close>

definition discovery_result :: "lib \<Rightarrow> disc \<Rightarrow> RPC option \<Rightarrow> go_error + ServiceInfo" where
  "discovery_result G D resp =
     (let respMsg = GetResponse resp in
      case status_Err G (GetStatus G respMsg) of
        Some err \<Rightarrow> Inl err
      | None \<Rightarrow> d_dec_info D (Response_GetResponse respMsg))"

definition discovery_message :: "disc \<Rightarrow> string \<Rightarrow> 32 word \<Rightarrow> RPC" where
  "discovery_message D uuid MaxHops =
     list_request (d_enc_req D \<lparr>Initiator = uuid, Visited = [uuid], RemainingHops = MaxHops\<rparr>)"

definition discoverServices ::
  "lib \<Rightarrow> disc \<Rightarrow> ('x world \<Rightarrow> 'x world) \<Rightarrow> ctx \<Rightarrow> nat \<Rightarrow> 32 word \<Rightarrow> 'x world \<Rightarrow>
   ((go_error + ServiceInfo) \<times> 'x world) outcome" where
  "discoverServices G D envr c ctrl MaxHops w =
     obind (on_ctl ctrl (\<lambda>st. obind (Request G c (discovery_message D (ctl_uuid st) MaxHops) st)
              (\<lambda>(respC, _, st'). Done (respC, st'))) w) (\<lambda>(respC, w1).
     obind (on_ctl ctrl (recv_future respC) (envr w1)) (\<lambda>(resp, w2).
       Done (discovery_result G D resp, w2)))"

subsection \<open>The network\<close>

text \<open>
  The controllers of all processes in one world; \<open>peer k\<close> is the controller at the other
  end of the stream of controller \<open>k\<close>. A call through \<open>k\<close> is answered there.
\<close>

definition net_answer ::
  "disc \<Rightarrow> (nat \<rightharpoonup> nat) \<Rightarrow> 'x invoke_fn \<Rightarrow> 'x invoke_fn" where
  "net_answer D peer rec iv c rpc w =
     (case iv of
        LocalInvoker l \<Rightarrow> Done (Inl (unknown_method (MethodName rpc)), rpc, w)
      | ControllerInvoker r \<Rightarrow>
          (case peer (ri_controller r) of
             None \<Rightarrow> Done (Inl ErrConnClosing, rpc, w)
           | Some k \<Rightarrow>
               obind (ListServices_Handler (ListServices D rec k) c
                        (\<lambda>w. (d_dec_req D (GetRequest (Some rpc)), w)) None w)
                 (\<lambda>(r, w1). Done (map_sum id (d_enc_info D) r, rpc, w1))))"

primrec net_invoke :: "nat \<Rightarrow> disc \<Rightarrow> (nat \<rightharpoonup> nat) \<Rightarrow> 'x invoke_fn" where
  "net_invoke 0 = (\<lambda>D peer iv c rpc w. Blocks)"
| "net_invoke (Suc n) = (\<lambda>D peer. net_answer D peer (net_invoke n D peer))"

definition discover ::
  "nat \<Rightarrow> disc \<Rightarrow> (nat \<rightharpoonup> nat) \<Rightarrow> nat \<Rightarrow> ctx \<Rightarrow> DiscoveryRequest \<Rightarrow> 'x world \<Rightarrow>
   ((go_error + ServiceInfo) \<times> 'x world) outcome" where
  "discover n D peer k c req w = ListServices D (net_invoke n D peer) k c req w"

subsection \<open>Duplicates\<close>

lemma dedup_snoc: "dedup (xs @ [x]) = dedup_add (dedup xs) x"
  by (simp add: dedup_def)

lemma dedup_keys: "fst ` set (dedup xs) = sd_Name ` set xs"
  by (induction xs rule: rev_induct) (auto simp: dedup_snoc dedup_add_def, simp add: dedup_def)

lemma dedup_distinct: "distinct (map fst (dedup xs))"
  by (induction xs rule: rev_induct) (auto simp: dedup_snoc dedup_add_def, simp add: dedup_def)

lemma dedup_name: "(n, d) \<in> set (dedup xs) \<Longrightarrow> sd_Name d = n \<and> d \<in> set xs"
  by (induction xs rule: rev_induct) (auto simp: dedup_snoc dedup_add_def dedup_def [of "[]"] split: if_splits)

lemma find_app: "find P (ys @ zs) = (case find P ys of None \<Rightarrow> find P zs | Some y \<Rightarrow> Some y)"
  by (induction ys) auto

text \<open>The descriptor that stays is the first one with its name.\<close>

lemma dedup_first: "map_of (dedup xs) n = find (\<lambda>d. sd_Name d = n) xs"
proof (induction xs rule: rev_induct)
  case Nil
  then show ?case by (simp add: dedup_def)
next
  case (snoc x xs)
  have "sd_Name x \<in> fst ` set (dedup xs) \<longleftrightarrow> find (\<lambda>d. sd_Name d = sd_Name x) xs \<noteq> None"
    unfolding dedup_keys by (metis (mono_tags, lifting) find_None_iff image_iff)
  with snoc show ?case
    by (auto simp: dedup_snoc dedup_add_def find_app map_add_def split: option.splits)
qed

subsection \<open>The result of one controller\<close>

text \<open>What the handler \<open>h\<close> contributes, when the call leaves the world as it is.\<close>

definition remote_services ::
  "disc \<Rightarrow> 'x invoke_fn \<Rightarrow> ctx \<Rightarrow> invoker StreamController \<Rightarrow> DiscoveryRequest \<Rightarrow> 'x world \<Rightarrow>
   invoker ServiceHandler \<Rightarrow> ServiceDescriptor list" where
  "remote_services D invk c st req w h =
     (case MethodInvokers h ''ListServices'' of
        None \<Rightarrow> []
      | Some iv \<Rightarrow>
          if \<not> asks st h iv then []
          else (case invk iv c (list_request (d_enc_req D req)) w of
                  Done (Inr b, _, _) \<Rightarrow> (case d_dec_info D b of Inl _ \<Rightarrow> [] | Inr i \<Rightarrow> Services i)
                | _ \<Rightarrow> []))"

definition reflection_handlers :: "invoker StreamController \<Rightarrow> invoker ServiceHandler list" where
  "reflection_handlers st =
     (case ctl_services st ''totem.ServerReflection'' of None \<Rightarrow> [] | Some hs \<Rightarrow> shl_data hs)"

text \<open>Every call that is made returns and leaves the world alone.\<close>

definition calls_return ::
  "disc \<Rightarrow> 'x invoke_fn \<Rightarrow> ctx \<Rightarrow> invoker StreamController \<Rightarrow> DiscoveryRequest \<Rightarrow> 'x world \<Rightarrow> bool" where
  "calls_return D invk c st req w \<longleftrightarrow>
     (\<forall>h iv. MethodInvokers h ''ListServices'' = Some iv \<longrightarrow> asks st h iv \<longrightarrow>
        (\<exists>r rpc. invk iv c (list_request (d_enc_req D req)) w = Done (r, rpc, w)))"

lemma list_callback_step:
  assumes "calls_return D invk c st req w"
  shows "list_callback D invk c st req h (Done (svcs, w)) =
    (True, Done (svcs @ remote_services D invk c st req w h, w))"
proof (cases "MethodInvokers h ''ListServices''")
  case None
  then show ?thesis by (simp add: list_callback_def remote_services_def)
next
  case (Some iv)
  show ?thesis
  proof (cases "asks st h iv")
    case False
    with Some show ?thesis by (simp add: list_callback_def remote_services_def)
  next
    case True
    then obtain r rpc where "invk iv c (list_request (d_enc_req D req)) w = Done (r, rpc, w)"
      using assms Some unfolding calls_return_def by blast
    with Some True show ?thesis
      by (cases r) (auto simp: list_callback_def remote_services_def split: sum.split)
  qed
qed

lemma list_range:
  assumes "calls_return D invk c st req w"
  shows "range_loop (list_callback D invk c st req) hs (Done (svcs, w)) =
    (True, Done (svcs @ concat (map (remote_services D invk c st req w) hs), w))"
  by (induction hs arbitrary: svcs) (simp_all add: list_callback_step [OF assms])

definition next_request :: "invoker StreamController \<Rightarrow> DiscoveryRequest \<Rightarrow> DiscoveryRequest" where
  "next_request st req =
     req\<lparr>Visited := Visited req @ [ctl_uuid st], RemainingHops := RemainingHops req - 1\<rparr>"

text \<open>Whether a controller answers a request with nothing.\<close>

definition stops :: "invoker StreamController \<Rightarrow> DiscoveryRequest \<Rightarrow> bool" where
  "stops st req \<longleftrightarrow>
     RemainingHops req = 0 \<or> Initiator req = ctl_uuid st \<or> ctl_uuid st \<in> set (Visited req)"

definition gathered ::
  "disc \<Rightarrow> 'x invoke_fn \<Rightarrow> ctx \<Rightarrow> invoker StreamController \<Rightarrow> DiscoveryRequest \<Rightarrow> 'x world \<Rightarrow>
   ServiceDescriptor list" where
  "gathered D invk c st req w =
     first_descriptors D (ctl_services st) @
     concat (map (remote_services D invk c st (next_request st req) w) (reflection_handlers st))"

lemma ListServices_eq:
  assumes "w_ctls w k = Some st"
    and "\<not> stops st req \<Longrightarrow> calls_return D invk c st (next_request st req) w"
  shows "ListServices D invk k c req w =
    Done (Inr \<lparr>Services = (if stops st req then []
                 else map snd (d_iter D (dedup (gathered D invk c st req w))))\<rparr>, w)"
proof (cases "stops st req")
  case True
  with assms(1) show ?thesis by (auto simp: ListServices_def stops_def)
next
  case False
  note l = list_range [OF assms(2) [OF False]]
  show ?thesis
    using assms(1) False l
    by (auto simp: ListServices_def stops_def shl_Range_def next_request_def [symmetric] gathered_def
        reflection_handlers_def split: option.splits)
qed

lemma iter_set: "disc_ok D \<Longrightarrow> set (d_iter D xs) = set xs"
  by (metis disc_ok_def set_mset_mset)

lemma iter_distinct:
  "disc_ok D \<Longrightarrow> distinct (map fst xs) \<Longrightarrow> distinct (map fst (d_iter D xs))"
  by (metis disc_ok_def mset_eq_imp_distinct_iff mset_map)

lemma result_names:
  assumes "disc_ok D"
  shows "sd_Name ` set (map snd (d_iter D (dedup xs))) = sd_Name ` set xs"
    and "distinct (map sd_Name (map snd (d_iter D (dedup xs))))"
    and "d \<in> set (map snd (d_iter D (dedup xs))) \<longleftrightarrow> find (\<lambda>x. sd_Name x = sd_Name d) xs = Some d"
proof -
  have s: "set (d_iter D (dedup xs)) = set (dedup xs)" using assms by (rule iter_set)
  have n: "sd_Name (snd p) = fst p" if "p \<in> set (dedup xs)" for p
    using dedup_name [of "fst p" "snd p" xs] that by simp
  have "map sd_Name (map snd (d_iter D (dedup xs))) = map fst (d_iter D (dedup xs))"
    using n s by simp
  with iter_distinct [OF assms dedup_distinct]
  show "distinct (map sd_Name (map snd (d_iter D (dedup xs))))" by metis
  have "sd_Name ` snd ` set (dedup xs) = fst ` set (dedup xs)"
    unfolding image_image by (rule image_cong) (simp_all add: n)
  then show "sd_Name ` set (map snd (d_iter D (dedup xs))) = sd_Name ` set xs"
    by (simp add: s dedup_keys)
  have "d \<in> snd ` set (dedup xs) \<longleftrightarrow> (sd_Name d, d) \<in> set (dedup xs)"
  proof
    assume "d \<in> snd ` set (dedup xs)"
    then obtain a where "(a, d) \<in> set (dedup xs)" by auto
    then show "(sd_Name d, d) \<in> set (dedup xs)" using dedup_name [of a d xs] by simp
  qed (simp add: rev_image_eqI)
  also have "\<dots> \<longleftrightarrow> find (\<lambda>x. sd_Name x = sd_Name d) xs = Some d"
    by (simp add: dedup_first [symmetric] map_of_eq_Some_iff [OF dedup_distinct])
  finally show "d \<in> set (map snd (d_iter D (dedup xs))) \<longleftrightarrow> find (\<lambda>x. sd_Name x = sd_Name d) xs = Some d"
    by (simp add: s)
qed

subsection \<open>Termination of discovery\<close>

text \<open>A network: finitely many controllers, and every peer is one of them.\<close>

definition net_wf :: "'x world \<Rightarrow> (nat \<rightharpoonup> nat) \<Rightarrow> bool" where
  "net_wf w peer \<longleftrightarrow> finite (dom (w_ctls w)) \<and> ran peer \<subseteq> dom (w_ctls w)"

definition uuids :: "'x world \<Rightarrow> string set" where
  "uuids w = ctl_uuid ` ran (w_ctls w)"

definition unvisited :: "'x world \<Rightarrow> DiscoveryRequest \<Rightarrow> nat" where
  "unvisited w req = card (uuids w - set (Visited req))"

lemma finite_uuids: "net_wf w peer \<Longrightarrow> finite (uuids w)"
  by (simp add: net_wf_def uuids_def finite_ran)

lemma unvisited_decreases:
  assumes "net_wf w peer" and "w_ctls w k = Some st" and "\<not> stops st req"
  shows "unvisited w (next_request st req) < unvisited w req"
proof -
  have "ctl_uuid st \<in> uuids w - set (Visited req)"
    using assms(2,3) by (auto simp: uuids_def stops_def ran_def)
  moreover have "uuids w - set (Visited (next_request st req)) = uuids w - set (Visited req) - {ctl_uuid st}"
    by (auto simp: next_request_def)
  ultimately show ?thesis
    using finite_uuids [OF assms(1)] unfolding unvisited_def
    by (metis card_Diff1_less finite_Diff)
qed

lemma net_answer_list:
  assumes "disc_ok D" and "peer (ri_controller r) = Some k"
  shows "net_answer D peer rec (ControllerInvoker r) c (list_request (d_enc_req D req)) w =
    obind (ListServices D rec k c req w) (\<lambda>(x, w1).
      Done (map_sum id (d_enc_info D) x, list_request (d_enc_req D req), w1))"
  using assms by (simp add: net_answer_def ListServices_Handler_def list_request_def getter_defs disc_ok_def)

lemma net_calls_return:
  assumes "disc_ok D" and "net_wf w peer"
    and "\<And>k c. k \<in> dom (w_ctls w) \<Longrightarrow> \<exists>i. ListServices D (net_invoke n D peer) k c req w = Done (Inr i, w)"
  shows "calls_return D (net_invoke (Suc n) D peer) c st req w"
  unfolding calls_return_def
proof (intro allI impI)
  fix h iv
  show "\<exists>r rpc. net_invoke (Suc n) D peer iv c (list_request (d_enc_req D req)) w = Done (r, rpc, w)"
  proof (cases iv)
    case (LocalInvoker l)
    then show ?thesis by (simp add: net_answer_def)
  next
    case (ControllerInvoker r)
    show ?thesis
    proof (cases "peer (ri_controller r)")
      case None
      with ControllerInvoker show ?thesis by (simp add: net_answer_def)
    next
      case (Some k)
      then have "k \<in> dom (w_ctls w)" using assms(2) by (auto simp: net_wf_def ran_def)
      then obtain i where "ListServices D (net_invoke n D peer) k c req w = Done (Inr i, w)"
        using assms(3) by blast
      then show ?thesis
        using ControllerInvoker by (simp add: net_answer_list [of D peer r k, OF assms(1) Some])
    qed
  qed
qed

lemma discover_returns:
  assumes "disc_ok D" and "net_wf w peer"
  shows "k \<in> dom (w_ctls w) \<Longrightarrow> unvisited w req \<le> n \<Longrightarrow>
    (\<exists>i. discover n D peer k c req w = Done (Inr i, w)) \<and>
    (\<forall>st. w_ctls w k = Some st \<longrightarrow> \<not> stops st req \<longrightarrow>
       calls_return D (net_invoke n D peer) c st (next_request st req) w)"
proof (induction n arbitrary: k c req)
  case 0
  then obtain st where st: "w_ctls w k = Some st" by blast
  have "stops st req" using unvisited_decreases [OF assms(2) st] 0(2) by fastforce
  then have "discover 0 D peer k c req w = Done (Inr \<lparr>Services = []\<rparr>, w)"
    using ListServices_eq [OF st, of req D "net_invoke 0 D peer" c] by (simp add: discover_def)
  with \<open>stops st req\<close> st show ?case by auto
next
  case (Suc n)
  then obtain st where st: "w_ctls w k = Some st" by blast
  have cr: "calls_return D (net_invoke (Suc n) D peer) c st (next_request st req) w" if "\<not> stops st req"
  proof (rule net_calls_return [OF assms])
    fix k' c'
    assume "k' \<in> dom (w_ctls w)"
    moreover have "unvisited w (next_request st req) \<le> n"
      using unvisited_decreases [OF assms(2) st that] Suc.prems(2) by simp
    ultimately show "\<exists>i. ListServices D (net_invoke n D peer) k' c' (next_request st req) w = Done (Inr i, w)"
      using Suc.IH [of k' "next_request st req" c'] by (auto simp: discover_def)
  qed
  then have "\<exists>i. discover (Suc n) D peer k c req w = Done (Inr i, w)"
    using ListServices_eq [OF st cr] by (simp add: discover_def)
  with cr st show ?case by auto
qed

subsection \<open>What discovery finds\<close>

text \<open>The controller at the other end of a stream that \<open>k\<close> passes requests on to.\<close>

definition asks_peer :: "'x world \<Rightarrow> (nat \<rightharpoonup> nat) \<Rightarrow> nat \<Rightarrow> nat \<Rightarrow> bool" where
  "asks_peer w peer k k' \<longleftrightarrow>
     (\<exists>st h r. w_ctls w k = Some st \<and> h \<in> set (reflection_handlers st) \<and>
        MethodInvokers h ''ListServices'' = Some (ControllerInvoker r) \<and>
        asks st h (ControllerInvoker r) \<and> peer (ri_controller r) = Some k')"

text \<open>
  The controllers that answer a request given to \<open>k\<close>: \<open>k\<close> itself unless it stops, and those
  that the request reaches from there with one more controller visited and one hop less.
\<close>

inductive disc_reaches :: "'x world \<Rightarrow> (nat \<rightharpoonup> nat) \<Rightarrow> nat \<Rightarrow> DiscoveryRequest \<Rightarrow> nat \<Rightarrow> bool"
  for w peer where
  dr_here: "w_ctls w k = Some st \<Longrightarrow> \<not> stops st req \<Longrightarrow> disc_reaches w peer k req k"
| dr_step: "w_ctls w k = Some st \<Longrightarrow> \<not> stops st req \<Longrightarrow> asks_peer w peer k k' \<Longrightarrow>
     disc_reaches w peer k' (next_request st req) v \<Longrightarrow> disc_reaches w peer k req v"

inductive_simps disc_reaches_iff: "disc_reaches w peer k req v"

definition own_names :: "disc \<Rightarrow> invoker StreamController \<Rightarrow> string set" where
  "own_names D st = sd_Name ` set (first_descriptors D (ctl_services st))"

definition found_names :: "disc \<Rightarrow> 'x world \<Rightarrow> (nat \<rightharpoonup> nat) \<Rightarrow> nat \<Rightarrow> DiscoveryRequest \<Rightarrow> string set" where
  "found_names D w peer k req =
     {x. \<exists>v st. disc_reaches w peer k req v \<and> w_ctls w v = Some st \<and> x \<in> own_names D st}"

lemma found_names_stops:
  "w_ctls w k = Some st \<Longrightarrow> stops st req \<Longrightarrow> found_names D w peer k req = {}"
  by (auto simp: found_names_def disc_reaches_iff [of w peer k])

lemma found_names_step:
  assumes "w_ctls w k = Some st" and "\<not> stops st req"
  shows "found_names D w peer k req =
    own_names D st \<union> (\<Union>k' \<in> {k'. asks_peer w peer k k'}. found_names D w peer k' (next_request st req))"
proof -
  have "disc_reaches w peer k req v \<longleftrightarrow>
      v = k \<or> (\<exists>k'. asks_peer w peer k k' \<and> disc_reaches w peer k' (next_request st req) v)" for v
    using assms disc_reaches_iff [of w peer k req v] by (auto simp del: disc_reaches_iff)
  then show ?thesis using assms(1) unfolding found_names_def by auto
qed

lemma remote_names:
  assumes "disc_ok D" and "net_wf w peer"
    and "\<And>k'. k' \<in> dom (w_ctls w) \<Longrightarrow> \<exists>i. discover n D peer k' c req w = Done (Inr i, w) \<and>
           sd_Name ` set (Services i) = found_names D w peer k' req"
    and "w_ctls w k = Some st"
  shows "(\<Union>h \<in> set (reflection_handlers st).
            sd_Name ` set (remote_services D (net_invoke (Suc n) D peer) c st req w h)) =
         (\<Union>k' \<in> {k'. asks_peer w peer k k'}. found_names D w peer k' req)" (is "?L = ?R")
proof -
  have rs: "sd_Name ` set (remote_services D (net_invoke (Suc n) D peer) c st req w h) =
      (case MethodInvokers h ''ListServices'' of
         Some (ControllerInvoker r) \<Rightarrow>
           if asks st h (ControllerInvoker r) then
             (case peer (ri_controller r) of None \<Rightarrow> {} | Some k' \<Rightarrow> found_names D w peer k' req)
           else {}
       | _ \<Rightarrow> {})" for h
  proof (cases "\<exists>r k'. MethodInvokers h ''ListServices'' = Some (ControllerInvoker r) \<and>
      asks st h (ControllerInvoker r) \<and> peer (ri_controller r) = Some k'")
    case False
    then show ?thesis
      by (auto simp: remote_services_def net_answer_def split: option.splits invoker.splits)
  next
    case True
    then obtain r k' where r: "MethodInvokers h ''ListServices'' = Some (ControllerInvoker r)"
      "asks st h (ControllerInvoker r)" "peer (ri_controller r) = Some k'" by blast
    then have "k' \<in> dom (w_ctls w)" using assms(2) by (auto simp: net_wf_def ran_def)
    then obtain i where i: "discover n D peer k' c req w = Done (Inr i, w)"
      "sd_Name ` set (Services i) = found_names D w peer k' req" using assms(3) by blast
    have "d_dec_info D (d_enc_info D i) = Inr i" using assms(1) by (simp add: disc_ok_def)
    with r i show ?thesis
      by (simp add: remote_services_def net_answer_list [of D peer r k', OF assms(1) r(3)] discover_def)
  qed
  show ?thesis
    using assms(4) unfolding rs
    by (auto simp: asks_peer_def split: option.splits invoker.splits if_splits) metis+
qed

lemma discover_names:
  assumes "disc_ok D" and "net_wf w peer"
  shows "k \<in> dom (w_ctls w) \<Longrightarrow> unvisited w req \<le> n \<Longrightarrow>
    \<exists>i. discover n D peer k c req w = Done (Inr i, w) \<and> distinct (map sd_Name (Services i)) \<and>
        sd_Name ` set (Services i) = found_names D w peer k req"
proof (induction n arbitrary: k c req)
  case 0
  then obtain st where st: "w_ctls w k = Some st" by blast
  have "stops st req" using unvisited_decreases [OF assms(2) st] 0(2) by fastforce
  then show ?case
    using ListServices_eq [OF st, of req D "net_invoke 0 D peer" c] found_names_stops [OF st]
    by (simp add: discover_def)
next
  case (Suc n)
  then obtain st where st: "w_ctls w k = Some st" by blast
  show ?case
  proof (cases "stops st req")
    case True
    then show ?thesis
      using ListServices_eq [OF st, of req D "net_invoke (Suc n) D peer" c] found_names_stops [OF st]
      by (simp add: discover_def)
  next
    case False
    let ?req = "next_request st req"
    let ?g = "gathered D (net_invoke (Suc n) D peer) c st req w"
    have "unvisited w ?req \<le> n" using unvisited_decreases [OF assms(2) st False] Suc.prems(2) by simp
    then have IH: "\<exists>i. discover n D peer k' c ?req w = Done (Inr i, w) \<and>
        sd_Name ` set (Services i) = found_names D w peer k' ?req" if "k' \<in> dom (w_ctls w)" for k'
      using Suc.IH [OF that] by blast
    have cr: "calls_return D (net_invoke (Suc n) D peer) c st ?req w"
      using discover_returns [OF assms Suc.prems, of c] st False by blast
    have d: "discover (Suc n) D peer k c req w = Done (Inr \<lparr>Services = map snd (d_iter D (dedup ?g))\<rparr>, w)"
      using ListServices_eq [OF st cr] False by (simp add: discover_def)
    have "sd_Name ` set ?g = own_names D st \<union>
        (\<Union>h \<in> set (reflection_handlers st).
           sd_Name ` set (remote_services D (net_invoke (Suc n) D peer) c st ?req w h))"
      by (auto simp: gathered_def own_names_def)
    also have "\<dots> = found_names D w peer k req"
      using found_names_step [OF st False, of D peer] remote_names [OF assms IH st] by simp
    finally show ?thesis
      using d result_names(1,2) [OF assms(1), of ?g] by simp
  qed
qed

text \<open>
  C3: discovery terminates on every network of controllers, cycles included, for any hop
  limit, negative ones included: the depth of the recursion is at most the number of
  controllers that have not been visited. It finds, each name once, exactly the services of
  the controllers that the request reaches.
\<close>

theorem discovery_correct:
  assumes "disc_ok D" and "net_wf w peer" and "k \<in> dom (w_ctls w)" and "unvisited w req \<le> n"
  shows "\<exists>i. discover n D peer k c req w = Done (Inr i, w) \<and> distinct (map sd_Name (Services i)) \<and>
           sd_Name ` set (Services i) = found_names D w peer k req"
  by (rule discover_names [OF assms])

text \<open>
  A controller that has not been visited answers with the first descriptor of each
  name: its own services take precedence over services of the same name found elsewhere.
\<close>

lemma own_services_first:
  assumes "disc_ok D" and "net_wf w peer" and "w_ctls w k = Some st" and "unvisited w req \<le> n"
    and "\<not> stops st req" and "d \<in> set (first_descriptors D (ctl_services st))"
    and "distinct (map sd_Name (first_descriptors D (ctl_services st)))"
  shows "\<exists>i. discover n D peer k c req w = Done (Inr i, w) \<and> d \<in> set (Services i)"
proof -
  have k: "k \<in> dom (w_ctls w)" using assms(3) by blast
  let ?g = "gathered D (net_invoke n D peer) c st req w"
  have "calls_return D (net_invoke n D peer) c st (next_request st req) w"
    using discover_returns [OF assms(1,2) k assms(4), of c] assms(3,5) by blast
  then have d: "discover n D peer k c req w = Done (Inr \<lparr>Services = map snd (d_iter D (dedup ?g))\<rparr>, w)"
    using ListServices_eq [OF assms(3)] assms(5) by (simp add: discover_def)
  have "find (\<lambda>x. sd_Name x = sd_Name d) xs = Some d" if "d \<in> set xs" "distinct (map sd_Name xs)" for xs
    using that by (induction xs) auto
  then have "find (\<lambda>x. sd_Name x = sd_Name d) ?g = Some d"
    using assms(6,7) by (simp add: gathered_def find_app)
  then show ?thesis using d result_names(3) [OF assms(1)] by fastforce
qed

subsection \<open>A concrete network\<close>

text \<open>
  The messages are countable, so an encoding as bytes that can be decoded exists: the
  number of the message, in unary.
\<close>

instance ReplicationStrategy :: countable
  by countable_datatype

instance QOS_ext :: (countable) countable
  by (rule countable_classI [of "\<lambda>r. to_nat (qos_ReplicationStrategy r, QOS.more r)"])
    (simp add: QOS.equality)

instance Visibility_ext :: (countable) countable
  by (rule countable_classI [of "\<lambda>r. to_nat (SplicedClients r, Visibility.more r)"])
    (simp add: Visibility.equality)

instance MethodDescriptor_ext :: (countable) countable
  by (rule countable_classI [of "\<lambda>r. to_nat (md_Name r, md_InputType r, md_OutputType r,
        md_ClientStreaming r, md_ServerStreaming r, md_Qos r, MethodDescriptor.more r)"])
    (simp add: MethodDescriptor.equality)

instance ServiceDescriptor_ext :: (countable) countable
  by (rule countable_classI [of "\<lambda>r. to_nat (sd_Name r, sd_Method r, sd_Visibility r, ServiceDescriptor.more r)"])
    (simp add: ServiceDescriptor.equality)

instance ServiceInfo_ext :: (countable) countable
  by (rule countable_classI [of "\<lambda>r. to_nat (Services r, ServiceInfo.more r)"])
    (simp add: ServiceInfo.equality)

instance DiscoveryRequest_ext :: (countable) countable
  by (rule countable_classI [of "\<lambda>r. to_nat (Initiator r, Visited r, RemainingHops r, DiscoveryRequest.more r)"])
    (simp add: DiscoveryRequest.equality)

definition number_disc :: disc where
  "number_disc = \<lparr>d_enc_req = (\<lambda>r. replicate (to_nat r) 0), d_dec_req = (\<lambda>b. Inr (from_nat (length b))),
     d_enc_info = (\<lambda>i. replicate (to_nat i) 0), d_dec_info = (\<lambda>b. Inr (from_nat (length b))),
     d_keys = (\<lambda>m. sorted_list_of_set (dom m)), d_iter = (\<lambda>xs. xs)\<rparr>"

lemma number_disc_ok: "disc_ok number_disc"
  by (simp add: disc_ok_def number_disc_def)

text \<open>
  Controller 0 passes requests on through controller 2, of a spliced stream, whose peer is
  controller 1; that one has a service, and passes requests back to controller 0.
\<close>

definition spliced_sh :: "nat \<Rightarrow> invoker ServiceHandler" where
  "spliced_sh k = \<lparr>sh_ptr = k, controllerContext = bg_ctx\<lparr>ctx_id := 7\<rparr>,
     Descriptor = \<lparr>sd_Name = ''totem.ServerReflection'', sd_Method = [], sd_Visibility = None\<rparr>,
     MethodInvokers = [''ListServices'' \<mapsto>
       ControllerInvoker \<lparr>ri_controller = k, ri_flags = TopologySpliced\<rparr>],
     MethodInfo = Map.empty, MethodQOS = Map.empty, sh_TopologyFlags = TopologySpliced\<rparr>"

definition net_ctl :: "string \<Rightarrow> (string \<rightharpoonup> invoker ServiceHandlerList) \<Rightarrow> invoker StreamController" where
  "net_ctl uuid services = (echo_ctl [])\<lparr>ctl_uuid := uuid, ctl_services := services\<rparr>"

definition net_world :: "unit world" where
  "net_world = \<lparr>w_ctls = [0 \<mapsto> net_ctl ''a'' [''totem.ServerReflection'' \<mapsto> echo_list [spliced_sh 2]],
      1 \<mapsto> net_ctl ''b'' [''totem.ServerReflection'' \<mapsto> echo_list [spliced_sh 3],
                       ''svc'' \<mapsto> echo_list [echo_sh None 1]]],
     w_known = [], w_alloc = 100, w_meter = empty_meter, w_user = ()\<rparr>"

definition net_peer :: "nat \<rightharpoonup> nat" where
  "net_peer = [2 \<mapsto> 1, 3 \<mapsto> 0]"

definition first_request :: DiscoveryRequest where
  "first_request = \<lparr>Initiator = ''z'', Visited = [], RemainingHops = -1\<rparr>"

lemma net_world_wf: "net_wf net_world net_peer" "0 \<in> dom (w_ctls net_world)"
  by (auto simp: net_wf_def net_world_def net_peer_def ran_def split: if_splits)

lemma net_world_unvisited: "unvisited net_world first_request \<le> 2"
proof -
  have "uuids net_world \<subseteq> {''a'', ''b''}"
    by (auto simp: uuids_def net_world_def net_ctl_def ran_def split: if_splits)
  then have "card (uuids net_world) \<le> card {''a'', ''b''}" by (intro card_mono) simp_all
  then show ?thesis by (simp add: unvisited_def first_request_def)
qed

lemma net_world_asks: "asks_peer net_world net_peer 0 1"
proof -
  have "asks (net_ctl ''a'' m) (spliced_sh 2) (ControllerInvoker \<lparr>ri_controller = 2, ri_flags = TopologySpliced\<rparr>)" for m
    by (simp add: asks_def Let_def net_ctl_def echo_ctl_def new_controller_def sample_stream_def
        bg_ctx_def spliced_sh_def topology_defs)
  moreover have "MethodInvokers (spliced_sh 2) ''ListServices'' =
      Some (ControllerInvoker \<lparr>ri_controller = 2, ri_flags = TopologySpliced\<rparr>)"
    by (simp add: spliced_sh_def)
  ultimately show ?thesis
    by (auto simp: asks_peer_def net_world_def reflection_handlers_def net_ctl_def net_peer_def)
qed

lemma net_world_found: "''svc'' \<in> found_names number_disc net_world net_peer 0 first_request"
proof -
  let ?a = "net_ctl ''a'' [''totem.ServerReflection'' \<mapsto> echo_list [spliced_sh 2]]"
  let ?b = "net_ctl ''b'' [''totem.ServerReflection'' \<mapsto> echo_list [spliced_sh 3],
                       ''svc'' \<mapsto> echo_list [echo_sh None 1]]"
  have ctls: "w_ctls net_world 0 = Some ?a" "w_ctls net_world 1 = Some ?b" by (simp_all add: net_world_def)
  have "\<not> stops ?a first_request" "\<not> stops ?b (next_request ?a first_request)"
    by (simp_all add: stops_def first_request_def next_request_def net_ctl_def)
  then have "disc_reaches net_world net_peer 0 first_request 1"
    using dr_step [OF ctls(1) _ net_world_asks] dr_here [OF ctls(2)] by blast
  moreover have "''svc'' \<in> own_names number_disc ?b"
  proof -
    have "''svc'' \<in> dom (ctl_services ?b)" "finite (dom (ctl_services ?b))" by (simp_all add: net_ctl_def)
    then have "''svc'' \<in> set (d_keys number_disc (ctl_services ?b))"
      using number_disc_ok by (simp add: disc_ok_def)
    moreover have "ctl_services ?b ''svc'' = Some (echo_list [echo_sh None 1])" by (simp add: net_ctl_def)
    ultimately have "echo_descriptor None \<in> set (first_descriptors number_disc (ctl_services ?b))"
      unfolding first_descriptors_def
      by (auto simp: shl_Range_def intro!: bexI [where x = "''svc''"])
    then show ?thesis
      unfolding own_names_def by (rule rev_image_eqI) (simp add: echo_descriptor_def)
  qed
  ultimately show ?thesis using ctls(2) unfolding found_names_def by blast
qed

theorem discovery_correct_witness:
  "\<exists>i. discover 2 number_disc net_peer 0 bg_ctx first_request net_world = Done (Inr i, net_world) \<and>
     distinct (map sd_Name (Services i)) \<and> ''svc'' \<in> sd_Name ` set (Services i)"
  using discovery_correct [OF number_disc_ok net_world_wf net_world_unvisited, of bg_ctx] net_world_found
  by blast

lemma own_services_first_witness:
  "\<exists>i. discover 2 number_disc net_peer 0 bg_ctx first_request net_world = Done (Inr i, net_world) \<and>
     \<lparr>sd_Name = ''totem.ServerReflection'', sd_Method = [], sd_Visibility = None\<rparr> \<in> set (Services i)"
proof -
  let ?a = "net_ctl ''a'' [''totem.ServerReflection'' \<mapsto> echo_list [spliced_sh 2]]"
  have a: "w_ctls net_world 0 = Some ?a" by (simp add: net_world_def)
  have "\<not> stops ?a first_request" by (simp add: stops_def first_request_def net_ctl_def)
  moreover have "first_descriptors number_disc (ctl_services ?a) =
      [\<lparr>sd_Name = ''totem.ServerReflection'', sd_Method = [], sd_Visibility = None\<rparr>]"
    by (simp add: first_descriptors_def number_disc_def net_ctl_def shl_Range_def spliced_sh_def)
  ultimately show ?thesis
    using own_services_first [OF number_disc_ok net_world_wf(1) a net_world_unvisited] by simp
qed

end
