(* ===== verification/Server.thy ===== *)
theory Server
  imports Client_Conn Discovery
begin

text \<open>
  server.go and \<open>NewStreamController\<close>: servers, the registration of services, splicing of
  streams and the start and the end of serving.

  Allocations take the next address of the world. The read-write lock of a server is the
  number of its readers; \<open>register\<close> and \<open>Splice\<close> take it for writing and block while the
  server runs. The goroutine of \<open>Serve\<close> that waits for \<open>Run\<close> continues as
  \<open>serve_teardown\<close>. Where a function waits for other goroutines, the argument \<open>envr\<close> is
  what they do meanwhile. \<open>log.Fatalf\<close> ends the process, as a panic does.
\<close>

subsection \<open>Options\<close>

record InterceptorConfig =
  Incoming :: "nat option"
  Outgoing :: "nat option"

record ServerOptions =
  so_logger :: "nat option"
  so_name :: string
  so_discoveryHopLimit :: "32 word"
  so_interceptors :: InterceptorConfig
  so_metrics :: "MetricsExporter option"
  so_tracerOptions :: "nat list"

type_synonym ServerOption = "ServerOptions \<Rightarrow> ServerOptions outcome"

definition WithInterceptors :: "InterceptorConfig \<Rightarrow> ServerOption" where
  "WithInterceptors config o1 = Done (o1\<lparr>so_interceptors := config\<rparr>)"

text \<open>\<open>instrument\<close> creates an instrument of the meter provider, as in \<open>NewMetricsExporter\<close>.\<close>

definition WithMetrics :: "lib \<Rightarrow> (string \<Rightarrow> go_error option) \<Rightarrow> attrs \<Rightarrow> ServerOption" where
  "WithMetrics G instrument static o1 =
     obind (NewMetricsExporter G instrument static) (\<lambda>m. Done (o1\<lparr>so_metrics := Some m\<rparr>))"

definition WithTracerOptions :: "nat list \<Rightarrow> ServerOption" where
  "WithTracerOptions opts o1 = Done (o1\<lparr>so_tracerOptions := opts\<rparr>)"

definition WithDiscoveryHopLimit :: "32 word \<Rightarrow> ServerOption" where
  "WithDiscoveryHopLimit limit o1 = Done (o1\<lparr>so_discoveryHopLimit := limit\<rparr>)"

definition WithName :: "string \<Rightarrow> ServerOption" where
  "WithName name o1 = Done (o1\<lparr>so_name := name\<rparr>)"

definition WithLogger :: "nat \<Rightarrow> ServerOption" where
  "WithLogger logger o1 = Done (o1\<lparr>so_logger := Some logger\<rparr>)"

fun apply_options :: "ServerOption list \<Rightarrow> ServerOptions \<Rightarrow> ServerOptions outcome" where
  "apply_options [] o1 = Done o1"
| "apply_options (op # opts) o1 = obind (op o1) (apply_options opts)"

definition default_options :: ServerOptions where
  "default_options = \<lparr>so_logger = Some 0, so_name = [], so_discoveryHopLimit = -1,
     so_interceptors = \<lparr>Incoming = None, Outgoing = None\<rparr>, so_metrics = None, so_tracerOptions = []\<rparr>"

subsection \<open>Service descriptors and new controllers\<close>

text \<open>
  \<open>LoadServiceDesc\<close>: \<open>load\<close> is \<open>grpcreflect.LoadServiceDescriptor\<close>, which gives a descriptor
  and its fully qualified name.
\<close>

type_synonym loader = "ServiceDesc \<Rightarrow> go_error + (ServiceDescriptor \<times> string)"

definition LoadServiceDesc :: "loader \<Rightarrow> ServiceDesc \<Rightarrow> go_error + ServiceDescriptor" where
  "LoadServiceDesc load svc = map_sum id (\<lambda>(dpb, fqn). dpb\<lparr>sd_Name := fqn\<rparr>) (load svc)"

definition ServerReflection_ServiceDesc :: ServiceDesc where
  "ServerReflection_ServiceDesc = \<lparr>svc_ServiceName = ''totem.ServerReflection'',
     svc_Methods = [\<lparr>mdesc_Name = ''ListServices'', mdesc_Handler = 0\<rparr>], svc_Streams = []\<rparr>"

text \<open>A handler is built and registered with the controller \<open>k\<close>.\<close>

definition add_handler ::
  "nat \<Rightarrow> ctx \<Rightarrow> ServiceDescriptor \<Rightarrow> invoker \<Rightarrow> 'x world \<Rightarrow> 'x world outcome" where
  "add_handler k c desc iv w =
     obind (NewDefaultServiceHandler invoker_TopologyFlags (w_alloc w) c desc iv) (\<lambda>h.
       do_ctl k (RegisterServiceHandler h) (w\<lparr>w_alloc := Suc (w_alloc w)\<rparr>))"

record WorkerPoolParameters =
  MaxWorkers :: int
  MinWorkers :: int
  MaxCapacity :: int
  ResizingStrategy :: nat
  IdleTimeout :: int

text \<open>\<open>eager\<close> is \<open>pond.Eager()\<close>; the timeout is in nanoseconds.\<close>

definition DefaultWorkerPoolParams :: "nat \<Rightarrow> WorkerPoolParameters" where
  "DefaultWorkerPoolParams eager =
     \<lparr>MaxWorkers = 100, MinWorkers = 0, MaxCapacity = 1000, ResizingStrategy = eager, IdleTimeout = 5 * 10 ^ 9\<rparr>"

record StreamControllerOptions =
  sco_Metrics :: "MetricsExporter option"
  sco_Name :: string
  sco_Logger :: "nat option"
  sco_WorkerPoolParams :: WorkerPoolParameters
  sco_TracerOptions :: "nat list"
  sco_BaseTopologyFlags :: topology_flags

definition NewStreamController ::
  "lib \<Rightarrow> loader \<Rightarrow> stream \<Rightarrow> string \<Rightarrow> StreamControllerOptions \<Rightarrow> 'x world \<Rightarrow>
   (nat \<times> 'x world) outcome" where
  "NewStreamController G load stream uuid opts w =
     obind (newRecvWrapper (s_id stream) (w_known w)) (\<lambda>(known, receiver).
       let k = w_alloc w;
           sh = new_controller stream receiver uuid (sco_Name opts) (sco_BaseTopologyFlags opts);
           w1 = w\<lparr>w_known := known, w_alloc := Suc k, w_ctls := (w_ctls w)(k \<mapsto> sh)\<rparr>
       in case LoadServiceDesc load ServerReflection_ServiceDesc of
            Inl err \<Rightarrow> Panics (err_Error G err)
          | Inr desc \<Rightarrow>
              obind (add_handler k (s_ctx stream) desc
                (LocalInvoker (newLocalServiceInvoker k ServerReflection_ServiceDesc None (sco_Metrics opts)
                  (sco_BaseTopologyFlags opts))) w1) (\<lambda>w2.
              obind (add_handler k (s_ctx stream) desc (ControllerInvoker (NewInvoker k sh)) w2) (\<lambda>w3.
                Done (k, w3))))"

text \<open>The first action of the goroutine that runs a controller.\<close>

definition start_run :: "nat \<Rightarrow> 'x world \<Rightarrow> 'x world outcome" where
  "start_run k w = do_ctl k (\<lambda>st. obind (Start (ctl_receiver st)) (\<lambda>r. Done (st\<lparr>ctl_receiver := r\<rparr>))) w"

subsection \<open>Servers\<close>

record Server =
  srv_options :: ServerOptions
  srv_stream :: stream
  srv_controller :: nat
  srv_splicedControllers :: "nat list"
  srv_readers :: nat
  srv_setupCtx :: ctx

text \<open>The options that a server gives to its controllers.\<close>

definition controller_options :: "nat option \<Rightarrow> ServerOptions \<Rightarrow> topology_flags \<Rightarrow> StreamControllerOptions" where
  "controller_options logger options flags =
     \<lparr>sco_Metrics = so_metrics options, sco_Name = so_name options, sco_Logger = logger,
      sco_WorkerPoolParams = DefaultWorkerPoolParams 0, sco_TracerOptions = so_tracerOptions options,
      sco_BaseTopologyFlags = flags\<rparr>"

text \<open>\<open>setup\<close> is the context that the tracer returns for the setup span.\<close>

definition NewServer ::
  "lib \<Rightarrow> loader \<Rightarrow> stream \<Rightarrow> ServerOption list \<Rightarrow> string \<Rightarrow> ctx \<Rightarrow> 'x world \<Rightarrow> (Server \<times> 'x world) outcome" where
  "NewServer G load stream opts uuid setup w =
     obind (apply_options opts default_options) (\<lambda>options.
      obind (NewStreamController G load stream uuid (controller_options (so_logger options) options 0) w) (\<lambda>(ctrl, w1).
        Done (\<lparr>srv_options = options, srv_stream = stream, srv_controller = ctrl,
               srv_splicedControllers = [], srv_readers = 0, srv_setupCtx = setup\<rparr>, w1)))"

definition srv_Context :: "Server \<Rightarrow> ctx" where
  "srv_Context r = s_ctx (srv_stream r)"

definition register ::
  "lib \<Rightarrow> loader \<Rightarrow> Server \<Rightarrow> ServiceDesc \<Rightarrow> nat \<Rightarrow> 'x world \<Rightarrow> 'x world outcome" where
  "register G load r serviceDesc impl w =
     (if srv_readers r > 0 then Blocks
      else case LoadServiceDesc load serviceDesc of
             Inl err \<Rightarrow> Panics (''totem: failed to load service descriptor: '' @ err_Error G err)
           | Inr reflectionDesc \<Rightarrow>
               add_handler (srv_controller r) (srv_Context r) reflectionDesc
                 (LocalInvoker (newLocalServiceInvoker impl serviceDesc
                    (Incoming (so_interceptors (srv_options r))) (so_metrics (srv_options r)) 0)) w)"

text \<open>\<open>satisfies\<close> is the check by reflection that \<open>impl\<close> implements the service.\<close>

definition RegisterService ::
  "lib \<Rightarrow> loader \<Rightarrow> Server \<Rightarrow> ServiceDesc \<Rightarrow> nat option \<Rightarrow> bool \<Rightarrow> 'x world \<Rightarrow> 'x world outcome" where
  "RegisterService G load r desc impl satisfies w =
     (case impl of
        Some i \<Rightarrow>
          if \<not> satisfies then
            Panics ''grpc: Server.RegisterService found the handler of a type that does not satisfy the service''
          else register G load r desc i w
      | None \<Rightarrow> Panics ''grpc: Server.RegisterService found nil service implementation'')"

subsection \<open>Splicing\<close>

text \<open>Whether a handler of the server is passed on to a spliced client.\<close>

definition shared_with_spliced :: "invoker ServiceHandler \<Rightarrow> bool" where
  "shared_with_spliced sh \<longleftrightarrow>
     sh_TopologyFlags sh AND TopologyLocal \<noteq> 0 \<and>
     (case sd_Visibility (Descriptor sh) of None \<Rightarrow> False | Some vis \<Rightarrow> SplicedClients vis)"

definition share_callback ::
  "nat \<Rightarrow> invoker ServiceHandler \<Rightarrow> 'x world outcome \<Rightarrow> bool \<times> 'x world outcome" where
  "share_callback ctrl sh s =
     (True, obind s (\<lambda>w. if shared_with_spliced sh then do_ctl ctrl (RegisterServiceHandler sh) w else Done w))"

text \<open>The range over the services of the server, in the order \<open>keys\<close>.\<close>

fun share_services ::
  "(string \<rightharpoonup> invoker ServiceHandlerList) \<Rightarrow> nat \<Rightarrow> string list \<Rightarrow> 'x world outcome \<Rightarrow> 'x world outcome" where
  "share_services services ctrl [] s = s"
| "share_services services ctrl (key # keys) s =
     share_services services ctrl keys
       (case services key of None \<Rightarrow> s | Some hs \<Rightarrow> snd (shl_Range (share_callback ctrl) hs s))"

fun add_handlers ::
  "nat \<Rightarrow> ctx \<Rightarrow> ServiceDescriptor list \<Rightarrow> invoker \<Rightarrow> 'x world \<Rightarrow> 'x world outcome" where
  "add_handlers k c [] iv w = Done w"
| "add_handlers k c (desc # descs) iv w = obind (add_handler k c desc iv w) (add_handlers k c descs iv)"

definition services_of :: "nat \<Rightarrow> 'x world \<Rightarrow> string \<rightharpoonup> invoker ServiceHandlerList" where
  "services_of k w = (case w_ctls w k of None \<Rightarrow> Map.empty | Some st \<Rightarrow> ctl_services st)"

definition splice_options :: "Server \<Rightarrow> ServerOption list \<Rightarrow> ServerOptions outcome" where
  "splice_options r opts =
     apply_options opts
       \<lparr>so_logger = None, so_name = so_name (srv_options r),
        so_discoveryHopLimit = so_discoveryHopLimit (srv_options r),
        so_interceptors = \<lparr>Incoming = None, Outgoing = None\<rparr>, so_metrics = so_metrics (srv_options r),
        so_tracerOptions = so_tracerOptions (srv_options r)\<rparr>"

text \<open>\<open>Splice\<close> up to the result of the discovery, then the whole of it.\<close>

definition splice_discover ::
  "lib \<Rightarrow> disc \<Rightarrow> loader \<Rightarrow> ('x world \<Rightarrow> 'x world) \<Rightarrow> Server \<Rightarrow> stream \<Rightarrow> ServerOption list \<Rightarrow> string \<Rightarrow>
   'x world \<Rightarrow> (nat \<times> (go_error + ServiceInfo) \<times> 'x world) outcome" where
  "splice_discover G D load envr r stream opts uuid w =
     obind (splice_options r opts) (\<lambda>options.
      if srv_readers r > 0 then Blocks
      else
        obind (NewStreamController G load stream uuid
                 (controller_options (so_logger (srv_options r)) options TopologySpliced) w)
          (\<lambda>(ctrl, w1).
        obind (share_services (services_of (srv_controller r) w1) ctrl
                 (d_keys D (services_of (srv_controller r) w1)) (Done w1)) (\<lambda>w2.
        obind (start_run ctrl w2) (\<lambda>w3.
        obind (discoverServices G D envr (srv_setupCtx r) ctrl (so_discoveryHopLimit (srv_options r)) w3)
          (\<lambda>(res, w4). Done (ctrl, res, w4))))))"

definition Splice ::
  "lib \<Rightarrow> disc \<Rightarrow> loader \<Rightarrow> ('x world \<Rightarrow> 'x world) \<Rightarrow> Server \<Rightarrow> stream \<Rightarrow> ServerOption list \<Rightarrow> string \<Rightarrow>
   'x world \<Rightarrow> (go_error option \<times> Server \<times> 'x world) outcome" where
  "Splice G D load envr r stream opts uuid w =
     obind (splice_discover G D load envr r stream opts uuid w) (\<lambda>(ctrl, res, w4).
       case res of
         Inl err \<Rightarrow> Done (Some (WrapError ''service discovery failed'' err), r, w4)
       | Inr info \<Rightarrow>
           (case w_ctls w4 ctrl of
              None \<Rightarrow> Panics ''nil pointer dereference''
            | Some st \<Rightarrow>
                obind (add_handlers (srv_controller r) (s_ctx stream) (Services info)
                         (ControllerInvoker (NewInvoker ctrl st)) w4) (\<lambda>w5.
                  Done (None, r\<lparr>srv_splicedControllers := srv_splicedControllers r @ [ctrl]\<rparr>, w5))))"

subsection \<open>Serving\<close>

text \<open>Discovered services are replicated to the spliced clients.\<close>

fun sync_spliced ::
  "nat list \<Rightarrow> ctx \<Rightarrow> ServiceDescriptor list \<Rightarrow> invoker \<Rightarrow> 'x world \<Rightarrow> 'x world outcome" where
  "sync_spliced [] c descs iv w = Done w"
| "sync_spliced (k # ks) c descs iv w = obind (add_handlers k c descs iv w) (sync_spliced ks c descs iv)"

definition close_controller ::
  "(nat \<Rightarrow> (go_error + RPC) list) \<Rightarrow> nat \<Rightarrow> 'x world \<Rightarrow> 'x world outcome" where
  "close_controller rs k w = obind (on_ctl k (CloseOrRecv (rs k)) w) (\<lambda>(_, w1). Done w1)"

text \<open>
  \<open>Serve\<close> up to its return; \<open>rs\<close> are the results of \<open>stream.Recv\<close> for \<open>CloseOrRecv\<close>. The
  channel has capacity two.
\<close>

definition Serve ::
  "lib \<Rightarrow> disc \<Rightarrow> ('x world \<Rightarrow> 'x world) \<Rightarrow> (nat \<Rightarrow> (go_error + RPC) list) \<Rightarrow> Server \<Rightarrow> 'x world \<Rightarrow>
   ((ClientConn option \<times> go_error option chan) \<times> Server \<times> 'x world) outcome" where
  "Serve G D envr rs r w =
     (let r1 = r\<lparr>srv_readers := Suc (srv_readers r)\<rparr>; k = srv_controller r; ch = make_chan 2 in
      obind (start_run k w) (\<lambda>w1.
      obind (discoverServices G D envr (srv_setupCtx r) k (so_discoveryHopLimit (srv_options r)) w1) (\<lambda>(res, w2).
        case res of
          Inl err \<Rightarrow>
            obind (do_ctl k (Kick (Some (WrapError ''service discovery failed'' err))) w2) (\<lambda>w3.
            obind (close_controller rs k (envr w3)) (\<lambda>w4.
            obind (chan_send (Some err) ch) (\<lambda>ch'. Done ((None, ch'), r1, w4))))
        | Inr info \<Rightarrow>
            (case w_ctls w2 k of
               None \<Rightarrow> Panics ''nil pointer dereference''
             | Some st \<Rightarrow>
                 obind (sync_spliced (srv_splicedControllers r) (srv_Context r) (Services info)
                          (ControllerInvoker (NewInvoker k st)) w2) (\<lambda>w3.
                   Done ((Some \<lparr>cc_controller = k, cc_interceptor = Outgoing (so_interceptors (srv_options r)),
                            cc_metrics = so_metrics (srv_options r)\<rparr>, ch), r1, w3))))))"

text \<open>The goroutine of \<open>Serve\<close> after \<open>Run\<close> returned \<open>runErr\<close>.\<close>

fun close_spliced ::
  "(nat \<Rightarrow> (go_error + RPC) list) \<Rightarrow> go_error option \<Rightarrow> nat list \<Rightarrow> 'x world \<Rightarrow> 'x world outcome" where
  "close_spliced rs runErr [] w = Done w"
| "close_spliced rs runErr (k # ks) w =
     obind (if runErr \<noteq> None then do_ctl k (Kick runErr) w else Done w) (\<lambda>w1.
     obind (close_controller rs k w1) (close_spliced rs runErr ks))"

definition serve_teardown ::
  "(nat \<Rightarrow> (go_error + RPC) list) \<Rightarrow> go_error option \<Rightarrow> go_error option chan \<Rightarrow> Server \<Rightarrow> 'x world \<Rightarrow>
   (go_error option chan \<times> Server \<times> 'x world) outcome" where
  "serve_teardown rs runErr ch r w =
     (let r1 = r\<lparr>srv_readers := srv_readers r - 1\<rparr> in
      if srv_readers r1 > 0 then Blocks
      else
        obind (close_spliced rs runErr (srv_splicedControllers r1) w) (\<lambda>w1.
        obind (close_controller rs (srv_controller r1) w1) (\<lambda>w2.
        obind (chan_send runErr ch) (\<lambda>ch'. Done (ch', r1, w2)))))"

text \<open>
  \<open>WaitErrOrTimeout\<close> on the channel of \<open>Serve\<close>: a select that takes either case when both
  are ready, as \<open>pick\<close> says; \<open>expired\<close> is whether the timer has fired.
\<close>

definition ErrTimeout :: go_error where
  "ErrTimeout = ErrorString ''timed out''"

definition WaitErrOrTimeout ::
  "bool \<Rightarrow> bool \<Rightarrow> go_error option chan \<Rightarrow> (go_error option \<times> go_error option chan) outcome" where
  "WaitErrOrTimeout pick expired errC =
     (let ready = chan_recv errC in
      if expired \<and> (ready = Blocks \<or> \<not> pick) then Done (Some ErrTimeout, errC)
      else obind ready (\<lambda>(v, errC'). Done (Option.bind v id, errC')))"

subsection \<open>The invariant of servers\<close>

text \<open>
  Every table of services is consistent: the lists obey their invariant, and under a name
  there are only well-formed handlers of that name, at addresses that have been allocated.
\<close>

definition list_ok :: "nat \<Rightarrow> string \<Rightarrow> 'i ServiceHandlerList \<Rightarrow> bool" where
  "list_ok n name hs \<longleftrightarrow>
     shl_inv hs \<and> (\<forall>h \<in> set (shl_data hs). handler_wf h \<and> sd_Name (Descriptor h) = name \<and> sh_ptr h < n)"

definition services_ok :: "'x world \<Rightarrow> bool" where
  "services_ok w \<longleftrightarrow>
     (\<forall>k st name hs. w_ctls w k = Some st \<longrightarrow> ctl_services st name = Some hs \<longrightarrow> list_ok (w_alloc w) name hs)"

definition server_wf :: "'x world \<Rightarrow> bool" where
  "server_wf w \<longleftrightarrow> world_ok w \<and> services_ok w \<and> dom (w_ctls w) \<subseteq> {..<w_alloc w}"

lemma list_ok_mono: "list_ok n name hs \<Longrightarrow> n \<le> m \<Longrightarrow> list_ok m name hs"
  by (auto simp: list_ok_def)

declare ctl_inv_services [simp]

text \<open>What the registration of a handler does.\<close>

lemma Register_Done:
  assumes "RegisterServiceHandler h st = Done st'"
  obtains hs where "st' = st\<lparr>ctl_services := (ctl_services st)(sd_Name (Descriptor h) \<mapsto> hs)\<rparr>"
    and "shl_data hs = handlers_of st (sd_Name (Descriptor h)) @ [h]"
    and "Append h (case ctl_services st (sd_Name (Descriptor h)) of None \<Rightarrow> empty_list | Some l \<Rightarrow> l) = Done hs"
  using assms hl.append_view
  by (fastforce simp: RegisterServiceHandler_def Let_def handlers_of_def empty_list_def split: option.splits)

lemma do_register:
  assumes "do_ctl k (RegisterServiceHandler h) w = Done w'"
  obtains st hs where "w_ctls w k = Some st"
    and "w' = w\<lparr>w_ctls := (w_ctls w)(k \<mapsto> st\<lparr>ctl_services := (ctl_services st)(sd_Name (Descriptor h) \<mapsto> hs)\<rparr>)\<rparr>"
    and "shl_data hs = handlers_of st (sd_Name (Descriptor h)) @ [h]"
    and "Append h (case ctl_services st (sd_Name (Descriptor h)) of None \<Rightarrow> empty_list | Some l \<Rightarrow> l) = Done hs"
proof -
  obtain st st' where st: "w_ctls w k = Some st" "RegisterServiceHandler h st = Done st'"
    "w' = w\<lparr>w_ctls := (w_ctls w)(k \<mapsto> st')\<rparr>"
    using assms by (auto simp: do_ctl_def on_ctl_def split: option.splits)
  with that Register_Done [OF st(2)] show ?thesis by metis
qed

lemma list_ok_Append:
  assumes "list_ok n name hs" and "Append h hs = Done hs'" and "handler_wf h" and "sd_Name (Descriptor h) = name"
    and "sh_ptr h < n" and "sh_ptr h \<notin> sh_ptr ` set (shl_data hs)"
  shows "list_ok n name hs'"
  using assms shl_inv_Append [OF _ assms(6,2)] hl.append_view [OF assms(2)] by (auto simp: list_ok_def)

lemma register_wf:
  assumes "server_wf w" and "do_ctl k (RegisterServiceHandler h) w = Done w'" and "handler_wf h"
    and "sh_ptr h < w_alloc w"
    and "\<And>st h'. w_ctls w k = Some st \<Longrightarrow> h' \<in> set (handlers_of st (sd_Name (Descriptor h))) \<Longrightarrow> sh_ptr h' \<noteq> sh_ptr h"
  shows "server_wf w'"
proof -
  let ?n = "sd_Name (Descriptor h)"
  obtain st hs where r: "w_ctls w k = Some st"
    "w' = w\<lparr>w_ctls := (w_ctls w)(k \<mapsto> st\<lparr>ctl_services := (ctl_services st)(?n \<mapsto> hs)\<rparr>)\<rparr>"
    "Append h (case ctl_services st ?n of None \<Rightarrow> empty_list | Some l \<Rightarrow> l) = Done hs"
    using do_register [OF assms(2)] by metis
  let ?l = "case ctl_services st ?n of None \<Rightarrow> empty_list | Some l \<Rightarrow> l"
  have "list_ok (w_alloc w) ?n ?l"
    using assms(1) r(1) by (auto simp: server_wf_def services_ok_def list_ok_def empty_list_def [symmetric]
        split: option.splits) (simp_all add: empty_list_def)
  moreover have "sh_ptr h \<notin> sh_ptr ` set (shl_data ?l)"
    using assms(5) [OF r(1)] by (force simp: handlers_of_def empty_list_def split: option.splits)
  ultimately have "list_ok (w_alloc w) ?n hs"
    using list_ok_Append [OF _ r(3) assms(3) refl assms(4)] by blast
  then show ?thesis
    using assms(1) r(1) unfolding r(2) server_wf_def
    by (auto simp: world_ok_def services_ok_def split: if_splits)
qed

lemma alloc_wf: "server_wf w \<Longrightarrow> w_alloc w \<le> n \<Longrightarrow> server_wf (w\<lparr>w_alloc := n\<rparr>)"
  unfolding server_wf_def world_ok_def services_ok_def by (simp, fastforce intro: list_ok_mono)

lemma ptr_below_alloc:
  assumes "server_wf w" and "w_ctls w k = Some st" and "h \<in> set (handlers_of st name)"
  shows "sh_ptr h < w_alloc w" and "sd_Name (Descriptor h) = name" and "handler_wf h"
proof -
  obtain hs where "ctl_services st name = Some hs" "h \<in> set (shl_data hs)"
    using assms(3) by (cases "ctl_services st name") (auto simp: handlers_of_def)
  with assms(1,2) have "list_ok (w_alloc w) name hs" by (auto simp: server_wf_def services_ok_def)
  with \<open>h \<in> set (shl_data hs)\<close> show "sh_ptr h < w_alloc w" "sd_Name (Descriptor h) = name" "handler_wf h"
    by (auto simp: list_ok_def)
qed

text \<open>What \<open>add_handler\<close> adds: a handler of the descriptor whose methods go to \<open>iv\<close>.\<close>

definition handler_for :: "ServiceDescriptor \<Rightarrow> ctx \<Rightarrow> invoker \<Rightarrow> invoker ServiceHandler \<Rightarrow> bool" where
  "handler_for desc c iv h \<longleftrightarrow>
     Descriptor h = desc \<and> controllerContext h = c \<and> sh_TopologyFlags h = invoker_TopologyFlags iv \<and>
     (\<forall>m. MethodInvokers h m = (if m \<in> md_Name ` set (sd_Method desc) then Some iv else None))"

lemma add_handler_Done:
  assumes "add_handler k c desc iv w = Done w'"
  obtains st hs h where "w_ctls w k = Some st" and "handler_for desc c iv h" and "handler_wf h"
    and "sh_ptr h = w_alloc w"
    and "w' = w\<lparr>w_alloc := Suc (w_alloc w),
           w_ctls := (w_ctls w)(k \<mapsto> st\<lparr>ctl_services := (ctl_services st)(sd_Name desc \<mapsto> hs)\<rparr>)\<rparr>"
    and "shl_data hs = handlers_of st (sd_Name desc) @ [h]"
    and "do_ctl k (RegisterServiceHandler h) (w\<lparr>w_alloc := Suc (w_alloc w)\<rparr>) = Done w'"
proof -
  obtain h where h: "NewDefaultServiceHandler invoker_TopologyFlags (w_alloc w) c desc iv = Done h"
    "do_ctl k (RegisterServiceHandler h) (w\<lparr>w_alloc := Suc (w_alloc w)\<rparr>) = Done w'"
    using assms by (auto simp: add_handler_def)
  note f = add_methods_fields [OF h(1) [unfolded NewDefaultServiceHandler_def]]
  have hf: "handler_for desc c iv h" "sh_ptr h = w_alloc w" using f by (auto simp: handler_for_def)
  have wf: "handler_wf h" "Descriptor h = desc" using NewDefaultServiceHandler_wf [OF h(1)] by auto
  obtain st hs where "w_ctls w k = Some st"
    "w' = w\<lparr>w_alloc := Suc (w_alloc w),
           w_ctls := (w_ctls w)(k \<mapsto> st\<lparr>ctl_services := (ctl_services st)(sd_Name desc \<mapsto> hs)\<rparr>)\<rparr>"
    "shl_data hs = handlers_of st (sd_Name desc) @ [h]"
    by (rule do_register [OF h(2)]) (simp add: wf(2))
  with that hf wf h(2) show ?thesis by blast
qed

lemma add_handler_wf:
  assumes "server_wf w" and "add_handler k c desc iv w = Done w'"
  shows "server_wf w'"
proof -
  obtain h where h: "handler_wf h" "sh_ptr h = w_alloc w"
    "do_ctl k (RegisterServiceHandler h) (w\<lparr>w_alloc := Suc (w_alloc w)\<rparr>) = Done w'"
    using add_handler_Done [OF assms(2)] by metis
  show ?thesis
  proof (rule register_wf [OF alloc_wf [OF assms(1), of "Suc (w_alloc w)"] h(3,1)])
    fix st h'
    assume "w_ctls (w\<lparr>w_alloc := Suc (w_alloc w)\<rparr>) k = Some st"
      "h' \<in> set (handlers_of st (sd_Name (Descriptor h)))"
    then have "sh_ptr h' < w_alloc w" using ptr_below_alloc(1) [OF assms(1)] by simp
    then show "sh_ptr h' \<noteq> sh_ptr h" using h(2) by simp
  qed (simp_all add: h(2))
qed

lemma add_handlers_wf:
  "server_wf w \<Longrightarrow> add_handlers k c descs iv w = Done w' \<Longrightarrow> server_wf w'"
  by (induction descs arbitrary: w) (auto dest: add_handler_wf)

lemma sync_spliced_wf:
  "server_wf w \<Longrightarrow> sync_spliced ks c descs iv w = Done w' \<Longrightarrow> server_wf w'"
  by (induction ks arbitrary: w) (auto dest: add_handlers_wf)

text \<open>The other goroutines keep the tables well formed and free no controller.\<close>

definition grows :: "'x world \<Rightarrow> 'x world \<Rightarrow> bool" where
  "grows w w' \<longleftrightarrow> dom (w_ctls w) \<subseteq> dom (w_ctls w')"

definition env_wf :: "('x world \<Rightarrow> 'x world) \<Rightarrow> bool" where
  "env_wf envr \<longleftrightarrow> (\<forall>w. server_wf w \<longrightarrow> server_wf (envr w) \<and> grows w (envr w))"

lemma grows_refl [simp]: "grows w w"
  by (simp add: grows_def)

lemma grows_trans [trans]: "grows w1 w2 \<Longrightarrow> grows w2 w3 \<Longrightarrow> grows w1 w3"
  by (auto simp: grows_def)

lemma on_ctl_grows: "on_ctl k f w = Done (a, w') \<Longrightarrow> grows w w'"
  by (auto simp: on_ctl_def grows_def split: option.splits)

lemma do_ctl_grows: "do_ctl k f w = Done w' \<Longrightarrow> grows w w'"
  by (auto simp: do_ctl_def intro: on_ctl_grows)

text \<open>
  The contract of operations on one controller that touch no table of services: they keep
  the invariant of the controller. Lifted to the world, they keep all tables well formed.
\<close>

locale table_keeping =
  fixes f :: "invoker StreamController \<Rightarrow> ('a \<times> invoker StreamController) outcome"
  assumes keeps: "ctl_inv st \<Longrightarrow> f st = Done (a, st') \<Longrightarrow> ctl_inv st' \<and> ctl_services st' = ctl_services st"
begin

lemma lifted_wf:
  assumes "server_wf w" and "on_ctl k f w = Done (a, w')"
  shows "server_wf w'"
proof -
  obtain st st' where st: "w_ctls w k = Some st" "f st = Done (a, st')"
    "w' = w\<lparr>w_ctls := (w_ctls w)(k \<mapsto> st')\<rparr>"
    using assms(2) by (auto simp: on_ctl_def split: option.splits)
  have "ctl_inv st" using assms(1) st(1) by (auto simp: server_wf_def world_ok_def)
  then have st': "ctl_inv st'" "ctl_services st' = ctl_services st" using keeps [OF _ st(2)] by blast+
  have "world_ok w'" using assms(1) st'(1) by (simp add: st(3) server_wf_def world_ok_def)
  moreover have "services_ok w'"
    using assms(1) st(1) st'(2) by (simp add: st(3) server_wf_def services_ok_def)
  moreover have "dom (w_ctls w') \<subseteq> {..<w_alloc w'}" using assms(1) st(1) by (auto simp: st(3) server_wf_def)
  ultimately show ?thesis by (simp add: server_wf_def)
qed

end

lemma send_or_kick_services:
  assumes "ctl_inv st" and "send_or_kick m st = Done st'"
  shows "ctl_services st' = ctl_services st"
proof -
  have "kick_ok (ctl_kickOnce st) (ctl_receiver st)" using assms(1) by (simp add: ctl_inv_def)
  then obtain s once w where
    "send_or_kick m st = Done (st\<lparr>ctl_stream := s, ctl_kickOnce := once, ctl_receiver := w\<rparr>)"
    using send_or_kick_Done [of st m] by metis
  with assms(2) show ?thesis by auto
qed

lemma Request_services:
  assumes "ctl_inv st" and "Request G c m st = Done (ch, m', st')"
  shows "ctl_inv st' \<and> ctl_services st' = ctl_services st"
proof -
  have s: "send_or_kick m' (with_call st) = Done st'" using assms(2) by (auto simp: Request_alt)
  have "ctl_services (with_call st) = ctl_services st" by (simp add: with_call_def)
  then show ?thesis
    using send_or_kick_services [OF ctl_inv_with_call [OF assms(1)] s] Request_keeps(2) [OF assms(2,1)] by simp
qed

lemma recv_future_services: "recv_future ch st = Done (v, st') \<Longrightarrow> ctl_services st' = ctl_services st"
  by (auto simp: recv_future_def split: option.splits)

lemma ctl_inv_kick:
  "ctl_inv (st\<lparr>ctl_kickOnce := b, ctl_receiver := v\<rparr>) \<longleftrightarrow> futures_ok st \<and> pending_ok st \<and> kick_ok b v"
  by (simp add: ctl_inv_def futures_ok_def pending_ok_def)

text \<open>The operations that servers use: the start of a controller, requests, kicks and closing.\<close>

interpretation run: table_keeping "\<lambda>st. obind (obind (Start (ctl_receiver st)) (\<lambda>r. Done (st\<lparr>ctl_receiver := r\<rparr>))) (\<lambda>st'. Done ((), st'))"
  by unfold_locales
    (auto simp: Start_def ctl_inv_def futures_ok_def pending_ok_def kick_ok_def split: if_splits)

interpretation req: table_keeping
  "\<lambda>st. obind (Request G c (discovery_message D (ctl_uuid st) hops) st) (\<lambda>(respC, _, st'). Done (respC, st'))" for G c D hops
  by unfold_locales (auto dest: Request_services)

interpretation fut: table_keeping "recv_future ch" for ch
  by unfold_locales (blast intro: recv_future_inv recv_future_services)

interpretation kick: table_keeping "\<lambda>st. obind (Kick (Some e) st) (\<lambda>st'. Done ((), st'))" for e
proof
  fix st :: "invoker StreamController" and a st'
  assume i: "ctl_inv st" and k: "obind (Kick (Some e) st) (\<lambda>st'. Done ((), st')) = Done (a, st')"
  then obtain v where "Kick (Some e) st = Done (st\<lparr>ctl_kickOnce := True, ctl_receiver := v\<rparr>)" "kick_ok True v"
    using Kick_Done [of st e] by (auto simp: ctl_inv_def)
  with i k show "ctl_inv st' \<and> ctl_services st' = ctl_services st"
    using ctl_inv_kick [where st = st and b = True and v = v] by (auto simp: ctl_inv_def)
qed

interpretation close: table_keeping "CloseOrRecv rs" for rs
  by unfold_locales
    (auto simp: CloseOrRecv_def Let_def ctl_inv_def futures_ok_def pending_ok_def
      split: stream_kind.splits option.splits)

lemma start_run_wf: "server_wf w \<Longrightarrow> start_run k w = Done w' \<Longrightarrow> server_wf w'"
  using run.lifted_wf by (auto simp: start_run_def do_ctl_def)

lemma Kick_wf: "server_wf w \<Longrightarrow> do_ctl k (Kick (Some e)) w = Done w' \<Longrightarrow> server_wf w'"
  using kick.lifted_wf by (auto simp: do_ctl_def)

lemma close_controller_wf: "server_wf w \<Longrightarrow> close_controller rs k w = Done w' \<Longrightarrow> server_wf w'"
  using close.lifted_wf by (auto simp: close_controller_def)

lemma close_spliced_wf:
  "server_wf w \<Longrightarrow> close_spliced rs e ks w = Done w' \<Longrightarrow> server_wf w'"
proof (induction ks arbitrary: w)
  case Nil
  then show ?case by simp
next
  case (Cons k ks)
  then obtain w1 w2 where w: "(if e \<noteq> None then do_ctl k (Kick e) w else Done w) = Done w1"
    "close_controller rs k w1 = Done w2" "close_spliced rs e ks w2 = Done w'"
    by (auto simp del: not_None_eq)
  have "server_wf w1" using w(1) Cons.prems(1) Kick_wf by (cases e) auto
  then show ?case using close_controller_wf [OF _ w(2)] Cons.IH [OF _ w(3)] by blast
qed

lemma discoverServices_wf:
  assumes "env_wf envr" and "server_wf w" and "discoverServices G D envr c k hops w = Done (r, w')"
  shows "server_wf w'" and "grows w w'"
proof -
  obtain ch w1 v where 1: "on_ctl k (\<lambda>st. obind (Request G c (discovery_message D (ctl_uuid st) hops) st)
              (\<lambda>(respC, _, st'). Done (respC, st'))) w = Done (ch, w1)"
    and 2: "on_ctl k (recv_future ch) (envr w1) = Done (v, w')"
    using assms(3) by (auto simp: discoverServices_def)
  have "server_wf w1"
    by (rule req.lifted_wf [OF assms(2) 1])
  then have e: "server_wf (envr w1)" "grows w1 (envr w1)" using assms(1) by (simp_all add: env_wf_def)
  show "server_wf w'"
    by (rule fut.lifted_wf [OF e(1) 2])
  show "grows w w'" using on_ctl_grows [OF 1] e(2) on_ctl_grows [OF 2] by (blast intro: grows_trans)
qed

lemma NewStreamController_wf:
  assumes "server_wf w" and "NewStreamController G load s u op w = Done (k, w')"
  shows "server_wf w'" and "k = w_alloc w" and "dom (w_ctls w') = insert k (dom (w_ctls w))"
    and "\<And>j. j \<noteq> k \<Longrightarrow> w_ctls w' j = w_ctls w j"
    and "\<And>st h name. w_ctls w' k = Some st \<Longrightarrow> h \<in> set (handlers_of st name) \<Longrightarrow> w_alloc w \<le> sh_ptr h"
proof -
  obtain known rw where r: "newRecvWrapper (s_id s) (w_known w) = Done (known, rw)"
    using assms(2) by (auto simp: NewStreamController_def)
  obtain desc where desc: "LoadServiceDesc load ServerReflection_ServiceDesc = Inr desc"
    using assms(2) r by (cases "LoadServiceDesc load ServerReflection_ServiceDesc")
      (simp_all add: NewStreamController_def Let_def)
  have k: "k = w_alloc w" using assms(2) r desc by (auto simp: NewStreamController_def Let_def)
  let ?st = "new_controller s rw u (sco_Name op) (sco_BaseTopologyFlags op) :: invoker StreamController"
  define w1 where w1: "w1 = w\<lparr>w_known := known, w_alloc := Suc k, w_ctls := (w_ctls w)(k \<mapsto> ?st)\<rparr>"
  obtain w2 where a1: "add_handler k (s_ctx s) desc
      (LocalInvoker (newLocalServiceInvoker k ServerReflection_ServiceDesc None (sco_Metrics op)
        (sco_BaseTopologyFlags op))) w1 = Done w2"
    and a2: "add_handler k (s_ctx s) desc (ControllerInvoker (NewInvoker k ?st)) w2 = Done w'"
    using assms(2) r desc k by (auto simp: NewStreamController_def Let_def w1)
  have "ctl_inv ?st" by (rule ctl_inv_new [OF kick_ok_new [OF r]])
  then have "world_ok w1" using assms(1) by (simp add: w1 k server_wf_def world_ok_def)
  moreover have "services_ok w1"
    using assms(1) list_ok_mono [of "w_alloc w" _ _ "Suc (w_alloc w)"]
    by (simp add: w1 k server_wf_def services_ok_def new_controller_def) blast
  moreover have "dom (w_ctls w1) \<subseteq> {..<w_alloc w1}" using assms(1) by (auto simp: w1 k server_wf_def)
  ultimately have wf1: "server_wf w1" by (simp add: server_wf_def)
  show "server_wf w'" by (rule add_handler_wf [OF add_handler_wf [OF wf1 a1] a2])
  show "k = w_alloc w" by (rule k)
  obtain st1 hs1 h1 where 1: "w_ctls w1 k = Some st1" "sh_ptr h1 = w_alloc w1"
    "w2 = w1\<lparr>w_alloc := Suc (w_alloc w1),
           w_ctls := (w_ctls w1)(k \<mapsto> st1\<lparr>ctl_services := (ctl_services st1)(sd_Name desc \<mapsto> hs1)\<rparr>)\<rparr>"
    "shl_data hs1 = handlers_of st1 (sd_Name desc) @ [h1]" using add_handler_Done [OF a1] by metis
  obtain st2 hs2 h2 where 2: "w_ctls w2 k = Some st2" "sh_ptr h2 = w_alloc w2"
    "w' = w2\<lparr>w_alloc := Suc (w_alloc w2),
           w_ctls := (w_ctls w2)(k \<mapsto> st2\<lparr>ctl_services := (ctl_services st2)(sd_Name desc \<mapsto> hs2)\<rparr>)\<rparr>"
    "shl_data hs2 = handlers_of st2 (sd_Name desc) @ [h2]" using add_handler_Done [OF a2] by metis
  show "dom (w_ctls w') = insert k (dom (w_ctls w))" using 1 2 w1 by auto
  show "w_ctls w' j = w_ctls w j" if "j \<noteq> k" for j using that 1 2 w1 by simp
  have n: "ctl_services st1 = Map.empty" using 1(1) w1 by (auto simp: new_controller_def)
  have st2: "st2 = st1\<lparr>ctl_services := [sd_Name desc \<mapsto> hs1]\<rparr>" using 1(3) 2(1) n by simp
  show "w_alloc w \<le> sh_ptr h"
    if "w_ctls w' k = Some st" "h \<in> set (handlers_of st name)" for st h name
    using that 1(2,3,4) 2(2,3,4) w1 k st2 n
    by (auto simp: handlers_of_def split: if_splits)
qed

subsection \<open>Sharing local services with spliced clients\<close>

text \<open>
  The state of the loops of \<open>Splice\<close>: the keys still to visit, and among the handlers of
  their lists those not yet registered with the new controller \<open>k\<close> are not in its table.
\<close>

definition share_ok :: "nat \<Rightarrow> invoker ServiceHandler list \<Rightarrow> 'x world \<Rightarrow> bool" where
  "share_ok k hs w \<longleftrightarrow>
     server_wf w \<and> k \<in> dom (w_ctls w) \<and>
     distinct (map (\<lambda>h. (sd_Name (Descriptor h), sh_ptr h)) hs) \<and>
     (\<forall>h \<in> set hs. handler_wf h \<and> sh_ptr h < w_alloc w \<and>
        (\<forall>st h'. w_ctls w k = Some st \<longrightarrow> h' \<in> set (handlers_of st (sd_Name (Descriptor h))) \<longrightarrow>
           sh_ptr h' \<noteq> sh_ptr h))"

definition shared_table ::
  "(string \<Rightarrow> invoker ServiceHandler list) \<Rightarrow> invoker ServiceHandler list \<Rightarrow> string \<Rightarrow> invoker ServiceHandler list" where
  "shared_table t hs name =
     t name @ filter (\<lambda>h. shared_with_spliced h \<and> sd_Name (Descriptor h) = name) hs"

text \<open>A world that differs in the table of services of controller \<open>k\<close> only.\<close>

definition table_changed :: "nat \<Rightarrow> 'x world \<Rightarrow> 'x world \<Rightarrow> bool" where
  "table_changed k w w' \<longleftrightarrow>
     w_alloc w' = w_alloc w \<and> dom (w_ctls w') = dom (w_ctls w) \<and> (\<forall>j. j \<noteq> k \<longrightarrow> w_ctls w' j = w_ctls w j)"

definition table_of :: "nat \<Rightarrow> 'x world \<Rightarrow> string \<Rightarrow> invoker ServiceHandler list" where
  "table_of k w name = (case w_ctls w k of None \<Rightarrow> [] | Some st \<Rightarrow> handlers_of st name)"

lemma table_changed_trans: "table_changed k w w1 \<Longrightarrow> table_changed k w1 w2 \<Longrightarrow> table_changed k w w2"
  by (auto simp: table_changed_def)

lemma table_changed_refl [simp]: "table_changed k w w"
  by (simp add: table_changed_def)

lemma share_one:
  assumes "share_ok k (h # hs) w" and "do_ctl k (RegisterServiceHandler h) w = Done w'"
  shows "share_ok k hs w'" and "table_changed k w w'"
    and "table_of k w' = (table_of k w)(sd_Name (Descriptor h) := table_of k w (sd_Name (Descriptor h)) @ [h])"
proof -
  let ?n = "sd_Name (Descriptor h)"
  have wf: "server_wf w'"
    by (rule register_wf [OF _ assms(2)]) (use assms(1) in \<open>auto simp: share_ok_def\<close>)
  obtain st l where r: "w_ctls w k = Some st"
    "w' = w\<lparr>w_ctls := (w_ctls w)(k \<mapsto> st\<lparr>ctl_services := (ctl_services st)(?n \<mapsto> l)\<rparr>)\<rparr>"
    "shl_data l = handlers_of st ?n @ [h]"
    using do_register [OF assms(2)] by metis
  have t: "handlers_of (st\<lparr>ctl_services := (ctl_services st)(?n \<mapsto> l)\<rparr>) =
      (handlers_of st)(?n := handlers_of st ?n @ [h])"
    using r(3) by (auto simp: handlers_of_def fun_eq_iff)
  show "table_of k w' = (table_of k w)(?n := table_of k w ?n @ [h])"
    using r(1,2) t by (auto simp: table_of_def fun_eq_iff)
  show "table_changed k w w'" using r(1,2) by (auto simp: table_changed_def)
  show "share_ok k hs w'"
    unfolding share_ok_def
  proof (intro conjI ballI allI impI)
    fix g st' h'
    assume g: "g \<in> set hs" "w_ctls w' k = Some st'"
      and h': "h' \<in> set (handlers_of st' (sd_Name (Descriptor g)))"
    have "(?n, sh_ptr h) \<noteq> (sd_Name (Descriptor g), sh_ptr g)"
      using assms(1) g(1) by (force simp: share_ok_def)
    moreover have "\<forall>h' \<in> set (handlers_of st (sd_Name (Descriptor g))). sh_ptr h' \<noteq> sh_ptr g"
      using assms(1) g(1) r(1) by (auto simp: share_ok_def)
    ultimately show "sh_ptr h' \<noteq> sh_ptr g"
      using h' g(2) r(2) t by (auto split: if_splits)
  qed (use assms(1) wf r(1,2) in \<open>auto simp: share_ok_def\<close>)
qed

lemma share_ok_tl: "share_ok k (h # hs) w \<Longrightarrow> share_ok k hs w"
  by (auto simp: share_ok_def)

lemma share_callback_Done:
  "share_callback k h (Done w) =
     (True, if shared_with_spliced h then do_ctl k (RegisterServiceHandler h) w else Done w)"
  by (simp add: share_callback_def)

lemma share_callback_stuck [simp]:
  "range_loop (share_callback k) hs (Panics p) = (True, Panics p)"
  "range_loop (share_callback k) hs Blocks = (True, Blocks)"
  by (induction hs) (simp_all add: share_callback_def)

lemma share_range:
  assumes "share_ok k (hs @ rest) w" and "snd (range_loop (share_callback k) hs (Done w)) = Done w'"
  shows "share_ok k rest w' \<and> table_changed k w w' \<and> table_of k w' = shared_table (table_of k w) hs"
  using assms
proof (induction hs arbitrary: w)
  case Nil
  then show ?case by (simp add: shared_table_def)
next
  case (Cons h hs)
  show ?case
  proof (cases "shared_with_spliced h")
    case False
    with Cons.prems(2) have "snd (range_loop (share_callback k) hs (Done w)) = Done w'"
      by (simp add: share_callback_Done)
    then show ?thesis
      using Cons.IH [of w] share_ok_tl Cons.prems(1) False by (auto simp: shared_table_def fun_eq_iff)
  next
    case True
    obtain w1 where w1: "do_ctl k (RegisterServiceHandler h) w = Done w1"
      using Cons.prems(2) True
      by (cases "do_ctl k (RegisterServiceHandler h) w") (simp_all add: share_callback_Done)
    with Cons.prems(2) True have r: "snd (range_loop (share_callback k) hs (Done w1)) = Done w'"
      by (simp add: share_callback_Done)
    note s = share_one [OF Cons.prems(1) [simplified] w1]
    from Cons.IH [OF s(1) r] s(2,3) True show ?thesis
      by (auto simp: shared_table_def fun_eq_iff intro: table_changed_trans)
  qed
qed

lemma share_range_append:
  "snd (range_loop (share_callback k) (hs @ hs') s) =
   snd (range_loop (share_callback k) hs' (snd (range_loop (share_callback k) hs s)))"
  by (induction hs arbitrary: s) (simp_all add: share_callback_def)

definition all_handlers :: "(string \<rightharpoonup> invoker ServiceHandlerList) \<Rightarrow> string list \<Rightarrow> invoker ServiceHandler list" where
  "all_handlers services keys =
     concat (map (\<lambda>key. case services key of None \<Rightarrow> [] | Some hs \<Rightarrow> shl_data hs) keys)"

lemma share_services_eq:
  "share_services services k keys s = snd (range_loop (share_callback k) (all_handlers services keys) s)"
  by (induction keys arbitrary: s)
    (auto simp: all_handlers_def share_range_append shl_Range_def split: option.splits)

lemma all_handlers_distinct:
  assumes ok: "\<And>name hs. services name = Some hs \<Longrightarrow> list_ok n name hs" and "distinct ks"
  shows "distinct (map (\<lambda>h. (sd_Name (Descriptor h), sh_ptr h)) (all_handlers services ks))"
  using assms(2)
proof (induction ks)
  case Nil
  then show ?case by (simp add: all_handlers_def)
next
  case (Cons key ks)
  show ?case
  proof (cases "services key")
    case None
    with Cons show ?thesis by (simp add: all_handlers_def)
  next
    case (Some hs)
    have "list_ok n key hs" by (rule ok [OF Some])
    then have l: "distinct (map sh_ptr (shl_data hs))" "\<forall>h \<in> set (shl_data hs). sd_Name (Descriptor h) = key"
      by (auto simp: list_ok_def shl_inv_def)
    then have "distinct (map (\<lambda>h. (sd_Name (Descriptor h), sh_ptr h)) (shl_data hs))"
      by (auto simp: distinct_map inj_on_def)
    moreover have "sd_Name (Descriptor h) \<noteq> key" if h: "h \<in> set (all_handlers services ks)" for h
    proof -
      obtain key' hs' where "key' \<in> set ks" "services key' = Some hs'" "h \<in> set (shl_data hs')"
        using h by (auto simp: all_handlers_def split: option.splits) (metis option.inject)
      moreover from this ok have "sd_Name (Descriptor h) = key'" by (auto simp: list_ok_def)
      ultimately show ?thesis using Cons.prems by auto
    qed
    ultimately show ?thesis using Cons l(2) by (fastforce simp: all_handlers_def Some)
  qed
qed

text \<open>Before the loops, the new controller has handlers at fresh addresses only.\<close>

lemma share_ok_start:
  assumes "server_wf w" and "NewStreamController G load s u op w = Done (k, w1)" and "j \<in> dom (w_ctls w)"
    and "distinct keys"
  shows "share_ok k (all_handlers (services_of j w1) keys) w1"
proof -
  note nsc = NewStreamController_wf [OF assms(1,2)]
  have jk: "j \<noteq> k" using assms(1,3) nsc(2) by (auto simp: server_wf_def)
  then have j: "w_ctls w1 j = w_ctls w j" by (rule nsc(4))
  obtain st where st: "w_ctls w j = Some st" using assms(3) by blast
  have so: "services_of j w1 = ctl_services st" by (simp add: services_of_def j st)
  have ok: "list_ok (w_alloc w) name hs" if "ctl_services st name = Some hs" for name hs
    using assms(1) st that by (auto simp: server_wf_def services_ok_def)
  have mem: "\<exists>key hs. ctl_services st key = Some hs \<and> h \<in> set (shl_data hs)"
    if "h \<in> set (all_handlers (ctl_services st) keys)" for h
    using that by (force simp: all_handlers_def split: option.splits)
  have "distinct (map (\<lambda>h. (sd_Name (Descriptor h), sh_ptr h)) (all_handlers (ctl_services st) keys))"
    by (rule all_handlers_distinct [OF ok assms(4)])
  moreover have "handler_wf h \<and> sh_ptr h < w_alloc w" if "h \<in> set (all_handlers (ctl_services st) keys)" for h
    using mem [OF that] ok by (fastforce simp: list_ok_def)
  moreover have "w_alloc w \<le> w_alloc w1" using nsc(1,2,3) by (auto simp: server_wf_def)
  ultimately show ?thesis
    using nsc(1,3,5) unfolding share_ok_def so by fastforce
qed

end
