(* ===== verification/Splicing.thy ===== *)
theory Splicing
  imports Server
begin

text \<open>
  The properties of server.go: every operation of a server keeps the tables of services
  well formed; what \<open>Splice\<close> registers with the new controller and with the controller of
  the server; which options it ignores; which peers end the process; and that the channel
  that \<open>Serve\<close> returns is large enough.
\<close>

subsection \<open>Handlers added for discovered services\<close>

definition unchanged_but :: "nat \<Rightarrow> 'x world \<Rightarrow> 'x world \<Rightarrow> bool" where
  "unchanged_but k w w' \<longleftrightarrow> dom (w_ctls w') = dom (w_ctls w) \<and> (\<forall>j. j \<noteq> k \<longrightarrow> w_ctls w' j = w_ctls w j)"

lemma add_handler_table:
  assumes "add_handler k c desc iv w = Done w'"
  obtains h where "handler_for desc c iv h" and "unchanged_but k w w'"
    and "table_of k w' = (table_of k w)(sd_Name desc := table_of k w (sd_Name desc) @ [h])"
proof -
  obtain st hs h where a: "w_ctls w k = Some st" "handler_for desc c iv h"
    "w' = w\<lparr>w_alloc := Suc (w_alloc w),
           w_ctls := (w_ctls w)(k \<mapsto> st\<lparr>ctl_services := (ctl_services st)(sd_Name desc \<mapsto> hs)\<rparr>)\<rparr>"
    "shl_data hs = handlers_of st (sd_Name desc) @ [h]" using add_handler_Done [OF assms] by metis
  show thesis
  proof (rule that [OF a(2)])
    show "unchanged_but k w w'" using a(1,3) by (auto simp: unchanged_but_def)
    show "table_of k w' = (table_of k w)(sd_Name desc := table_of k w (sd_Name desc) @ [h])"
      using a(1,3,4) by (auto simp: table_of_def handlers_of_def fun_eq_iff)
  qed
qed

lemma add_handlers_table:
  assumes "add_handlers k c descs iv w = Done w'"
  shows "\<exists>hs. list_all2 (\<lambda>d h. handler_for d c iv h) descs hs \<and> unchanged_but k w w' \<and>
           (\<forall>name. table_of k w' name = table_of k w name @ filter (\<lambda>h. sd_Name (Descriptor h) = name) hs)"
  using assms
proof (induction descs arbitrary: w)
  case Nil
  then show ?case by (simp add: unchanged_but_def)
next
  case (Cons d descs)
  then obtain w1 where w1: "add_handler k c d iv w = Done w1" "add_handlers k c descs iv w1 = Done w'" by auto
  obtain h where h: "handler_for d c iv h" "unchanged_but k w w1"
    "table_of k w1 = (table_of k w)(sd_Name d := table_of k w (sd_Name d) @ [h])"
    by (rule add_handler_table [OF w1(1)])
  obtain hs where hs: "list_all2 (\<lambda>d h. handler_for d c iv h) descs hs" "unchanged_but k w1 w'"
    "\<And>name. table_of k w' name = table_of k w1 name @ filter (\<lambda>h. sd_Name (Descriptor h) = name) hs"
    using Cons.IH [OF w1(2)] by blast
  have "Descriptor h = d" using h(1) by (simp add: handler_for_def)
  then show ?case
    using h hs by (intro exI [where x = "h # hs"]) (auto simp: unchanged_but_def)
qed

text \<open>\<open>gets_handlers k c descs iv w w'\<close>: the table of \<open>k\<close> has got one handler for each descriptor.\<close>

definition gets_handlers ::
  "nat \<Rightarrow> ctx \<Rightarrow> ServiceDescriptor list \<Rightarrow> invoker \<Rightarrow> 'x world \<Rightarrow> 'x world \<Rightarrow> bool" where
  "gets_handlers k c descs iv w w' \<longleftrightarrow>
     (\<exists>hs. list_all2 (\<lambda>d h. handler_for d c iv h) descs hs \<and>
        (\<forall>name. table_of k w' name = table_of k w name @ filter (\<lambda>h. sd_Name (Descriptor h) = name) hs))"

lemma table_of_cong: "w_ctls w' k = w_ctls w k \<Longrightarrow> table_of k w' = table_of k w"
  by (simp add: table_of_def fun_eq_iff)

lemma sync_spliced_tables:
  assumes "sync_spliced ks c descs iv w = Done w'" and "distinct ks"
  shows "(\<forall>k \<in> set ks. gets_handlers k c descs iv w w') \<and> (\<forall>j. j \<notin> set ks \<longrightarrow> w_ctls w' j = w_ctls w j)"
  using assms
proof (induction ks arbitrary: w)
  case (Cons k ks)
  then obtain w1 where w1: "add_handlers k c descs iv w = Done w1" "sync_spliced ks c descs iv w1 = Done w'" by auto
  have k: "gets_handlers k c descs iv w w1" "\<forall>j. j \<noteq> k \<longrightarrow> w_ctls w1 j = w_ctls w j"
    using add_handlers_table [OF w1(1)] by (auto simp: gets_handlers_def unchanged_but_def)
  have r: "\<forall>k \<in> set ks. gets_handlers k c descs iv w1 w'" "\<forall>j. j \<notin> set ks \<longrightarrow> w_ctls w' j = w_ctls w1 j"
    using Cons.IH [OF w1(2)] Cons.prems(2) by auto
  have "table_of k w' = table_of k w1" using r(2) Cons.prems(2) by (intro table_of_cong) simp
  then have "gets_handlers k c descs iv w w'" using k(1) by (simp add: gets_handlers_def)
  moreover have "gets_handlers j c descs iv w w'" if j: "j \<in> set ks" for j
  proof -
    have "table_of j w1 = table_of j w" using k(2) j Cons.prems(2) by (intro table_of_cong) auto
    then show ?thesis using bspec [OF r(1) j] by (simp add: gets_handlers_def)
  qed
  ultimately show ?case using k(2) r(2) by auto
qed simp

text \<open>A descriptor that differs from the registered ones of its name.\<close>

lemma add_handlers_conflict:
  assumes "add_handlers k c descs iv w = Done w'" and "desc \<in> set descs" and "h \<in> set (table_of k w (sd_Name desc))"
  shows "Descriptor h = desc"
  using assms
proof (induction descs arbitrary: w)
  case (Cons d descs)
  then obtain w1 where w1: "add_handler k c d iv w = Done w1" "add_handlers k c descs iv w1 = Done w'" by auto
  obtain g where g: "handler_for d c iv g"
    "table_of k w1 = (table_of k w)(sd_Name d := table_of k w (sd_Name d) @ [g])"
    using add_handler_table [OF w1(1)] by metis
  show ?case
  proof (cases "desc = d")
    case True
    obtain f where f: "NewDefaultServiceHandler invoker_TopologyFlags (w_alloc w) c d iv = Done f"
      "do_ctl k (RegisterServiceHandler f) (w\<lparr>w_alloc := Suc (w_alloc w)\<rparr>) = Done w1"
      using w1(1) by (auto simp: add_handler_def)
    have d: "Descriptor f = d" using NewDefaultServiceHandler_wf [OF f(1)] by simp
    obtain st hs where s: "w_ctls w k = Some st"
      "Append f (case ctl_services st (sd_Name d) of None \<Rightarrow> empty_list | Some l \<Rightarrow> l) = Done hs"
      by (rule do_register [OF f(2)]) (simp add: d)
    then show ?thesis
      using Cons.prems(3) True d
      by (auto simp: table_of_def handlers_of_def Append_def list_ex_iff split: option.splits if_splits)
  next
    case False
    then have "desc \<in> set descs" "h \<in> set (table_of k w1 (sd_Name desc))"
      using Cons.prems g(2) by auto
    then show ?thesis by (rule Cons.IH [OF w1(2)])
  qed
qed simp

lemma obind_Blocks_iff: "obind x f = Blocks \<longleftrightarrow> x = Blocks \<or> (\<exists>a. x = Done a \<and> f a = Blocks)"
  by (cases x) auto

lemma Register_not_Blocks: "RegisterServiceHandler h st \<noteq> Blocks"
  by (simp add: RegisterServiceHandler_def Let_def Append_def)

lemma add_handler_not_Blocks: "add_handler k c desc iv w \<noteq> Blocks"
proof -
  have "add_methods iv ms h \<noteq> Blocks" for ms h
    by (induction ms arbitrary: h) (auto simp: add_method_def Let_def split: option.splits)
  moreover have "do_ctl k (RegisterServiceHandler h) v \<noteq> Blocks" for h and v :: "'a world"
    unfolding do_ctl_def on_ctl_def
    by (auto simp: obind_Blocks_iff Register_not_Blocks split: option.splits)
  ultimately show ?thesis
    unfolding add_handler_def NewDefaultServiceHandler_def by (auto simp: obind_Blocks_iff)
qed

lemma add_handlers_not_Blocks: "add_handlers k c descs iv w \<noteq> Blocks"
proof (induction descs arbitrary: w)
  case (Cons d descs)
  then show ?case using add_handler_not_Blocks [of k c d iv w] by (cases "add_handler k c d iv w") auto
qed simp

subsection \<open>The steps of Splice\<close>

lemma splice_discover_Done:
  assumes "splice_discover G D load envr r s opts u w = Done (k, res, w4)"
  obtains o1 w1 w2 w3 where "splice_options r opts = Done o1"
    and "NewStreamController G load s u (controller_options (so_logger (srv_options r)) o1 TopologySpliced) w = Done (k, w1)"
    and "share_services (services_of (srv_controller r) w1) k (d_keys D (services_of (srv_controller r) w1)) (Done w1) =
           Done w2"
    and "start_run k w2 = Done w3"
    and "discoverServices G D envr (srv_setupCtx r) k (so_discoveryHopLimit (srv_options r)) w3 = Done (res, w4)"
  using assms by (auto simp: splice_discover_def split: if_splits)

lemma Splice_Done:
  assumes "Splice G D load envr r s opts u w = Done (res, r', w')"
  obtains (failed) k err w4 where "splice_discover G D load envr r s opts u w = Done (k, Inl err, w4)"
      and "res = Some (WrapError ''service discovery failed'' err)" and "r' = r" and "w' = w4"
  | (spliced) k info w4 st where "splice_discover G D load envr r s opts u w = Done (k, Inr info, w4)"
      and "w_ctls w4 k = Some st" and "res = None"
      and "add_handlers (srv_controller r) (s_ctx s) (Services info) (ControllerInvoker (NewInvoker k st)) w4 = Done w'"
      and "r' = r\<lparr>srv_splicedControllers := srv_splicedControllers r @ [k]\<rparr>"
proof -
  obtain k out w4 where d: "splice_discover G D load envr r s opts u w = Done (k, out, w4)"
    using assms by (auto simp: Splice_def)
  show thesis
  proof (cases out)
    case (Inl err)
    have "res = Some (WrapError ''service discovery failed'' err)" "r' = r" "w' = w4"
      using assms by (simp_all add: Splice_def d Inl)
    then show thesis by (rule failed [OF d [unfolded Inl]])
  next
    case (Inr info)
    obtain st where st: "w_ctls w4 k = Some st"
      using assms d Inr by (cases "w_ctls w4 k") (simp_all add: Splice_def)
    then have "obind (add_handlers (srv_controller r) (s_ctx s) (Services info) (ControllerInvoker (NewInvoker k st)) w4)
        (\<lambda>w5. Done (None, r\<lparr>srv_splicedControllers := srv_splicedControllers r @ [k]\<rparr>, w5)) = Done (res, r', w')"
      using assms by (simp add: Splice_def d Inr)
    then have "add_handlers (srv_controller r) (s_ctx s) (Services info) (ControllerInvoker (NewInvoker k st)) w4 = Done w'"
      "res = None" "r' = r\<lparr>srv_splicedControllers := srv_splicedControllers r @ [k]\<rparr>" by auto
    then show thesis using spliced [OF d [unfolded Inr] st] by blast
  qed
qed

lemma share_services_spliced:
  assumes "server_wf w" and "NewStreamController G load s u op w = Done (k, w1)" and "j \<in> dom (w_ctls w)"
    and "distinct keys" and "share_services (services_of j w1) k keys (Done w1) = Done w2"
  shows "server_wf w2" and "table_changed k w1 w2"
    and "table_of k w2 = shared_table (table_of k w1) (all_handlers (services_of j w1) keys)"
proof -
  note s = share_ok_start [OF assms(1,2,3,4)]
  have "share_ok k [] w2 \<and> table_changed k w1 w2 \<and>
      table_of k w2 = shared_table (table_of k w1) (all_handlers (services_of j w1) keys)"
    by (rule share_range) (use s assms(5) in \<open>simp_all add: share_services_eq\<close>)
  then show "server_wf w2" "table_changed k w1 w2"
    "table_of k w2 = shared_table (table_of k w1) (all_handlers (services_of j w1) keys)"
    by (simp_all add: share_ok_def)
qed

lemma splice_discover_wf:
  assumes "server_wf w" and "env_wf envr" and "\<And>m. distinct (d_keys D m)" and "srv_controller r \<in> dom (w_ctls w)"
    and "splice_discover G D load envr r s opts u w = Done (k, res, w4)"
  shows "server_wf w4" and "k = w_alloc w" and "grows w w4" and "k \<in> dom (w_ctls w4)"
proof -
  obtain o1 w1 w2 w3 where "splice_options r opts = Done o1"
    and 1: "NewStreamController G load s u (controller_options (so_logger (srv_options r)) o1 TopologySpliced) w = Done (k, w1)"
    and 2: "share_services (services_of (srv_controller r) w1) k (d_keys D (services_of (srv_controller r) w1)) (Done w1) =
           Done w2"
    and 3: "start_run k w2 = Done w3"
    and 4: "discoverServices G D envr (srv_setupCtx r) k (so_discoveryHopLimit (srv_options r)) w3 = Done (res, w4)"
    by (rule splice_discover_Done [OF assms(5)])
  show "k = w_alloc w" by (rule NewStreamController_wf(2) [OF assms(1) 1])
  have 5: "server_wf w2" by (rule share_services_spliced(1) [OF assms(1) 1 assms(4,3) 2])
  note d = discoverServices_wf [OF assms(2) start_run_wf [OF 5 3] 4]
  show "server_wf w4" by (rule d(1))
  have "dom (w_ctls w2) = insert k (dom (w_ctls w))"
    using NewStreamController_wf(3) [OF assms(1) 1] share_services_spliced(2) [OF assms(1) 1 assms(4,3) 2]
    by (simp add: table_changed_def)
  moreover have "grows w2 w4" using do_ctl_grows [OF 3 [unfolded start_run_def]] d(2) by (rule grows_trans)
  ultimately show "grows w w4" "k \<in> dom (w_ctls w4)" by (auto simp: grows_def)
qed

subsection \<open>The life of a server\<close>

lemma unchanged_grows: "unchanged_but k w w' \<Longrightarrow> grows w w'"
  by (auto simp: unchanged_but_def grows_def)

lemma add_handlers_grows: "add_handlers k c descs iv w = Done w' \<Longrightarrow> grows w w'"
  using add_handlers_table unchanged_grows by metis

lemma sync_spliced_grows: "sync_spliced ks c descs iv w = Done w' \<Longrightarrow> grows w w'"
  by (induction ks arbitrary: w) (auto dest: add_handlers_grows intro: grows_trans)

lemma close_controller_grows: "close_controller rs k w = Done w' \<Longrightarrow> grows w w'"
  by (auto simp: close_controller_def intro: on_ctl_grows)

lemma close_spliced_grows: "close_spliced rs e ks w = Done w' \<Longrightarrow> grows w w'"
proof (induction ks arbitrary: w)
  case (Cons k ks)
  then obtain w1 w2 where w: "(if e \<noteq> None then do_ctl k (Kick e) w else Done w) = Done w1"
    "close_controller rs k w1 = Done w2" "close_spliced rs e ks w2 = Done w'"
    by (auto simp del: not_None_eq)
  have "grows w w1" using w(1) do_ctl_grows by (cases e) auto
  then show ?case using close_controller_grows [OF w(2)] Cons.IH [OF w(3)] by (blast intro: grows_trans)
qed simp

text \<open>
  A server and the world it runs in: the server registers services, splices streams, is
  started and ends, in any order the code allows, and between these the other goroutines run.
\<close>

inductive server_life ::
  "lib \<Rightarrow> disc \<Rightarrow> loader \<Rightarrow> ('x world \<Rightarrow> 'x world) \<Rightarrow> (nat \<Rightarrow> (go_error + RPC) list) \<Rightarrow> 'x world \<Rightarrow>
   Server \<Rightarrow> 'x world \<Rightarrow> bool"
  for G D load envr rs w0 where
  new: "NewServer G load s opts u c w0 = Done (r, w) \<Longrightarrow> server_life G D load envr rs w0 r w"
| registers: "server_life G D load envr rs w0 r w \<Longrightarrow> RegisterService G load r desc impl sat w = Done w' \<Longrightarrow>
    server_life G D load envr rs w0 r w'"
| splices: "server_life G D load envr rs w0 r w \<Longrightarrow> Splice G D load envr r s opts u w = Done (e, r', w') \<Longrightarrow>
    server_life G D load envr rs w0 r' w'"
| serves: "server_life G D load envr rs w0 r w \<Longrightarrow> Serve G D envr rs r w = Done (res, r', w') \<Longrightarrow>
    server_life G D load envr rs w0 r' w'"
| ends: "server_life G D load envr rs w0 r w \<Longrightarrow> serve_teardown rs e ch r w = Done (ch', r', w') \<Longrightarrow>
    server_life G D load envr rs w0 r' w'"
| others: "server_life G D load envr rs w0 r w \<Longrightarrow> server_life G D load envr rs w0 r (envr w)"

definition server_inv :: "Server \<Rightarrow> 'x world \<Rightarrow> bool" where
  "server_inv r w \<longleftrightarrow>
     server_wf w \<and> set (srv_controller r # srv_splicedControllers r) \<subseteq> dom (w_ctls w) \<and>
     distinct (srv_controller r # srv_splicedControllers r)"

lemma server_inv_grows: "server_inv r w \<Longrightarrow> server_wf w' \<Longrightarrow> grows w w' \<Longrightarrow> server_inv r w'"
  unfolding server_inv_def grows_def by blast

lemma server_inv_readers [simp]: "server_inv (r\<lparr>srv_readers := n\<rparr>) w = server_inv r w"
  by (simp add: server_inv_def)

lemma RegisterService_inv:
  assumes "server_inv r w" and "RegisterService G load r desc impl sat w = Done w'"
  shows "server_inv r w'"
proof -
  obtain k c d iv where a: "add_handler k c d iv w = Done w'"
    using assms(2) by (auto simp: RegisterService_def register_def split: option.splits if_splits sum.splits)
  have "server_wf w" using assms(1) by (simp add: server_inv_def)
  then have "server_wf w'" by (rule add_handler_wf [OF _ a])
  then show ?thesis
    using server_inv_grows [OF assms(1)] add_handler_table [OF a] unchanged_grows by metis
qed

lemma Splice_inv:
  assumes "server_inv r w" and "env_wf envr" and "disc_ok D" and "Splice G D load envr r s opts u w = Done (e, r', w')"
  shows "server_inv r' w'"
proof -
  have 0: "server_wf w" "srv_controller r \<in> dom (w_ctls w)" using assms(1) by (auto simp: server_inv_def)
  have d: "distinct (d_keys D m)" for m using assms(3) by (simp add: disc_ok_def)
  show ?thesis
    using assms(4)
  proof (cases rule: Splice_Done)
    case (failed k err w4)
    then show ?thesis
      using splice_discover_wf(1,3) [OF 0(1) assms(2) d 0(2)] server_inv_grows [OF assms(1)] by metis
  next
    case (spliced k info w4 st)
    note s = splice_discover_wf [OF 0(1) assms(2) d 0(2) spliced(1)]
    have wf: "server_wf w'" by (rule add_handlers_wf [OF s(1) spliced(4)])
    have g: "grows w4 w'" by (rule add_handlers_grows [OF spliced(4)])
    then have i: "server_inv r w'" using server_inv_grows [OF assms(1) wf] s(3) grows_trans by blast
    have "k \<notin> dom (w_ctls w)" using 0(1) s(2) by (auto simp: server_wf_def)
    then have "k \<notin> set (srv_controller r # srv_splicedControllers r)"
      using assms(1) by (auto simp: server_inv_def)
    moreover have "k \<in> dom (w_ctls w')" using g s(4) by (auto simp: grows_def)
    ultimately show ?thesis using i by (auto simp: server_inv_def spliced(5))
  qed
qed

lemma Serve_Done:
  assumes "Serve G D envr rs r w = Done ((cc, ch), r', w')"
  obtains (failed) err w1 w2 w3 where "start_run (srv_controller r) w = Done w1"
      and "discoverServices G D envr (srv_setupCtx r) (srv_controller r) (so_discoveryHopLimit (srv_options r)) w1 =
             Done (Inl err, w2)"
      and "do_ctl (srv_controller r) (Kick (Some (WrapError ''service discovery failed'' err))) w2 = Done w3"
      and "close_controller rs (srv_controller r) (envr w3) = Done w'"
      and "cc = None" and "ch = \<lparr>chan_buf = [Some err], chan_cap = 2, chan_closed = False\<rparr>"
      and "r' = r\<lparr>srv_readers := Suc (srv_readers r)\<rparr>"
  | (served) info w1 w2 st where "start_run (srv_controller r) w = Done w1"
      and "discoverServices G D envr (srv_setupCtx r) (srv_controller r) (so_discoveryHopLimit (srv_options r)) w1 =
             Done (Inr info, w2)"
      and "w_ctls w2 (srv_controller r) = Some st"
      and "sync_spliced (srv_splicedControllers r) (srv_Context r) (Services info)
             (ControllerInvoker (NewInvoker (srv_controller r) st)) w2 = Done w'"
      and "cc = Some \<lparr>cc_controller = srv_controller r, cc_interceptor = Outgoing (so_interceptors (srv_options r)),
             cc_metrics = so_metrics (srv_options r)\<rparr>"
      and "ch = make_chan 2" and "r' = r\<lparr>srv_readers := Suc (srv_readers r)\<rparr>"
proof -
  let ?k = "srv_controller r"
  obtain w1 out w2 where 1: "start_run ?k w = Done w1"
    "discoverServices G D envr (srv_setupCtx r) ?k (so_discoveryHopLimit (srv_options r)) w1 = Done (out, w2)"
    using assms by (auto simp: Serve_def Let_def)
  show thesis
  proof (cases out)
    case (Inl err)
    let ?kick = "do_ctl ?k (Kick (Some (WrapError ''service discovery failed'' err))) w2"
    have "\<exists>w3. ?kick = Done w3 \<and> close_controller rs ?k (envr w3) = Done w' \<and> cc = None \<and>
        ch = \<lparr>chan_buf = [Some err], chan_cap = 2, chan_closed = False\<rparr> \<and> r' = r\<lparr>srv_readers := Suc (srv_readers r)\<rparr>"
      using assms by (auto simp: Serve_def Let_def 1 Inl chan_send_def make_chan_def)
    then show thesis using failed 1 Inl by blast
  next
    case (Inr info)
    have "\<exists>st. w_ctls w2 ?k = Some st \<and>
        sync_spliced (srv_splicedControllers r) (srv_Context r) (Services info) (ControllerInvoker (NewInvoker ?k st)) w2 =
          Done w' \<and>
        cc = Some \<lparr>cc_controller = ?k, cc_interceptor = Outgoing (so_interceptors (srv_options r)),
             cc_metrics = so_metrics (srv_options r)\<rparr> \<and>
        ch = make_chan 2 \<and> r' = r\<lparr>srv_readers := Suc (srv_readers r)\<rparr>"
      using assms by (cases "w_ctls w2 ?k") (auto simp: Serve_def Let_def 1 Inr)
    then show thesis using served 1 Inr by blast
  qed
qed

lemma Serve_inv:
  assumes "server_inv r w" and "env_wf envr" and "Serve G D envr rs r w = Done ((cc, ch), r', w')"
  shows "server_inv r' w'"
proof -
  have 0: "server_wf w" using assms(1) by (simp add: server_inv_def)
  have "server_wf w' \<and> grows w w' \<and> r' = r\<lparr>srv_readers := Suc (srv_readers r)\<rparr>"
    using assms(3)
  proof (cases rule: Serve_Done)
    case (failed err w1 w2 w3)
    note d = discoverServices_wf [OF assms(2) start_run_wf [OF 0 failed(1)] failed(2)]
    have "server_wf w3" by (rule Kick_wf [OF d(1) failed(3)])
    then have e: "server_wf (envr w3)" "grows w3 (envr w3)" using assms(2) by (simp_all add: env_wf_def)
    show ?thesis
      using close_controller_wf [OF e(1) failed(4)] failed(7) grows_trans [OF grows_trans [OF grows_trans [OF grows_trans
          [OF do_ctl_grows [OF failed(1) [unfolded start_run_def]] d(2)] do_ctl_grows [OF failed(3)]] e(2)]
          close_controller_grows [OF failed(4)]] by blast
  next
    case (served info w1 w2 st)
    note d = discoverServices_wf [OF assms(2) start_run_wf [OF 0 served(1)] served(2)]
    show ?thesis
      using sync_spliced_wf [OF d(1) served(4)] served(7) grows_trans [OF grows_trans
          [OF do_ctl_grows [OF served(1) [unfolded start_run_def]] d(2)] sync_spliced_grows [OF served(4)]] by blast
  qed
  then show ?thesis using server_inv_grows [OF assms(1)] by auto
qed

lemma teardown_inv:
  assumes "server_inv r w" and "serve_teardown rs e ch r w = Done (ch', r', w')"
  shows "server_inv r' w'"
proof -
  obtain w1 where w: "close_spliced rs e (srv_splicedControllers r) w = Done w1"
    "close_controller rs (srv_controller r) w1 = Done w'" "r' = r\<lparr>srv_readers := srv_readers r - 1\<rparr>"
    using assms(2) by (auto simp: serve_teardown_def Let_def split: if_splits)
  have "server_wf w" using assms(1) by (simp add: server_inv_def)
  then have "server_wf w'" using close_spliced_wf [OF _ w(1)] close_controller_wf [OF _ w(2)] by blast
  moreover have "grows w w'" using close_spliced_grows [OF w(1)] close_controller_grows [OF w(2)] by (rule grows_trans)
  ultimately show ?thesis using server_inv_grows [OF assms(1)] w(3) by simp
qed

lemma NewServer_inv:
  assumes "server_wf w0" and "NewServer G load s opts u c w0 = Done (r, w)"
  shows "server_inv r w"
proof -
  obtain o1 :: ServerOptions where n: "NewStreamController G load s u (controller_options (so_logger o1) o1 0) w0 = Done (srv_controller r, w)"
    "srv_splicedControllers r = []"
    using assms(2) by (auto simp: NewServer_def)
  show ?thesis using NewStreamController_wf(1,3) [OF assms(1) n(1)] n(2) by (simp add: server_inv_def)
qed

text \<open>
  C7: In every world that a server can reach by registering services, splicing streams,
  serving and ending, the tables of services of all controllers are well formed: under each
  name there are only well-formed handlers of one descriptor with that name, at distinct
  addresses; the controllers keep their invariant, and the controller of the server and
  those of its spliced streams exist and are pairwise distinct.
\<close>

theorem server_tables_well_formed:
  assumes "server_wf w0" and "env_wf envr" and "disc_ok D" and "server_life G D load envr rs w0 r w"
  shows "server_inv r w"
  using assms(4)
proof (induction rule: server_life.induct)
  case (new s opts u c r w)
  then show ?case by (rule NewServer_inv [OF assms(1)])
next
  case (registers r w desc impl sat w')
  then show ?case by (blast intro: RegisterService_inv)
next
  case (splices r w s opts u e r' w')
  then show ?case by (blast intro: Splice_inv [OF _ assms(2,3)])
next
  case (serves r w res r' w')
  then show ?case by (cases res) (blast intro: Serve_inv [OF _ assms(2)])
next
  case (ends r w e ch ch' r' w')
  then show ?case by (blast intro: teardown_inv)
next
  case (others r w)
  then have "server_wf w" by (simp add: server_inv_def)
  then show ?case using server_inv_grows [OF others.IH] assms(2) by (simp add: env_wf_def)
qed

text \<open>
  C23: What a spliced client is offered. \<open>Splice\<close> gives its controller, which has its own
  reflection handlers, exactly those handlers of the server that are local and whose
  descriptor has the visibility option for spliced clients, and changes nothing else. When
  \<open>Serve\<close> succeeds later, every spliced controller gets in addition one handler for each
  service that the discovery found on the main stream, whatever its visibility, whose
  methods go to the main controller; no other controller changes after the discovery.
\<close>

theorem splice_shares_visible_services:
  assumes "server_wf w" and "disc_ok D" and "srv_controller r \<in> dom (w_ctls w)"
    and "NewStreamController G load s u (controller_options l o1 TopologySpliced) w = Done (k, w1)"
    and "share_services (services_of (srv_controller r) w1) k (d_keys D (services_of (srv_controller r) w1)) (Done w1) =
           Done w2"
    and "distinct (srv_splicedControllers r')"
    and "Serve G D envr rs r' v = Done ((Some cc, ch), r'', v')"
  shows "services_of (srv_controller r) w1 = services_of (srv_controller r) w \<and> table_changed k w1 w2 \<and>
    (\<forall>name. table_of k w2 name = table_of k w1 name @
       filter (\<lambda>h. shared_with_spliced h \<and> sd_Name (Descriptor h) = name)
         (all_handlers (services_of (srv_controller r) w) (d_keys D (services_of (srv_controller r) w)))) \<and>
    (\<exists>info v1 v2 st. start_run (srv_controller r') v = Done v1 \<and>
       discoverServices G D envr (srv_setupCtx r') (srv_controller r') (so_discoveryHopLimit (srv_options r')) v1 =
         Done (Inr info, v2) \<and> w_ctls v2 (srv_controller r') = Some st \<and>
       (\<forall>j \<in> set (srv_splicedControllers r'). gets_handlers j (srv_Context r') (Services info)
          (ControllerInvoker (NewInvoker (srv_controller r') st)) v2 v') \<and>
       (\<forall>j. j \<notin> set (srv_splicedControllers r') \<longrightarrow> w_ctls v' j = w_ctls v2 j))"
proof -
  have "srv_controller r \<noteq> k" using assms(1,3) NewStreamController_wf(2) [OF assms(1,4)] by (auto simp: server_wf_def)
  then have "services_of (srv_controller r) w1 = services_of (srv_controller r) w"
    using NewStreamController_wf(4) [OF assms(1,4)] by (simp add: services_of_def)
  moreover have "distinct (d_keys D m)" for m using assms(2) by (simp add: disc_ok_def)
  moreover from assms(7) have "\<exists>info v1 v2 st. start_run (srv_controller r') v = Done v1 \<and>
       discoverServices G D envr (srv_setupCtx r') (srv_controller r') (so_discoveryHopLimit (srv_options r')) v1 =
         Done (Inr info, v2) \<and> w_ctls v2 (srv_controller r') = Some st \<and>
       (\<forall>j \<in> set (srv_splicedControllers r'). gets_handlers j (srv_Context r') (Services info)
          (ControllerInvoker (NewInvoker (srv_controller r') st)) v2 v') \<and>
       (\<forall>j. j \<notin> set (srv_splicedControllers r') \<longrightarrow> w_ctls v' j = w_ctls v2 j)"
  proof (cases rule: Serve_Done)
    case (served info v1 v2 st)
    from served(1-3) sync_spliced_tables [OF served(4) assms(6)] show ?thesis by blast
  qed simp
  ultimately show ?thesis
    using share_services_spliced(2,3) [OF assms(1,4,3) _ assms(5)] by (auto simp: shared_table_def)
qed

text \<open>
  C22: A \<open>Splice\<close> that succeeds has discovered services over the new stream, and has
  appended to the tables of the server, in their order, one handler for each discovered
  descriptor, whose methods go to the new controller and which lives as long as the
  context of the spliced stream; no other handler is added, and the new controller, at a
  fresh address, is the last of the spliced controllers.
\<close>

theorem splice_registers_discovered:
  assumes "server_wf w" and "env_wf envr" and "disc_ok D" and "srv_controller r \<in> dom (w_ctls w)"
    and "Splice G D load envr r s opts u w = Done (None, r', w')"
  shows "\<exists>info w4 st hs.
    splice_discover G D load envr r s opts u w = Done (w_alloc w, Inr info, w4) \<and> w_ctls w4 (w_alloc w) = Some st \<and>
    list_all2 (\<lambda>desc h. handler_for desc (s_ctx s) (ControllerInvoker (NewInvoker (w_alloc w) st)) h) (Services info) hs \<and>
    (\<forall>name. table_of (srv_controller r) w' name =
       table_of (srv_controller r) w4 name @ filter (\<lambda>h. sd_Name (Descriptor h) = name) hs) \<and>
    srv_splicedControllers r' = srv_splicedControllers r @ [w_alloc w]"
  using assms(5)
proof (cases rule: Splice_Done)
  case (spliced k info w4 st)
  have "distinct (d_keys D m)" for m using assms(3) by (simp add: disc_ok_def)
  then have "k = w_alloc w" by (rule splice_discover_wf(2) [OF assms(1,2) _ assms(4) spliced(1)])
  then show ?thesis using spliced add_handlers_table [OF spliced(4)] by auto
qed simp

text \<open>
  C38: A peer on a spliced stream that lists a service under a name for which the server has
  a handler with another descriptor ends the process: \<open>Splice\<close> panics instead of returning
  an error.
\<close>

theorem conflicting_peer_panics:
  assumes "splice_discover G D load envr r s opts u w = Done (k, Inr info, w4)" and "desc \<in> set (Services info)"
    and "h \<in> set (table_of (srv_controller r) w4 (sd_Name desc))" and "Descriptor h \<noteq> desc"
  shows "\<exists>p. Splice G D load envr r s opts u w = Panics p"
proof (cases "w_ctls w4 k")
  case None
  then show ?thesis using assms(1) by (simp add: Splice_def)
next
  case (Some st)
  let ?a = "add_handlers (srv_controller r) (s_ctx s) (Services info) (ControllerInvoker (NewInvoker k st)) w4"
  have "?a \<noteq> Done w'" for w' using add_handlers_conflict assms(2,3,4) by blast
  moreover have "?a \<noteq> Blocks" by (rule add_handlers_not_Blocks)
  ultimately obtain p where "?a = Panics p" by (cases ?a) auto
  then show ?thesis using assms(1) Some by (simp add: Splice_def)
qed

text \<open>
  \<open>Splice\<close> takes the options of \<open>NewServer\<close> but ignores the hop limit for the
  discovery, the logger and the interceptors that are passed to it.
\<close>

lemma splice_ignores_options:
  "Splice G D load envr r s [WithDiscoveryHopLimit n, WithLogger l, WithInterceptors ic] u w =
   Splice G D load envr r s [] u w"
  by (simp add: Splice_def splice_discover_def splice_options_def WithDiscoveryHopLimit_def WithLogger_def
      WithInterceptors_def controller_options_def)

text \<open>
  C39: The channel that \<open>Serve\<close> returns has room for both errors that are ever sent to it:
  the error of a failed discovery is in it when \<open>Serve\<close> returns no connection, and the
  goroutine that waits for \<open>Run\<close> adds its result without blocking once the controllers
  are closed.
\<close>

theorem serve_error_channel:
  assumes "srv_readers r = 0" and "Serve G D envr rs r w = Done ((cc, ch), r1, w1)"
    and "close_spliced rs e (srv_splicedControllers r) w2 = Done w3"
    and "close_controller rs (srv_controller r) w3 = Done w4"
  shows "\<exists>ch'. serve_teardown rs e ch r1 w2 = Done (ch', r, w4) \<and> chan_buf ch' = chan_buf ch @ [e] \<and>
     length (chan_buf ch') \<le> chan_cap ch' \<and> (cc = None \<longleftrightarrow> chan_buf ch \<noteq> [])"
proof -
  have s: "chan_cap ch = 2" "\<not> chan_closed ch" "length (chan_buf ch) < 2" "r1 = r\<lparr>srv_readers := 1\<rparr>"
    "cc = None \<longleftrightarrow> chan_buf ch \<noteq> []"
    by (cases rule: Serve_Done [OF assms(2)]; simp add: make_chan_def assms(1))+
  have "r1\<lparr>srv_readers := 0\<rparr> = r" using s(4) assms(1) by simp
  then show ?thesis using s assms(1,3,4) by (auto simp: serve_teardown_def chan_send_def)
qed

subsection \<open>Concrete instances\<close>

text \<open>
  A server with one local service that spliced clients may see. On each of its streams the
  peer answers the discovery with one service.
\<close>

definition demo_load :: loader where
  "demo_load svc = Inr (\<lparr>sd_Name = [], sd_Method = [], sd_Visibility = Some \<lparr>SplicedClients = True\<rparr>\<rparr>, svc_ServiceName svc)"

definition demo_stream :: "nat \<Rightarrow> stream" where
  "demo_stream n = (sample_stream (\<lambda>_ _. None))\<lparr>s_id := n\<rparr>"

definition demo_start :: "unit world" where
  "demo_start = \<lparr>w_ctls = Map.empty, w_known = [], w_alloc = 0, w_meter = empty_meter, w_user = ()\<rparr>"

definition demo_reply :: RPC where
  "demo_reply = response_msg 1 (d_enc_info number_disc \<lparr>Services = [echo_descriptor None]\<rparr>)
     (Some \<lparr>st_code = OK, st_message = ''OK''\<rparr>) None"

definition deliver_to :: "RPC \<Rightarrow> nat \<Rightarrow> 'x world \<Rightarrow> 'x world" where
  "deliver_to msg k w =
     (case w_ctls w k of
        None \<Rightarrow> w
      | Some st \<Rightarrow>
          (case run_dispatch std_lib bg_ctx msg st of
             RunContinue st' \<Rightarrow> w\<lparr>w_ctls := (w_ctls w)(k \<mapsto> st')\<rparr>
           | _ \<Rightarrow> w))"

definition demo_env :: "unit world \<Rightarrow> unit world" where
  "demo_env w = deliver_to demo_reply 4 (deliver_to demo_reply 3 (deliver_to demo_reply 0 w))"

definition demo_server :: Server where
  "demo_server = \<lparr>srv_options = default_options, srv_stream = demo_stream 1, srv_controller = 0,
     srv_splicedControllers = [], srv_readers = 0, srv_setupCtx = bg_ctx\<rparr>"

lemma run_dispatch_services: "run_dispatch G c m st = RunContinue st' \<Longrightarrow> ctl_services st' = ctl_services st"
  by (auto simp: run_dispatch_def send_future_def close_future_def chan_send_def chan_close_def
      split: option.splits RPC_Content.splits if_splits)

lemma deliver_to_wf:
  assumes "server_wf w"
  shows "server_wf (deliver_to m k w) \<and> grows w (deliver_to m k w)"
proof -
  have "server_wf (w\<lparr>w_ctls := (w_ctls w)(k \<mapsto> st')\<rparr>)"
    if d: "w_ctls w k = Some st" "run_dispatch std_lib bg_ctx m st = RunContinue st'" for st st'
  proof -
    have "on_ctl k (\<lambda>_. Done ((), st')) w = Done ((), w\<lparr>w_ctls := (w_ctls w)(k \<mapsto> st')\<rparr>)"
      using d(1) by (simp add: on_ctl_def)
    moreover have "ctl_inv st" using assms d(1) by (auto simp: server_wf_def world_ok_def)
    then have "ctl_inv st'" "ctl_services st' = ctl_services st"
      using ctl_inv_run_dispatch [OF _ d(2)] run_dispatch_services [OF d(2)] by blast+
    ultimately show ?thesis
      using assms d(1) by (auto simp: server_wf_def world_ok_def services_ok_def split: if_splits)
  qed
  then show ?thesis
    using assms by (auto simp: deliver_to_def grows_def split: option.splits run_result.splits)
qed

lemma demo_env_wf: "env_wf demo_env"
  unfolding env_wf_def demo_env_def using deliver_to_wf grows_trans by blast

lemma demo_start_wf: "server_wf demo_start"
  by (simp add: server_wf_def demo_start_def world_ok_def services_ok_def)

lemmas demo_defs = demo_load_def demo_stream_def sample_stream_def demo_start_def demo_reply_def demo_env_def
  deliver_to_def demo_server_def LoadServiceDesc_def ServerReflection_ServiceDesc_def newLocalServiceInvoker_def
  add_handler_def NewDefaultServiceHandler_def do_ctl_def on_ctl_def RegisterServiceHandler_def Append_def
  controller_options_def DefaultWorkerPoolParams_def NewStreamController_def newRecvWrapper_def new_controller_def NewInvoker_def newStreamControllerInvoker_def

definition demo_world :: "unit world" where
  "demo_world = (case NewServer std_lib demo_load (demo_stream 1) [] ''a'' bg_ctx demo_start of
     Done (r, w) \<Rightarrow> w | _ \<Rightarrow> demo_start)"

lemma demo_new: "NewServer std_lib demo_load (demo_stream 1) [] ''a'' bg_ctx demo_start = Done (demo_server, demo_world)"
  by (simp add: demo_world_def NewServer_def demo_defs Let_def empty_list_def)

lemma demo_share:
  "\<exists>w1 w2. NewStreamController std_lib demo_load (demo_stream 2) ''b'' (controller_options None default_options TopologySpliced) demo_world = Done (3, w1) \<and>
     share_services (services_of 0 w1) 3 (d_keys number_disc (services_of 0 w1)) (Done w1) = Done w2"
  by (simp add: demo_world_def NewServer_def demo_defs Let_def empty_list_def services_of_def number_disc_def
     shl_Range_def share_callback_def shared_with_spliced_def default_options_def)

lemmas demo_call_defs = services_of_def number_disc_def shl_Range_def share_callback_def shared_with_spliced_def
  default_options_def Splice_def splice_discover_def splice_options_def start_run_def Start_def discoverServices_def
  discovery_message_def list_request_def Request_def send_or_kick_def stream_Send_def outgoing_md_def std_lib_def
  bg_ctx_def FromMD_def run_dispatch_def response_msg_def send_future_def close_future_def chan_send_def
  chan_close_def make_chan_def recv_future_def chan_recv_def discovery_result_def GetResponse_def GetStatus_def
  Response_GetResponse_def GetStatusProto_def GetContent_def echo_descriptor_def add_method_def

lemma demo_splice:
  "\<exists>r' w'. Splice std_lib number_disc demo_load demo_env demo_server (demo_stream 2) [] ''b'' demo_world = Done (None, r', w')"
  by (simp add: demo_world_def NewServer_def demo_defs Let_def empty_list_def demo_call_defs)

text \<open>A server that serves with one spliced controller, which gets the discovered service.\<close>

definition demo_pair :: "unit world" where
  "demo_pair = demo_world\<lparr>w_ctls := (w_ctls demo_world)(3 \<mapsto>
     new_controller (demo_stream 2) (sample_w [] PumpReceiving) ''b'' [] TopologySpliced), w_alloc := 4\<rparr>"

lemma demo_pair_serve:
  "\<exists>r'' v' cc ch. Serve std_lib number_disc demo_env (\<lambda>_. []) (demo_server\<lparr>srv_splicedControllers := [3]\<rparr>) demo_pair =
     Done ((Some cc, ch), r'', v')"
  by (simp add: demo_pair_def Serve_def demo_world_def NewServer_def demo_defs Let_def empty_list_def demo_call_defs)

definition demo_service :: ServiceDesc where
  "demo_service = \<lparr>svc_ServiceName = ''svc'', svc_Methods = [], svc_Streams = []\<rparr>"

definition demo_world2 :: "unit world" where
  "demo_world2 = (case RegisterService std_lib demo_load demo_server demo_service (Some 7) True demo_world of
     Done w \<Rightarrow> w | _ \<Rightarrow> demo_world)"

lemma demo_conflict:
  "\<exists>w4 h. splice_discover std_lib number_disc demo_load demo_env demo_server (demo_stream 2) [] ''b'' demo_world2 =
       Done (4, Inr \<lparr>Services = [echo_descriptor None]\<rparr>, w4) \<and>
     h \<in> set (table_of 0 w4 ''svc'') \<and> Descriptor h \<noteq> echo_descriptor None"
  by (simp add: demo_world2_def RegisterService_def register_def demo_service_def demo_world_def NewServer_def demo_defs Let_def
      empty_list_def demo_call_defs table_of_def handlers_of_def)

text \<open>The world once the pump of controller 0 has ended.\<close>

definition demo_over :: "unit world" where
  "demo_over = demo_world\<lparr>w_ctls := map_option (\<lambda>st. st\<lparr>ctl_receiver := (ctl_receiver st)\<lparr>rw_done := True\<rparr>\<rparr>) \<circ> w_ctls demo_world\<rparr>"

lemma demo_serve:
  "\<exists>cc r1 w1 w4. Serve std_lib number_disc demo_env (\<lambda>_. []) demo_server demo_world = Done ((cc, make_chan 2), r1, w1) \<and>
     close_controller (\<lambda>_. []) 0 demo_over = Done w4"
  by (simp add: demo_over_def Serve_def close_controller_def CloseOrRecv_def Wait_def demo_world_def NewServer_def demo_defs
      Let_def empty_list_def demo_call_defs)

lemma demo_life: "server_life G number_disc demo_load envr rs demo_start demo_server demo_world" if "G = std_lib" for G envr rs
  unfolding that by (rule server_life.new [OF demo_new])

lemma demo_world_wf: "server_wf demo_world" "srv_controller demo_server \<in> dom (w_ctls demo_world)"
  using NewServer_inv [OF demo_start_wf demo_new] by (simp_all add: server_inv_def)

lemma demo_alloc: "w_alloc demo_world = 3"
  by (simp add: demo_world_def NewServer_def demo_defs Let_def empty_list_def)

theorem server_tables_well_formed_witness:
  "\<exists>r' w'. Splice std_lib number_disc demo_load demo_env demo_server (demo_stream 2) [] ''b'' demo_world = Done (None, r', w') \<and>
     server_inv r' w'"
proof -
  obtain r' w' where s: "Splice std_lib number_disc demo_load demo_env demo_server (demo_stream 2) [] ''b'' demo_world =
      Done (None, r', w')" using demo_splice by blast
  have "server_life std_lib number_disc demo_load demo_env (\<lambda>_. []) demo_start r' w'"
    by (rule server_life.splices [OF demo_life [OF refl] s])
  then have "server_inv r' w'" by (rule server_tables_well_formed [OF demo_start_wf demo_env_wf number_disc_ok])
  with s show ?thesis by blast
qed

theorem splice_shares_visible_services_witness:
  "\<exists>w1 w2. NewStreamController std_lib demo_load (demo_stream 2) ''b'' (controller_options None default_options TopologySpliced) demo_world = Done (3, w1) \<and>
     table_changed 3 w1 w2 \<and>
     (\<forall>name. table_of 3 w2 name = table_of 3 w1 name @
       filter (\<lambda>h. shared_with_spliced h \<and> sd_Name (Descriptor h) = name)
         (all_handlers (services_of 0 demo_world) (d_keys number_disc (services_of 0 demo_world)))) \<and>
     (\<exists>r'' v' cc ch (info :: ServiceInfo) v2 c iv.
       Serve std_lib number_disc demo_env (\<lambda>_. []) (demo_server\<lparr>srv_splicedControllers := [3]\<rparr>) demo_pair =
         Done ((Some cc, ch), r'', v') \<and>
       gets_handlers 3 c (Services info) iv v2 v')"
proof -
  have c: "srv_controller demo_server = 0" by (simp add: demo_server_def)
  obtain w1 w2 where w: "NewStreamController std_lib demo_load (demo_stream 2) ''b'' (controller_options None default_options TopologySpliced) demo_world = Done (3, w1)"
    "share_services (services_of 0 w1) 3 (d_keys number_disc (services_of 0 w1)) (Done w1) = Done w2"
    using demo_share by blast
  obtain r'' v' cc ch where s:
    "Serve std_lib number_disc demo_env (\<lambda>_. []) (demo_server\<lparr>srv_splicedControllers := [3]\<rparr>) demo_pair =
       Done ((Some cc, ch), r'', v')"
    using demo_pair_serve by blast
  have d: "distinct (srv_splicedControllers (demo_server\<lparr>srv_splicedControllers := [3]\<rparr>))" by simp
  note t = splice_shares_visible_services [OF demo_world_wf(1) number_disc_ok demo_world_wf(2) w(1) _ d s, of w2, unfolded c, OF w(2)]
  have "3 \<in> set (srv_splicedControllers (demo_server\<lparr>srv_splicedControllers := [3]\<rparr>))" by simp
  with t have "\<exists>(info :: ServiceInfo) v2 c iv. gets_handlers 3 c (Services info) iv v2 v'" by blast
  with t w(1) s show ?thesis by blast
qed

theorem splice_registers_discovered_witness:
  "\<exists>r' w' info w4 hs. Splice std_lib number_disc demo_load demo_env demo_server (demo_stream 2) [] ''b'' demo_world =
       Done (None, r', w') \<and>
     splice_discover std_lib number_disc demo_load demo_env demo_server (demo_stream 2) [] ''b'' demo_world =
       Done (3, Inr info, w4) \<and>
     length hs = length (Services info) \<and>
     (\<forall>name. table_of 0 w' name = table_of 0 w4 name @ filter (\<lambda>h. sd_Name (Descriptor h) = name) hs) \<and>
     srv_splicedControllers r' = [3]"
proof -
  have c: "srv_controller demo_server = 0" "srv_splicedControllers demo_server = []" by (simp_all add: demo_server_def)
  obtain r' w' where s: "Splice std_lib number_disc demo_load demo_env demo_server (demo_stream 2) [] ''b'' demo_world =
      Done (None, r', w')" using demo_splice by blast
  from splice_registers_discovered [OF demo_world_wf(1) demo_env_wf number_disc_ok demo_world_wf(2) s] s show ?thesis
    unfolding c demo_alloc append_Nil by (metis list_all2_lengthD)
qed

theorem conflicting_peer_panics_witness:
  "\<exists>p. Splice std_lib number_disc demo_load demo_env demo_server (demo_stream 2) [] ''b'' demo_world2 = Panics p"
proof -
  obtain w4 h where w4: "splice_discover std_lib number_disc demo_load demo_env demo_server (demo_stream 2) [] ''b'' demo_world2 =
       Done (4, Inr \<lparr>Services = [echo_descriptor None]\<rparr>, w4)"
    "h \<in> set (table_of 0 w4 ''svc'')" "Descriptor h \<noteq> echo_descriptor None" using demo_conflict by blast
  show ?thesis
    by (rule conflicting_peer_panics [OF w4(1) _ _ w4(3)]) (use w4(2) in \<open>simp_all add: demo_server_def echo_descriptor_def\<close>)
qed

theorem serve_error_channel_witness:
  "\<exists>ch r1 ch' w4. serve_teardown (\<lambda>_. []) None ch r1 demo_over = Done (ch', demo_server, w4) \<and>
     ch = make_chan 2 \<and> chan_buf ch' = [None]"
proof -
  obtain cc r1 w1 w4 where w: "Serve std_lib number_disc demo_env (\<lambda>_. []) demo_server demo_world = Done ((cc, make_chan 2), r1, w1)"
     "close_controller (\<lambda>_. []) 0 demo_over = Done w4" using demo_serve by blast
  have "\<exists>ch'. serve_teardown (\<lambda>_. []) None (make_chan 2) r1 demo_over = Done (ch', demo_server, w4) \<and>
      chan_buf ch' = chan_buf (make_chan 2) @ [None] \<and> length (chan_buf ch') \<le> chan_cap ch' \<and>
      (cc = None \<longleftrightarrow> chan_buf (make_chan 2 :: go_error option chan) \<noteq> [])"
    by (rule serve_error_channel [OF _ w(1)]) (use w(2) in \<open>simp_all add: demo_server_def\<close>)
  then show ?thesis by (auto simp: make_chan_def)
qed

end
