(* ===== verification/Peers.thy ===== *)
theory Peers
  imports Invokers "HOL-Library.Multiset"
begin

text \<open>
  Two controllers joined by a stream. Each side makes calls, receives what the other sent,
  in order, and works on the requests in its pool in any order: a task may send stream
  messages and ends with one reply, or without. Both sides are clients and servers at the
  same time.

  \<open>R x\<close> says which results the handlers of side \<open>x\<close> may give for a request: \<open>Some r\<close> a result,
  \<open>None\<close> that the task may end without a reply. When \<open>handleRequest\<close> does that, and that it
  otherwise ends with exactly one reply under the tag of its request, is shown in the theory
  of the workers. The messages a side has read are counted; a message that
  \<open>stream.Send\<close> accepted arrives, and in order, as gRPC streams promise.
\<close>

subsection \<open>The system\<close>

record 'i link =
  lk_ctl :: "bool \<Rightarrow> 'i StreamController"
  lk_read :: "bool \<Rightarrow> nat"

abbreviation wire :: "'i StreamController \<Rightarrow> RPC list" where
  "wire st \<equiv> s_wire (ctl_stream st)"

abbreviation unread :: "bool \<Rightarrow> 'i link \<Rightarrow> RPC list" where
  "unread x s \<equiv> drop (lk_read s x) (wire (lk_ctl s (\<not> x)))"

definition set_ctl :: "bool \<Rightarrow> 'i StreamController \<Rightarrow> 'i link \<Rightarrow> 'i link" where
  "set_ctl x st s = s\<lparr>lk_ctl := (lk_ctl s)(x := st)\<rparr>"

definition without_task :: "pool_task \<Rightarrow> 'i StreamController \<Rightarrow> 'i StreamController" where
  "without_task tk st = st\<lparr>ctl_pool := remove1 tk (ctl_pool st)\<rparr>"

definition fresh :: "'i StreamController \<Rightarrow> bool" where
  "fresh st \<longleftrightarrow> ctl_inv st \<and> ctl_nfut st = 0 \<and> pendingRPCs st = Map.empty \<and> ctl_pool st = [] \<and> wire st = []"

inductive link_step ::
  "lib \<Rightarrow> (bool \<Rightarrow> RPC \<Rightarrow> (go_error + bytes) option \<Rightarrow> bool) \<Rightarrow> 'i link \<Rightarrow> 'i link \<Rightarrow> bool" for G R where
  call: "Request G c m (lk_ctl s x) = Done (ch, m', st) \<Longrightarrow> Content m = Some (RPC_Request b) \<Longrightarrow>
    Suc (ctl_nfut (lk_ctl s x)) < 2 ^ 64 \<Longrightarrow> link_step G R s (set_ctl x st s)"
| receive: "unread x s = m # ms \<Longrightarrow> run_dispatch G c m (lk_ctl s x) = RunContinue st \<Longrightarrow>
    link_step G R s ((set_ctl x st s)\<lparr>lk_read := (lk_read s)(x := Suc (lk_read s x))\<rparr>)"
| reply: "tk \<in> set (ctl_pool (lk_ctl s x)) \<Longrightarrow> R x (task_msg tk) (Some (Inr b)) \<Longrightarrow>
    Reply G c (Tag (task_msg tk)) b (without_task tk (lk_ctl s x)) = Done st \<Longrightarrow> link_step G R s (set_ctl x st s)"
| reply_error: "tk \<in> set (ctl_pool (lk_ctl s x)) \<Longrightarrow> R x (task_msg tk) (Some (Inl e)) \<Longrightarrow>
    ReplyErr G c (Tag (task_msg tk)) (Some e) (without_task tk (lk_ctl s x)) = Done st \<Longrightarrow>
    link_step G R s (set_ctl x st s)"
| no_answer: "tk \<in> set (ctl_pool (lk_ctl s x)) \<Longrightarrow> R x (task_msg tk) None \<Longrightarrow>
    link_step G R s (set_ctl x (without_task tk (lk_ctl s x)) s)"
| stream_reply: "tk \<in> set (ctl_pool (lk_ctl s x)) \<Longrightarrow>
    StreamReply (Tag (task_msg tk)) msg (lk_ctl s x) = Done st \<Longrightarrow> link_step G R s (set_ctl x st s)"
| await: "recv_future ch (lk_ctl s x) = Done (v, st) \<Longrightarrow> link_step G R s (set_ctl x st s)"

inductive link_reachable ::
  "lib \<Rightarrow> (bool \<Rightarrow> RPC \<Rightarrow> (go_error + bytes) option \<Rightarrow> bool) \<Rightarrow> 'i link \<Rightarrow> bool" for G R where
  start: "fresh (lk_ctl s True) \<Longrightarrow> fresh (lk_ctl s False) \<Longrightarrow> lk_read s = (\<lambda>_. 0) \<Longrightarrow> link_reachable G R s"
| step: "link_reachable G R s \<Longrightarrow> link_step G R s s' \<Longrightarrow> link_reachable G R s'"

subsection \<open>Where the calls are\<close>

fun is_request :: "RPC \<Rightarrow> bool" where
  "is_request m = (case Content m of Some (RPC_Request _) \<Rightarrow> True | _ \<Rightarrow> False)"

fun is_response :: "RPC \<Rightarrow> bool" where
  "is_response m = (case Content m of Some (RPC_Response _) \<Rightarrow> True | _ \<Rightarrow> False)"

fun is_stream_msg :: "RPC \<Rightarrow> bool" where
  "is_stream_msg m = (case Content m of Some (RPC_ServerStreamMsg _) \<Rightarrow> True | _ \<Rightarrow> False)"

lemma content_kind:
  "is_request m \<Longrightarrow> \<not> is_response m" "is_request m \<Longrightarrow> \<not> is_stream_msg m" "is_response m \<Longrightarrow> \<not> is_stream_msg m"
  "Content m \<noteq> None \<longleftrightarrow> is_request m \<or> is_response m \<or> is_stream_msg m"
  by (auto split: option.splits RPC_Content.splits)

declare is_request.simps [simp del] is_response.simps [simp del] is_stream_msg.simps [simp del]

definition tags :: "(RPC \<Rightarrow> bool) \<Rightarrow> RPC list \<Rightarrow> tag list" where
  "tags P ms = map Tag (filter P ms)"

lemma tags_simps [simp]:
  "tags P [] = []" "tags P (m # ms) = (if P m then Tag m # tags P ms else tags P ms)"
  "tags P (ms @ ns) = tags P ms @ tags P ns"
  by (simp_all add: tags_def)

text \<open>
  The calls of \<open>X\<close> that are under way: requests that \<open>Y\<close> has not read, tasks of \<open>Y\<close>, and
  responses that \<open>X\<close> has not read.
\<close>

definition in_flight :: "'i StreamController \<Rightarrow> 'i StreamController \<Rightarrow> nat \<Rightarrow> nat \<Rightarrow> tag list" where
  "in_flight X Y rx ry =
     tags is_request (drop ry (wire X)) @ map (\<lambda>tk. Tag (task_msg tk)) (ctl_pool Y) @
     tags is_response (drop rx (wire Y))"

text \<open>
  Stream messages find their call pending when the messages are read in order; \<open>P\<close> are the
  tags that are pending before.
\<close>

fun streams_open :: "tag set \<Rightarrow> RPC list \<Rightarrow> bool" where
  "streams_open P [] = True"
| "streams_open P (m # ms) \<longleftrightarrow>
     (is_stream_msg m \<longrightarrow> Tag m \<in> P) \<and> streams_open (if is_response m then P - {Tag m} else P) ms"

text \<open>No send fails.\<close>

abbreviation reliable :: "'i StreamController \<Rightarrow> bool" where
  "reliable st \<equiv> (\<forall>sent m. s_send (ctl_stream st) sent m = None)"

text \<open>The responses that a request may get.\<close>

definition answer :: "lib \<Rightarrow> (RPC \<Rightarrow> (go_error + bytes) option \<Rightarrow> bool) \<Rightarrow> RPC \<Rightarrow> RPC \<Rightarrow> bool" where
  "answer G R q m \<longleftrightarrow>
     (\<exists>c b. R q (Some (Inr b)) \<and> m = response_msg (Tag q) b (Some \<lparr>st_code = OK, st_message = code_String G OK\<rparr>)
        (FromMD (Some (outgoing_md G c)))) \<or>
     (\<exists>c e. R q (Some (Inl e)) \<and> m = response_msg (Tag q) [] (status_Convert G (Some e)) (FromMD (Some (outgoing_md G c))))"

text \<open>The requests that get an answer: those that may not be left without.\<close>

definition promised :: "(RPC \<Rightarrow> (go_error + bytes) option \<Rightarrow> bool) \<Rightarrow> RPC list \<Rightarrow> tag list" where
  "promised R ms = tags (\<lambda>q. is_request q \<and> \<not> R q None) ms"

definition flight_ok where
  "flight_ok R X Y rx ry \<longleftrightarrow>
     distinct (in_flight X Y rx ry) \<and> set (in_flight X Y rx ry) \<subseteq> dom (pendingRPCs X) \<and>
     streams_open (dom (pendingRPCs X)) (drop rx (wire Y)) \<and>
     (reliable Y \<longrightarrow> set (promised R (wire X)) \<inter> dom (pendingRPCs X) \<subseteq> set (in_flight X Y rx ry))"

definition origin_ok where
  "origin_ok G R X Y \<longleftrightarrow>
     (\<forall>tk \<in> set (ctl_pool Y). is_request (task_msg tk) \<and> task_msg tk \<in> set (wire X)) \<and>
     (\<forall>m \<in> set (wire Y). is_response m \<longrightarrow> (\<exists>q \<in> set (wire X). is_request q \<and> answer G R q m)) \<and>
     distinct (tags is_request (wire X)) \<and> set (tags is_request (wire X)) \<subseteq> tag_of ` {..<ctl_nfut X} \<and>
     (\<forall>m \<in> set (wire X). Content m \<noteq> None)"

definition futures_from where
  "futures_from X Y \<longleftrightarrow>
     (\<forall>ch c. ctl_futures X ch = Some c \<longrightarrow> set (chan_buf c) \<subseteq> set (wire Y)) \<and>
     (\<forall>ch c. ctl_futures X ch = Some c \<longrightarrow> pendingRPCs X (tag_of ch) = None \<longrightarrow> chan_closed c)"

definition dir_inv where
  "dir_inv G R X Y rx ry \<longleftrightarrow>
     ctl_inv X \<and> ctl_nfut X < 2 ^ 64 \<and> rx \<le> length (wire Y) \<and> ry \<le> length (wire X) \<and>
     flight_ok R X Y rx ry \<and> origin_ok G R X Y \<and> futures_from X Y"

lemma answer_kind: "answer G R q m \<Longrightarrow> is_response m \<and> Tag m = Tag q"
  by (auto simp: answer_def response_msg_def is_response.simps)

lemma promised_requests: "set (promised R ms) \<subseteq> set (tags is_request ms)"
  by (auto simp: promised_def tags_def)

lemma promised_simps [simp]:
  "promised R [] = []" "promised R (ms @ ns) = promised R ms @ promised R ns"
  "promised R [m] = (if is_request m \<and> \<not> R m None then [Tag m] else [])"
  by (simp_all add: promised_def)

lemma streams_open_mono: "streams_open P ms \<Longrightarrow> P \<subseteq> Q \<Longrightarrow> streams_open Q ms"
proof (induction ms arbitrary: P Q)
  case (Cons m ms)
  show ?case
  proof (cases "is_response m")
    case True
    then show ?thesis using Cons.IH [of "P - {Tag m}" "Q - {Tag m}"] Cons.prems by auto
  next
    case False
    then show ?thesis using Cons.IH [of P Q] Cons.prems by auto
  qed
qed simp

lemma streams_open_append:
  "streams_open P (ms @ ns) \<longleftrightarrow> streams_open P ms \<and> streams_open (P - set (tags is_response ms)) ns"
proof (induction ms arbitrary: P)
  case (Cons m ms)
  have "P - {Tag m} - set (tags is_response ms) = P - insert (Tag m) (set (tags is_response ms))" by blast
  with Cons show ?case by simp
qed simp

lemma streams_open_other: "\<forall>m \<in> set ms. \<not> is_stream_msg m \<Longrightarrow> streams_open P ms"
  by (induction ms arbitrary: P) auto

lemmas dir_defs = dir_inv_def flight_ok_def origin_ok_def futures_from_def in_flight_def

subsection \<open>Steps of the client side\<close>

text \<open>What a send does: the message may or may not get onto the wire.\<close>

lemma sent:
  assumes "ctl_inv st" and "send_or_kick m st = Done st'"
  shows "ctl_inv st'" and "ctl_nfut st' = ctl_nfut st" and "pendingRPCs st' = pendingRPCs st"
    and "ctl_futures st' = ctl_futures st" and "ctl_pool st' = ctl_pool st"
    and "s_send (ctl_stream st') = s_send (ctl_stream st)"
    and "\<exists>ms. wire st' = wire st @ ms \<and> (ms = [m] \<or> ms = [] \<and> \<not> reliable st)"
proof -
  have k: "kick_ok (ctl_kickOnce st) (ctl_receiver st)" using assms(1) by (simp add: ctl_inv_def)
  obtain s once w where r: "send_or_kick m st = Done (st\<lparr>ctl_stream := s, ctl_kickOnce := once, ctl_receiver := w\<rparr>)"
    "s_wire s = wire st @ (if s_send (ctl_stream st) (s_attempts (ctl_stream st)) m = None then [m] else [])"
    "s_send s = s_send (ctl_stream st)"
    by (rule send_or_kick_Done [OF k]) blast
  show "ctl_inv st'" using ctl_inv_send_or_kick [OF assms(1), of m] assms(2) by auto
  show "ctl_nfut st' = ctl_nfut st" "pendingRPCs st' = pendingRPCs st" "ctl_futures st' = ctl_futures st"
    "ctl_pool st' = ctl_pool st" "s_send (ctl_stream st') = s_send (ctl_stream st)" using r(1,3) assms(2) by auto
  show "\<exists>ms. wire st' = wire st @ ms \<and> (ms = [m] \<or> ms = [] \<and> \<not> reliable st)" using r assms(2) by auto
qed

lemma client_sends_other:
  assumes "dir_inv G R X Y rx ry" and "ctl_inv X'" and "ctl_nfut X' = ctl_nfut X"
    and "pendingRPCs X' = pendingRPCs X" and "ctl_futures X' = ctl_futures X" and "wire X' = wire X @ ms"
    and "\<forall>m \<in> set ms. \<not> is_request m \<and> Content m \<noteq> None"
  shows "dir_inv G R X' Y rx ry"
proof -
  have t: "tags is_request ms = []" using assms(7) by (auto simp: tags_def filter_empty_conv)
  moreover from t have "promised R ms = []" using promised_requests [of R ms] by simp
  ultimately show ?thesis using assms by (auto simp: dir_defs)
qed

lemma client_changes_future:
  assumes "dir_inv G R X Y rx ry" and "ctl_inv X'" and "ctl_nfut X' = ctl_nfut X"
    and "pendingRPCs X' = pendingRPCs X" and "wire X' = wire X" and "futures_from X' Y"
  shows "dir_inv G R X' Y rx ry"
  using assms by (simp add: dir_inv_def flight_ok_def origin_ok_def in_flight_def)

lemma drop_head: "drop n xs = y # ys \<Longrightarrow> drop (Suc n) xs = ys \<and> Suc n \<le> length xs \<and> y \<in> set xs"
proof -
  assume d: "drop n xs = y # ys"
  have "drop (Suc n) xs = tl (drop n xs)" by (simp add: drop_Suc tl_drop)
  moreover have "\<not> length xs \<le> n" using d by (metis drop_all list.distinct(1))
  moreover have "y \<in> set xs" using d in_set_dropD [of y n xs] by simp
  ultimately show ?thesis using d by simp
qed

lemma client_reads_other:
  assumes "dir_inv G R X Y rx ry" and "drop rx (wire Y) = m # ms" and "\<not> is_response m"
  shows "dir_inv G R X Y (Suc rx) ry"
  using assms drop_head [OF assms(2)] by (simp add: dir_inv_def flight_ok_def in_flight_def)

text \<open>The new tag is not in use, neither on the wire nor in the table.\<close>

lemma new_tag:
  assumes d: "dir_inv G R X Y rx ry" and b: "Suc (ctl_nfut X) < 2 ^ 64"
  shows "tag_of (ctl_nfut X) \<notin> set (in_flight X Y rx ry)" and "tag_of (ctl_nfut X) \<notin> set (tags is_request (wire X))"
    and "tag_of (ctl_nfut X) \<notin> tag_of ` {..<ctl_nfut X}"
proof -
  have i: "ctl_inv X" using d by (simp add: dir_inv_def)
  show new: "tag_of (ctl_nfut X) \<notin> tag_of ` {..<ctl_nfut X}"
  proof
    assume "tag_of (ctl_nfut X) \<in> tag_of ` {..<ctl_nfut X}"
    then obtain k where k: "k < ctl_nfut X" "tag_of k = tag_of (ctl_nfut X)" by (metis imageE lessThan_iff)
    from tag_of_inj [OF less_SucI [OF k(1)] lessI b k(2)] k(1) show False by simp
  qed
  have pend: "dom (pendingRPCs X) \<subseteq> tag_of ` {..<ctl_nfut X}"
    using i pending_address [OF i] by (fastforce simp: ctl_inv_def pending_ok_def)
  show "tag_of (ctl_nfut X) \<notin> set (in_flight X Y rx ry)"
    using new pend d unfolding dir_inv_def flight_ok_def by blast
  have "set (tags is_request (wire X)) \<subseteq> tag_of ` {..<ctl_nfut X}" using d by (simp add: dir_inv_def origin_ok_def)
  with new show "tag_of (ctl_nfut X) \<notin> set (tags is_request (wire X))" by blast
qed

lemma client_calls:
  assumes d: "dir_inv G R X Y rx ry" and r: "Request G c m X = Done (ch, m', X')"
    and m: "Content m = Some (RPC_Request b)" and b: "Suc (ctl_nfut X) < 2 ^ 64"
  shows "dir_inv G R X' Y rx ry"
proof -
  have i: "ctl_inv X" using d by (simp add: dir_inv_def)
  have m': "Content m' = Some (RPC_Request b)" "Tag m' = tag_of (ctl_nfut X)"
    and s: "send_or_kick m' (with_call X) = Done X'"
    using r m i by (auto simp: Request_alt tag_of_def ctl_inv_def futures_ok_def)
  have count: "ctl_count X + 1 = tag_of (ctl_nfut X)" using i by (simp add: tag_of_def ctl_inv_def futures_ok_def)
  note x = sent [OF ctl_inv_with_call [OF i] s]
  obtain ns where ns: "wire X' = wire X @ ns" "ns = [m'] \<or> ns = []"
    using x(7) by (auto simp: with_call_def)
  note new = new_tag [OF d b]
  have X': "pendingRPCs X' = (pendingRPCs X)(tag_of (ctl_nfut X) \<mapsto> ctl_nfut X)"
    "ctl_futures X' = (ctl_futures X)(ctl_nfut X \<mapsto> make_chan 1)" "ctl_nfut X' = Suc (ctl_nfut X)"
    using x(2,3,4) count by (simp_all add: with_call_def)
  have ry: "ry \<le> length (wire X)" using d by (simp add: dir_inv_def)
  have kinds: "is_request m'" "\<not> is_response m'" "\<not> is_stream_msg m'"
    using m'(1) by (simp_all add: is_request.simps is_response.simps is_stream_msg.simps)
  from ns(2) consider "ns = []" | "ns = [m']" by blast
  then have "flight_ok R X' Y rx ry \<and> origin_ok G R X' Y"
  proof cases
    case 1
    have "tag_of (ctl_nfut X) \<notin> set (promised R (wire X))" using new(2) promised_requests by blast
    with d 1 ns(1) streams_open_mono [OF _ subset_insertI] show ?thesis
      by (auto simp: dir_inv_def flight_ok_def in_flight_def origin_ok_def X')
  next
    case 2
    have f: "in_flight X' Y rx ry = tags is_request (drop ry (wire X)) @ tag_of (ctl_nfut X) #
        map (\<lambda>tk. Tag (task_msg tk)) (ctl_pool Y) @ tags is_response (drop rx (wire Y))"
      using 2 ns(1) ry kinds(1) m'(2) by (simp add: in_flight_def)
    have "flight_ok R X' Y rx ry"
      using d new(1) 2 ns(1) kinds(1) m'(2) streams_open_mono [OF _ subset_insertI] unfolding flight_ok_def dir_inv_def f
      by (auto simp: in_flight_def X')
    moreover have "origin_ok G R X' Y"
      using d 2 ns(1) kinds(1) m' new(3) by (auto simp: dir_inv_def origin_ok_def X')
    ultimately show ?thesis by blast
  qed
  moreover have "futures_from X' Y"
    using d by (auto simp: dir_inv_def futures_from_def X' make_chan_def)
  ultimately show ?thesis using d b x(1) ns(1) X'(3) by (auto simp: dir_inv_def)
qed

lemma future_address:
  assumes "ctl_inv X" and "ctl_futures X k = Some v"
  shows "k < ctl_nfut X"
proof -
  have "dom (ctl_futures X) = {..<ctl_nfut X}" using assms(1) by (simp add: ctl_inv_def futures_ok_def)
  with assms(2) show ?thesis by blast
qed

lemma flight_remove:
  assumes "distinct (as @ t # bs)" and "set (as @ t # bs) \<subseteq> dom p" and "b \<longrightarrow> S \<inter> dom p \<subseteq> set (as @ t # bs)"
  shows "distinct (as @ bs) \<and> set (as @ bs) \<subseteq> dom (p(t := None)) \<and>
    (b \<longrightarrow> S \<inter> dom (p(t := None)) \<subseteq> set (as @ bs))"
  using assms by auto

lemma client_gets_response:
  assumes d: "dir_inv G R X Y rx ry" and u: "drop rx (wire Y) = m # ms" and m: "is_response m"
    and r: "run_dispatch G c m X = RunContinue X'"
  shows "dir_inv G R X' Y (Suc rx) ry"
proof -
  have i: "ctl_inv X" using d by (simp add: dir_inv_def)
  obtain rsp where "Content m = Some (RPC_Response rsp)"
    using m by (auto simp: is_response.simps split: option.splits RPC_Content.splits)
  then obtain ch where ch: "pendingRPCs X (Tag m) = Some ch" "X' = answered X ch m"
    using r run_dispatch_response [OF i] by (auto split: option.splits if_splits)
  have t: "Tag m = tag_of ch" using pending_future [OF i ch(1)] by blast
  have i': "ctl_inv X'" using ctl_inv_answered [OF i ch(1)] ch(2) by simp
  note h = drop_head [OF u]
  let ?as = "tags is_request (drop ry (wire X)) @ map (\<lambda>tk. Tag (task_msg tk)) (ctl_pool Y)"
  have f: "in_flight X Y rx ry = ?as @ Tag m # tags is_response ms" using u m by (simp add: in_flight_def)
  have f': "in_flight X' Y (Suc rx) ry = ?as @ tags is_response ms"
    using h ch(2) by (simp add: in_flight_def answered_def)
  have X': "pendingRPCs X' = (pendingRPCs X)(Tag m := None)" "wire X' = wire X"
    by (simp_all add: ch(2) answered_def t)
  have fo: "distinct (?as @ Tag m # tags is_response ms)" "set (?as @ Tag m # tags is_response ms) \<subseteq> dom (pendingRPCs X)"
    "reliable Y \<longrightarrow> set (promised R (wire X)) \<inter> dom (pendingRPCs X) \<subseteq> set (?as @ Tag m # tags is_response ms)"
    "streams_open (dom (pendingRPCs X)) (m # ms)"
    using d unfolding dir_inv_def flight_ok_def f u by blast+
  have "streams_open (dom ((pendingRPCs X)(Tag m := None))) (drop (Suc rx) (wire Y))"
    using fo(4) h m by simp
  then have "flight_ok R X' Y (Suc rx) ry"
    using flight_remove [OF fo(1,2,3)] unfolding flight_ok_def f' X' by blast
  moreover have "origin_ok G R X' Y" using d by (simp add: dir_inv_def origin_ok_def ch(2) answered_def)
  moreover have "futures_from X' Y"
  proof -
    have "ctl_nfut X < 2 ^ 64" using d by (simp only: dir_inv_def)
    then have "tag_of k = tag_of ch \<Longrightarrow> k = ch" if "ctl_futures X k = Some v" for k v
      using tag_of_inj [of k "ctl_nfut X" ch] future_address [OF i that] pending_address [OF i ch(1)] by blast
    then show ?thesis
      using d h by (auto simp: dir_inv_def futures_from_def ch(2) answered_def t)
  qed
  ultimately show ?thesis using d i' h by (simp add: dir_inv_def ch(2) answered_def)
qed

lemma client_gets_stream_msg:
  assumes d: "dir_inv G R X Y rx ry" and u: "drop rx (wire Y) = m # ms" and m: "is_stream_msg m"
    and r: "run_dispatch G c m X = RunContinue X'"
  shows "dir_inv G R X' Y (Suc rx) ry"
proof -
  have i: "ctl_inv X" using d by (simp add: dir_inv_def)
  obtain rsp where "Content m = Some (RPC_ServerStreamMsg rsp)"
    using m by (auto simp: is_stream_msg.simps split: option.splits RPC_Content.splits)
  then obtain ch where ch: "pendingRPCs X (Tag m) = Some ch" "X' = streamed X ch m"
    using r run_dispatch_stream_msg [OF i] by (auto split: option.splits if_splits)
  have t: "Tag m = tag_of ch" using pending_future [OF i ch(1)] by blast
  have "futures_from X' Y"
    using d drop_head [OF u] ch(1) t by (auto simp: dir_inv_def futures_from_def ch(2) streamed_def)
  moreover have "ctl_inv X'" using ctl_inv_streamed [OF i ch(1)] ch(2) by simp
  ultimately have "dir_inv G R X' Y rx ry"
    by (intro client_changes_future [OF d]) (simp_all add: ch(2) streamed_def)
  then show ?thesis using client_reads_other u m content_kind(3) by blast
qed

lemma client_receives:
  assumes d: "dir_inv G R X Y rx ry" and u: "drop rx (wire Y) = m # ms"
    and r: "run_dispatch G c m X = RunContinue X'"
  shows "dir_inv G R X' Y (Suc rx) ry"
proof -
  have "Content m \<noteq> None" using r by (cases "Content m") (simp_all add: run_dispatch_def)
  then consider "is_request m" | "is_response m" | "is_stream_msg m" using content_kind(4) by blast
  then show ?thesis
  proof cases
    case 1
    then have "\<exists>p. X' = X\<lparr>ctl_pool := p\<rparr>"
      using r by (auto simp: run_dispatch_def is_request.simps split: option.splits RPC_Content.splits)
    then have "dir_inv G R X' Y rx ry"
      using d by (elim exE) (simp add: dir_defs ctl_inv_pool)
    then show ?thesis using client_reads_other u 1 content_kind(1) by blast
  next
    case 2
    then show ?thesis by (rule client_gets_response [OF d u _ r])
  next
    case 3
    then show ?thesis by (rule client_gets_stream_msg [OF d u _ r])
  qed
qed

lemma client_awaits:
  assumes d: "dir_inv G R X Y rx ry" and r: "recv_future ch X = Done (v, X')"
  shows "dir_inv G R X' Y rx ry"
proof -
  have i: "ctl_inv X" using d by (simp add: dir_inv_def)
  obtain cn cn' where c: "ctl_futures X ch = Some cn" "chan_recv cn = Done (v, cn')"
    "X' = X\<lparr>ctl_futures := (ctl_futures X)(ch \<mapsto> cn')\<rparr>"
    using r by (auto simp: recv_future_def split: option.splits)
  have "set (chan_buf cn') \<subseteq> set (chan_buf cn)" "chan_closed cn' = chan_closed cn"
    using c(2) by (auto simp: chan_recv_def split: list.splits if_splits)
  then have "futures_from X' Y" using d c by (auto simp: dir_inv_def futures_from_def)
  then show ?thesis
    by (intro client_changes_future [OF d ctl_inv_recv_future [OF i r]]) (simp_all add: c(3))
qed

subsection \<open>Steps of the server side\<close>

lemma futures_from_extend: "futures_from X Y \<Longrightarrow> wire Y' = wire Y @ ms \<Longrightarrow> futures_from X Y'"
  unfolding futures_from_def by fastforce

lemma server_sends:
  assumes d: "dir_inv G R X Y rx ry" and "ctl_pool Y' = ctl_pool Y" and w: "wire Y' = wire Y @ ms"
    and "s_send (ctl_stream Y') = s_send (ctl_stream Y)" and "\<forall>m \<in> set ms. \<not> is_response m"
    and o: "streams_open (dom (pendingRPCs X) - set (tags is_response (drop rx (wire Y)))) ms"
  shows "dir_inv G R X Y' rx ry"
proof -
  have n: "tags is_response ms = []" using assms(5) by (auto simp: tags_def filter_empty_conv)
  moreover have rx: "rx \<le> length (wire Y)" using d by (simp add: dir_inv_def)
  ultimately have f: "in_flight X Y' rx ry = in_flight X Y rx ry" using assms(2) w by (simp add: in_flight_def)
  have "flight_ok R X Y' rx ry"
    using d o rx w assms(4) unfolding dir_inv_def flight_ok_def f by (simp add: streams_open_append)
  moreover have "origin_ok G R X Y'" using d assms(2,5) w by (auto simp: dir_inv_def origin_ok_def)
  moreover have "futures_from X Y'" by (rule futures_from_extend [OF _ w]) (use d in \<open>simp add: dir_inv_def\<close>)
  ultimately show ?thesis using d w by (simp add: dir_inv_def)
qed

lemma server_same:
  assumes "dir_inv G R X Y rx ry" and "ctl_pool Y' = ctl_pool Y" and "ctl_stream Y' = ctl_stream Y"
  shows "dir_inv G R X Y' rx ry"
  using server_sends [OF assms(1,2), of "[]"] assms(3) by simp

lemma run_of_Continue: "run_of r = RunContinue st \<longleftrightarrow> r = Done st"
  by (cases r) auto

lemma run_dispatch_same:
  "run_dispatch G c m st = RunContinue st' \<Longrightarrow> ctl_nfut st' = ctl_nfut st \<and> ctl_stream st' = ctl_stream st"
  by (auto simp: run_dispatch_def send_future_def close_future_def run_of_Continue split: option.splits RPC_Content.splits)

lemma server_receives:
  assumes d: "dir_inv G R X Y rx ry" and u: "drop ry (wire X) = m # ms"
    and r: "run_dispatch G c m Y = RunContinue Y'"
  shows "dir_inv G R X Y' rx (Suc ry)"
proof (cases "is_request m")
  case True
  then obtain tk where tk: "Y' = Y\<lparr>ctl_pool := ctl_pool Y @ [tk]\<rparr>" "task_msg tk = m"
    using r by (auto simp: run_dispatch_def is_request.simps split: option.splits RPC_Content.splits)
  note h = drop_head [OF u]
  have f: "in_flight X Y rx ry = Tag m # tags is_request ms @ map (\<lambda>tk. Tag (task_msg tk)) (ctl_pool Y) @
      tags is_response (drop rx (wire Y))" using u True by (simp add: in_flight_def)
  have f': "in_flight X Y' rx (Suc ry) = tags is_request ms @ map (\<lambda>tk. Tag (task_msg tk)) (ctl_pool Y) @ Tag m #
      tags is_response (drop rx (wire Y))" using h tk by (simp add: in_flight_def)
  have "flight_ok R X Y' rx (Suc ry)"
    using d unfolding dir_inv_def flight_ok_def f f' by (auto simp: tk)
  moreover have "origin_ok G R X Y'" using d h True by (auto simp: dir_inv_def origin_ok_def tk)
  moreover have "futures_from X Y'" using d by (simp add: dir_inv_def futures_from_def tk)
  ultimately show ?thesis using d h by (simp add: dir_inv_def tk)
next
  case False
  have "ctl_pool Y' = ctl_pool Y \<and> ctl_stream Y' = ctl_stream Y"
    using r False
    by (auto simp: run_dispatch_def is_request.simps send_future_def close_future_def run_of_Continue
        split: option.splits RPC_Content.splits)
  then have "dir_inv G R X Y' rx ry" using server_same [OF d] by blast
  moreover have "in_flight X Y' rx (Suc ry) = in_flight X Y' rx ry"
    using u drop_head [OF u] False by (simp add: in_flight_def)
  ultimately show ?thesis using drop_head [OF u] by (simp add: dir_inv_def flight_ok_def)
qed

lemma server_streams:
  assumes d: "dir_inv G R X Y rx ry" and tk: "tk \<in> set (ctl_pool Y)" and m: "is_stream_msg m" "Tag m = Tag (task_msg tk)"
    and "ctl_pool Y' = ctl_pool Y" and "wire Y' = wire Y @ ms" and "ms = [m] \<or> ms = []"
    and "s_send (ctl_stream Y') = s_send (ctl_stream Y)"
  shows "dir_inv G R X Y' rx ry"
proof (rule server_sends [OF d assms(5,6,8)])
  show "\<forall>m \<in> set ms. \<not> is_response m" using m(1) assms(7) content_kind by auto
  have "Tag m \<in> dom (pendingRPCs X)" "Tag m \<notin> set (tags is_response (drop rx (wire Y)))"
    using d tk m(2) by (auto simp: dir_inv_def flight_ok_def in_flight_def)
  then show "streams_open (dom (pendingRPCs X) - set (tags is_response (drop rx (wire Y)))) ms"
    using assms(7) by auto
qed

text \<open>
  The end of a task; there is no reply on the wire when the stream is broken or the handler
  left the request unanswered.
\<close>

lemma mset_remove_task:
  assumes "tk \<in> set ps"
  shows "mset (map f ps) = add_mset (f tk) (mset (map f (remove1 tk ps)))"
proof -
  have q: "mset ps = add_mset tk (mset (remove1 tk ps))" using assms by simp
  show ?thesis unfolding mset_map by (subst q) (rule image_mset_add_mset)
qed

lemma not_promised:
  assumes "origin_ok G R X Y" and "tk \<in> set (ctl_pool Y)" and "R (task_msg tk) None"
  shows "Tag (task_msg tk) \<notin> set (promised R (wire X))"
proof
  assume "Tag (task_msg tk) \<in> set (promised R (wire X))"
  then obtain q where q: "q \<in> set (wire X)" "is_request q" "\<not> R q None" "Tag q = Tag (task_msg tk)"
    by (auto simp: promised_def tags_def)
  have "is_request (task_msg tk)" "task_msg tk \<in> set (wire X)" "distinct (tags is_request (wire X))"
    using assms(1,2) by (auto simp: origin_ok_def)
  with q have "q = task_msg tk" by (auto simp: tags_def distinct_map inj_on_def)
  with q(3) assms(3) show False by simp
qed

lemma server_replies:
  assumes d: "dir_inv G R X Y rx ry" and tk: "tk \<in> set (ctl_pool Y)"
    and Y': "ctl_pool Y' = remove1 tk (ctl_pool Y)" "wire Y' = wire Y @ ms"
      "ms = [m] \<and> answer G R (task_msg tk) m \<or> ms = [] \<and> (reliable Y \<longrightarrow> R (task_msg tk) None)"
      "s_send (ctl_stream Y') = s_send (ctl_stream Y)"
  shows "dir_inv G R X Y' rx ry"
proof -
  let ?tag = "\<lambda>tk. Tag (task_msg tk)"
  have m: "is_response m \<and> Tag m = ?tag tk \<and> \<not> is_stream_msg m" if "ms = [m]"
    using Y'(3) that answer_kind [of G R "task_msg tk" m] content_kind by auto
  have rx: "rx \<le> length (wire Y)" using d by (simp add: dir_inv_def)
  have fm: "mset (in_flight X Y' rx ry) + (if ms = [m] then {#} else {#?tag tk#}) = mset (in_flight X Y rx ry)"
    using mset_remove_task [OF tk, of ?tag] rx m Y' by (auto simp: in_flight_def)
  have f: "distinct (in_flight X Y' rx ry)" "set (in_flight X Y' rx ry) \<subseteq> set (in_flight X Y rx ry)"
    "ms = [m] \<longrightarrow> set (in_flight X Y' rx ry) = set (in_flight X Y rx ry)"
  proof -
    have "distinct (in_flight X Y rx ry)" using d by (simp add: dir_inv_def flight_ok_def)
    moreover have "mset ((if ms = [m] then [] else [?tag tk]) @ in_flight X Y' rx ry) = mset (in_flight X Y rx ry)"
      using fm by (auto split: if_splits)
    ultimately show "distinct (in_flight X Y' rx ry)" using mset_eq_imp_distinct_iff distinct_append by metis
    show "set (in_flight X Y' rx ry) \<subseteq> set (in_flight X Y rx ry)"
      using fm by (metis set_mset_mono set_mset_mset mset_subset_eq_add_left)
    show "ms = [m] \<longrightarrow> set (in_flight X Y' rx ry) = set (in_flight X Y rx ry)"
    proof
      assume "ms = [m]"
      then have "mset (in_flight X Y' rx ry) = mset (in_flight X Y rx ry)" using fm by simp
      then show "set (in_flight X Y' rx ry) = set (in_flight X Y rx ry)" by (rule mset_eq_setD)
    qed
  qed
  have "streams_open (dom (pendingRPCs X)) (drop rx (wire Y'))"
    using d rx m Y'(2,3) by (auto simp: dir_inv_def flight_ok_def streams_open_append)
  moreover have "reliable Y' \<longrightarrow> set (promised R (wire X)) \<inter> dom (pendingRPCs X) \<subseteq> set (in_flight X Y' rx ry)"
  proof (cases "ms = [m]")
    case True
    then show ?thesis using d f(3) Y'(4) by (auto simp: dir_inv_def flight_ok_def)
  next
    case False
    show ?thesis
    proof
      assume r: "reliable Y'"
      then have "R (task_msg tk) None" using False Y'(3,4) by auto
      then have "?tag tk \<notin> set (promised R (wire X))"
        using not_promised tk d unfolding dir_inv_def by blast
      moreover have "mset (in_flight X Y rx ry) = add_mset (?tag tk) (mset (in_flight X Y' rx ry))"
        using fm False by simp
      then have "set (in_flight X Y rx ry) = insert (?tag tk) (set (in_flight X Y' rx ry))"
        by (metis set_mset_add_mset_insert set_mset_mset)
      ultimately show "set (promised R (wire X)) \<inter> dom (pendingRPCs X) \<subseteq> set (in_flight X Y' rx ry)"
        using d r Y'(4) unfolding dir_inv_def flight_ok_def by auto
    qed
  qed
  ultimately have "flight_ok R X Y' rx ry"
    using d f unfolding dir_inv_def flight_ok_def by blast
  moreover have "origin_ok G R X Y'"
    using d tk Y'(1,2,3) set_remove1_subset [of tk "ctl_pool Y"] by (auto simp: dir_inv_def origin_ok_def)
  moreover have "futures_from X Y'" by (rule futures_from_extend [OF _ Y'(2)]) (use d in \<open>simp add: dir_inv_def\<close>)
  ultimately show ?thesis using d Y'(2) by (simp add: dir_inv_def)
qed

subsection \<open>Both directions\<close>

definition link_inv :: "lib \<Rightarrow> (bool \<Rightarrow> RPC \<Rightarrow> (go_error + bytes) option \<Rightarrow> bool) \<Rightarrow> 'i link \<Rightarrow> bool" where
  "link_inv G R s \<longleftrightarrow>
     (\<forall>x. dir_inv G (R (\<not> x)) (lk_ctl s x) (lk_ctl s (\<not> x)) (lk_read s x) (lk_read s (\<not> x)))"

text \<open>A step of side \<open>x\<close> is a step of the client in one direction and of the server in the other.\<close>

lemma link_inv_set:
  assumes "dir_inv G (R (\<not> x)) st (lk_ctl s (\<not> x)) n (lk_read s (\<not> x))"
    and "dir_inv G (R x) (lk_ctl s (\<not> x)) st (lk_read s (\<not> x)) n"
  shows "link_inv G R ((set_ctl x st s)\<lparr>lk_read := (lk_read s)(x := n)\<rparr>)"
  using assms by (auto simp: link_inv_def set_ctl_def split: if_splits)

lemma link_inv_ctl:
  assumes "dir_inv G (R (\<not> x)) st (lk_ctl s (\<not> x)) (lk_read s x) (lk_read s (\<not> x))"
    and "dir_inv G (R x) (lk_ctl s (\<not> x)) st (lk_read s (\<not> x)) (lk_read s x)"
  shows "link_inv G R (set_ctl x st s)"
proof -
  have "(set_ctl x st s)\<lparr>lk_read := (lk_read s)(x := lk_read s x)\<rparr> = set_ctl x st s" by (simp add: set_ctl_def)
  then show ?thesis using link_inv_set [OF assms] by simp
qed

lemma sides:
  assumes "link_inv G R s"
  shows "dir_inv G (R (\<not> x)) (lk_ctl s x) (lk_ctl s (\<not> x)) (lk_read s x) (lk_read s (\<not> x))"
    and "dir_inv G (R x) (lk_ctl s (\<not> x)) (lk_ctl s x) (lk_read s (\<not> x)) (lk_read s x)"
  using assms [unfolded link_inv_def, rule_format, of x] assms [unfolded link_inv_def, rule_format, of "\<not> x"]
  by simp_all

text \<open>A reply or a stream message is a message of the other kinds for the sender as a client.\<close>

lemma link_replies:
  assumes l: "link_inv G R s" and tk: "tk \<in> set (ctl_pool (lk_ctl s x))" and a: "answer G (R x) (task_msg tk) m"
    and r: "send_or_kick m (without_task tk (lk_ctl s x)) = Done st"
  shows "link_inv G R (set_ctl x st s)"
proof (rule link_inv_ctl)
  note d = sides [OF l, of x]
  have i: "ctl_inv (without_task tk (lk_ctl s x))"
    using d(1) by (simp add: dir_inv_def without_task_def ctl_inv_pool)
  note n = sent [OF i r, unfolded without_task_def, simplified]
  obtain ms where ms: "wire st = wire (lk_ctl s x) @ ms" "ms = [m] \<or> ms = [] \<and> \<not> reliable (lk_ctl s x)" using n(7) by auto
  have "\<forall>m \<in> set ms. \<not> is_request m \<and> Content m \<noteq> None"
    using ms(2) answer_kind [OF a] content_kind by auto
  then show "dir_inv G (R (\<not> x)) st (lk_ctl s (\<not> x)) (lk_read s x) (lk_read s (\<not> x))"
    by (rule client_sends_other [OF d(1) n(1,2,3,4) ms(1)])
  show "dir_inv G (R x) (lk_ctl s (\<not> x)) st (lk_read s (\<not> x)) (lk_read s x)"
    by (rule server_replies [OF d(2) tk n(5) ms(1) _ n(6)]) (use ms(2) a in auto)
qed

lemma link_drops:
  assumes l: "link_inv G R s" and tk: "tk \<in> set (ctl_pool (lk_ctl s x))" and r: "R x (task_msg tk) None"
  shows "link_inv G R (set_ctl x (without_task tk (lk_ctl s x)) s)"
proof (rule link_inv_ctl)
  note d = sides [OF l, of x]
  have st: "ctl_inv (without_task tk (lk_ctl s x))"
    using d(1) by (simp add: dir_inv_def without_task_def ctl_inv_pool)
  then show "dir_inv G (R (\<not> x)) (without_task tk (lk_ctl s x)) (lk_ctl s (\<not> x)) (lk_read s x) (lk_read s (\<not> x))"
    by (intro client_sends_other [OF d(1), where ms = "[]"]) (simp_all add: without_task_def)
  show "dir_inv G (R x) (lk_ctl s (\<not> x)) (without_task tk (lk_ctl s x)) (lk_read s (\<not> x)) (lk_read s x)"
    by (rule server_replies [OF d(2) tk, where ms = "[]"]) (use r in \<open>simp_all add: without_task_def\<close>)
qed

lemma link_streams:
  assumes l: "link_inv G R s" and tk: "tk \<in> set (ctl_pool (lk_ctl s x))"
    and r: "StreamReply (Tag (task_msg tk)) msg (lk_ctl s x) = Done st"
  shows "link_inv G R (set_ctl x st s)"
proof (rule link_inv_ctl)
  note d = sides [OF l, of x]
  obtain m where m: "send_or_kick m (lk_ctl s x) = Done st" "is_stream_msg m" "Tag m = Tag (task_msg tk)"
    using r by (auto simp: StreamReply_def is_stream_msg.simps)
  have i: "ctl_inv (lk_ctl s x)" using d(1) by (simp add: dir_inv_def)
  note n = sent [OF i m(1)]
  obtain ms where ms: "wire st = wire (lk_ctl s x) @ ms" "ms = [m] \<or> ms = []" using n(7) by auto
  have "\<forall>m \<in> set ms. \<not> is_request m \<and> Content m \<noteq> None" using ms(2) m(2) content_kind by auto
  then show "dir_inv G (R (\<not> x)) st (lk_ctl s (\<not> x)) (lk_read s x) (lk_read s (\<not> x))"
    by (rule client_sends_other [OF d(1) n(1,2,3,4) ms(1)])
  show "dir_inv G (R x) (lk_ctl s (\<not> x)) st (lk_read s (\<not> x)) (lk_read s x)"
    by (rule server_streams [OF d(2) tk m(2,3) n(5) ms n(6)])
qed

lemma link_calls:
  assumes l: "link_inv G R s" and r: "Request G c m (lk_ctl s x) = Done (ch, m', st)"
    and m: "Content m = Some (RPC_Request b)" and n: "Suc (ctl_nfut (lk_ctl s x)) < 2 ^ 64"
  shows "link_inv G R (set_ctl x st s)"
proof (rule link_inv_ctl)
  note d = sides [OF l, of x]
  show "dir_inv G (R (\<not> x)) st (lk_ctl s (\<not> x)) (lk_read s x) (lk_read s (\<not> x))" by (rule client_calls [OF d(1) r m n])
  have i: "ctl_inv (lk_ctl s x)" using d(1) by (simp add: dir_inv_def)
  have s: "send_or_kick m' (with_call (lk_ctl s x)) = Done st" "is_request m'"
    using r m by (auto simp: Request_alt is_request.simps)
  note t = sent [OF ctl_inv_with_call [OF i] s(1), unfolded with_call_def, simplified]
  obtain ms where ms: "wire st = wire (lk_ctl s x) @ ms" "ms = [m'] \<or> ms = []" using t(7) by auto
  show "dir_inv G (R x) (lk_ctl s (\<not> x)) st (lk_read s (\<not> x)) (lk_read s x)"
    by (rule server_sends [OF d(2) t(5) ms(1) t(6)])
      (use ms(2) s(2) content_kind in \<open>auto intro: streams_open_other\<close>)
qed

lemma link_inv_step:
  assumes "link_inv G R s" and "link_step G R s s'"
  shows "link_inv G R s'"
  using assms(2)
proof cases
  case (call c m x ch m' st b)
  then show ?thesis using link_calls [OF assms(1)] by blast
next
  case (receive x m ms c st)
  note d = sides [OF assms(1), of x]
  from client_receives [OF d(1) receive(2,3)] server_receives [OF d(2) receive(2,3)]
  show ?thesis unfolding receive(1) by (intro link_inv_set) simp_all
next
  case (reply tk x b c st)
  have "answer G (R x) (task_msg tk) (response_msg (Tag (task_msg tk)) b
      (Some \<lparr>st_code = OK, st_message = code_String G OK\<rparr>) (FromMD (Some (outgoing_md G c))))"
    using reply(3) by (auto simp: answer_def)
  then show ?thesis
    unfolding reply(1) by (rule link_replies [OF assms(1) reply(2)]) (use reply(4) in \<open>simp add: Reply_def\<close>)
next
  case (reply_error tk x e c st)
  have "answer G (R x) (task_msg tk) (response_msg (Tag (task_msg tk)) [] (status_Convert G (Some e))
      (FromMD (Some (outgoing_md G c))))"
    using reply_error(3) by (auto simp: answer_def)
  then show ?thesis
    unfolding reply_error(1)
    by (rule link_replies [OF assms(1) reply_error(2)]) (use reply_error(4) in \<open>simp add: ReplyErr_def\<close>)
next
  case (no_answer tk x)
  then show ?thesis using link_drops [OF assms(1)] by blast
next
  case (stream_reply tk x msg st)
  then show ?thesis using link_streams [OF assms(1)] by blast
next
  case (await ch x v st)
  note d = sides [OF assms(1), of x]
  have "ctl_pool st = ctl_pool (lk_ctl s x)" "ctl_stream st = ctl_stream (lk_ctl s x)"
    using await(2) by (auto simp: recv_future_def split: option.splits)
  then show ?thesis
    unfolding await(1) using client_awaits [OF d(1) await(2)] server_same [OF d(2)] by (intro link_inv_ctl) auto
qed

lemma link_inv_reachable: "link_reachable G R s \<Longrightarrow> link_inv G R s"
proof (induction rule: link_reachable.induct)
  case (start s)
  have f: "fresh (lk_ctl s x)" for x using start by (cases x) auto
  have "dir_inv G R' X Y 0 0" if "fresh X" "fresh Y" for X Y :: "'a StreamController" and R'
    using that by (auto simp: fresh_def dir_defs ctl_inv_def futures_ok_def)
  then show ?case using f start(3) by (simp add: link_inv_def)
next
  case (step s s')
  then show ?case by (blast intro: link_inv_step)
qed

subsection \<open>What the peers promise\<close>

lemma pending_dispatch:
  assumes "ctl_inv st" and "Tag m \<in> dom (pendingRPCs st)" and "is_response m \<or> is_stream_msg m"
  shows "(\<exists>st'. run_dispatch G c m st = RunContinue st') \<or>
    (\<exists>ch v st'. run_dispatch G c m st = RunBlocks \<and> pendingRPCs st (Tag m) = Some ch \<and> recv_future ch st = Done (Some v, st'))"
proof -
  obtain ch where ch: "pendingRPCs st (Tag m) = Some ch" using assms(2) by blast
  obtain cn where cn: "ctl_futures st ch = Some cn" using pending_future [OF assms(1) ch] by metis
  have "\<exists>v st'. recv_future ch st = Done (Some v, st')" if "\<not> future_empty st ch"
    using that cn by (cases "chan_buf cn") (auto simp: future_empty_def recv_future_def chan_recv_def)
  moreover have "(\<exists>st'. run_dispatch G c m st = RunContinue st') \<or> run_dispatch G c m st = RunBlocks \<and> \<not> future_empty st ch"
    using assms(3) run_dispatch_response [OF assms(1)] run_dispatch_stream_msg [OF assms(1)] ch
    by (auto simp: is_response.simps is_stream_msg.simps split: option.splits RPC_Content.splits)
  ultimately show ?thesis using ch by blast
qed

lemma peers_match:
  assumes "link_reachable G R s"
  shows "(\<forall>m ms. unread x s = m # ms \<longrightarrow>
      (\<exists>st. run_dispatch G c m (lk_ctl s x) = RunContinue st) \<or>
      (\<exists>ch v st. run_dispatch G c m (lk_ctl s x) = RunBlocks \<and> pendingRPCs (lk_ctl s x) (Tag m) = Some ch \<and>
         recv_future ch (lk_ctl s x) = Done (Some v, st))) \<and>
    (\<forall>ch cn m. ctl_futures (lk_ctl s x) ch = Some cn \<longrightarrow> m \<in> set (chan_buf cn) \<longrightarrow> is_response m \<longrightarrow>
      (\<exists>q. {q \<in> set (wire (lk_ctl s x)). is_request q \<and> Tag q = tag_of ch} = {q} \<and> answer G (R (\<not> x)) q m))"
proof (intro conjI allI impI)
  note d = sides [OF link_inv_reachable [OF assms], of x]
  have i: "ctl_inv (lk_ctl s x)" using d(1) by (simp add: dir_inv_def)
  fix m ms
  assume u: "unread x s = m # ms"
  have "m \<in> set (wire (lk_ctl s (\<not> x)))" using drop_head [OF u] by blast
  then have "Content m \<noteq> None" using d(2) by (simp add: dir_inv_def origin_ok_def)
  then consider "is_request m" | "is_response m \<or> is_stream_msg m" using content_kind(4) by blast
  then show "(\<exists>st. run_dispatch G c m (lk_ctl s x) = RunContinue st) \<or>
      (\<exists>ch v st. run_dispatch G c m (lk_ctl s x) = RunBlocks \<and> pendingRPCs (lk_ctl s x) (Tag m) = Some ch \<and>
         recv_future ch (lk_ctl s x) = Done (Some v, st))"
  proof cases
    case 1
    then show ?thesis by (auto simp: run_dispatch_def is_request.simps split: option.splits RPC_Content.splits)
  next
    case 2
    have "Tag m \<in> dom (pendingRPCs (lk_ctl s x))"
      using d(1) u 2 by (auto simp: dir_inv_def flight_ok_def in_flight_def)
    then show ?thesis by (rule pending_dispatch [OF i _ 2])
  qed
next
  note d = sides [OF link_inv_reachable [OF assms], of x]
  have i: "ctl_inv (lk_ctl s x)" using d(1) by (simp add: dir_inv_def)
  fix ch cn m
  assume m: "ctl_futures (lk_ctl s x) ch = Some cn" "m \<in> set (chan_buf cn)" "is_response m"
  have "m \<in> set (wire (lk_ctl s (\<not> x)))" using d(1) m(1,2) unfolding dir_inv_def futures_from_def by blast
  then obtain q where q: "q \<in> set (wire (lk_ctl s x))" "is_request q" "answer G (R (\<not> x)) q m"
    using d(1) m(3) unfolding dir_inv_def origin_ok_def by blast
  have "Tag m = tag_of ch"
    using i m(1,2) by (auto simp: ctl_inv_def futures_ok_def future_ok_def list_all_iff)
  then have t: "Tag q = tag_of ch" using answer_kind [OF q(3)] by simp
  have "distinct (tags is_request (wire (lk_ctl s x)))" using d(1) by (simp add: dir_inv_def origin_ok_def)
  then have "q' = q" if "q' \<in> set (wire (lk_ctl s x))" "is_request q'" "Tag q' = tag_of ch" for q'
    using that q(1,2) t by (auto simp: tags_def distinct_map inj_on_def)
  then have "{q \<in> set (wire (lk_ctl s x)). is_request q \<and> Tag q = tag_of ch} = {q}" using q(1,2) t by blast
  then show "\<exists>q. {q \<in> set (wire (lk_ctl s x)). is_request q \<and> Tag q = tag_of ch} = {q} \<and> answer G (R (\<not> x)) q m"
    using q(3) by blast
qed

text \<open>
  C1: Two peers joined by a stream, both making and serving calls, unary and server
  streaming, in any interleaving, with fewer than \<open>2 ^ 64\<close> calls each. The next message on
  the stream never makes the receiving controller panic for an unexpected tag or return: it
  is dispatched, or the controller waits for a future that its holder can read. And a
  response in the future of a call is an answer that the peer's handler gave to the request
  of that very call, the only request sent under its tag.
\<close>

theorem responses_match_requests:
  assumes "link_reachable G R s"
  shows "(\<forall>m ms. unread x s = m # ms \<longrightarrow>
      (\<exists>st. run_dispatch G c m (lk_ctl s x) = RunContinue st) \<or>
      (\<exists>ch v st. run_dispatch G c m (lk_ctl s x) = RunBlocks \<and> pendingRPCs (lk_ctl s x) (Tag m) = Some ch \<and>
         recv_future ch (lk_ctl s x) = Done (Some v, st))) \<and>
    (\<forall>ch cn m. ctl_futures (lk_ctl s x) ch = Some cn \<longrightarrow> m \<in> set (chan_buf cn) \<longrightarrow> is_response m \<longrightarrow>
      (\<exists>q. {q \<in> set (wire (lk_ctl s x)). is_request q \<and> Tag q = tag_of ch} = {q} \<and> answer G (R (\<not> x)) q m))"
  by (rule peers_match [OF assms])

text \<open>
  When no send of the peer fails, every request that a side has sent is still under way
  (unread by the peer, in its pool, or with its response unread), or answered: its future is
  closed; or it is one that the peer's handlers may leave without an answer.
\<close>

lemma call_somewhere:
  assumes "link_reachable G R s" and "reliable (lk_ctl s (\<not> x))" and "q \<in> set (wire (lk_ctl s x))" and "is_request q"
  shows "Tag q \<in> set (in_flight (lk_ctl s x) (lk_ctl s (\<not> x)) (lk_read s x) (lk_read s (\<not> x))) \<or>
    (\<exists>ch cn. Tag q = tag_of ch \<and> ctl_futures (lk_ctl s x) ch = Some cn \<and> chan_closed cn) \<or> R (\<not> x) q None"
proof (cases "Tag q \<in> dom (pendingRPCs (lk_ctl s x)) \<and> \<not> R (\<not> x) q None")
  note d = sides [OF link_inv_reachable [OF assms(1)], of x]
  {
    case True
    then have "Tag q \<in> set (promised (R (\<not> x)) (wire (lk_ctl s x)))"
      using assms(3,4) by (auto simp: promised_def tags_def)
    then show ?thesis using d(1) True assms(2) by (auto simp: dir_inv_def flight_ok_def)
  next
    case False
    have q: "Tag q \<in> set (tags is_request (wire (lk_ctl s x)))" using assms(3,4) by (auto simp: tags_def)
    obtain ch where ch: "Tag q = tag_of ch" "ch < ctl_nfut (lk_ctl s x)"
      using d(1) q unfolding dir_inv_def origin_ok_def by blast
    have "dom (ctl_futures (lk_ctl s x)) = {..<ctl_nfut (lk_ctl s x)}"
      using d(1) by (simp add: dir_inv_def ctl_inv_def futures_ok_def)
    then obtain cn where cn: "ctl_futures (lk_ctl s x) ch = Some cn" using ch(2) by blast
    then have "chan_closed cn" if "\<not> R (\<not> x) q None"
      using d(1) False that ch(1) unfolding dir_inv_def futures_from_def by (simp add: domIff)
    with ch(1) cn show ?thesis by blast
  }
qed

text \<open>
  C14: The round trip of a call. The peer's worker gets the service, the method, the bytes
  and the metadata of the caller's outgoing context as they were given to \<open>Request\<close>; and
  when it replies under the tag of the message, the caller reads from the future of the
  call the bytes of the reply, the status OK and the metadata of the handler's context.
\<close>

theorem call_round_trip:
  assumes "ctl_inv X" and "Request G c m X = Done (ch, m', X')" and "Content m = Some (RPC_Request b)" and "reliable X"
    and "ctl_inv Y" and "reliable Y" and "Reply G c2 (Tag m') data Y = Done Y'"
  shows "\<exists>tk r X2 X3. wire X' = wire X @ [m'] \<and>
    run_dispatch G c1 m' Y = RunContinue (Y\<lparr>ctl_pool := ctl_pool Y @ [tk]\<rparr>) \<and>
    ServiceName (task_msg tk) = ServiceName m \<and> MethodName (task_msg tk) = MethodName m \<and>
    GetRequest (Some (task_msg tk)) = b \<and> task_md tk = outgoing_md G c \<and> Tag (task_msg tk) = Tag m' \<and>
    wire Y' = wire Y @ [r] \<and> run_dispatch G c3 r X' = RunContinue X2 \<and> recv_future ch X2 = Done (Some r, X3) \<and>
    Response_GetResponse (GetResponse (Some r)) = data \<and> st_code (GetStatus G (GetResponse (Some r))) = OK \<and>
    ToMD (Metadata r) = outgoing_md G c2"
proof -
  define tk where "tk = \<lparr>task_ctx = incoming_ctx G c1 m', task_msg = m', task_md = ToMD (Metadata m')\<rparr>"
  define r where "r = response_msg (Tag m') data (Some \<lparr>st_code = OK, st_message = code_String G OK\<rparr>)
    (FromMD (Some (outgoing_md G c2)))"
  have m': "m' = m\<lparr>Metadata := FromMD (Some (outgoing_md G c)), Tag := ctl_count X + 1\<rparr>"
    and s: "send_or_kick m' (with_call X) = Done X'" and ch: "ch = ctl_nfut X"
    using assms(2) by (auto simp: Request_alt)
  note x = sent [OF ctl_inv_with_call [OF assms(1)] s]
  have X': "wire X' = wire X @ [m']" "pendingRPCs X' (Tag m') = Some ch" "future_empty X' ch"
    using x(3,4,7) assms(4) by (auto simp: with_call_def m' ch future_empty_def make_chan_def)
  have "send_or_kick r Y = Done Y'" using assms(7) by (simp add: Reply_def r_def)
  from sent(7) [OF assms(5) this] assms(6) have Y': "wire Y' = wire Y @ [r]" by auto
  have "Content r = Some (RPC_Response (Some \<lparr>Response_bytes = data,
      StatusProto = Some \<lparr>st_code = OK, st_message = code_String G OK\<rparr>\<rparr>))" "Tag r = Tag m'"
    by (simp_all add: r_def response_msg_def)
  with run_dispatch_response [OF x(1)] X'(2,3)
  have d: "run_dispatch G c3 r X' = RunContinue (answered X' ch r)" by simp
  have "\<exists>X3. recv_future ch (answered X' ch r) = Done (Some r, X3)"
    by (simp add: recv_future_def answered_def chan_recv_def)
  moreover have "run_dispatch G c1 m' Y = RunContinue (Y\<lparr>ctl_pool := ctl_pool Y @ [tk]\<rparr>)"
    using assms(3) by (simp add: run_dispatch_def m' tk_def)
  moreover have "Response_GetResponse (GetResponse (Some r)) = data" "st_code (GetStatus G (GetResponse (Some r))) = OK"
    "ToMD (Metadata r) = outgoing_md G c2"
    by (simp_all add: r_def response_msg_def getter_defs GetStatus_def)
  moreover have "ServiceName (task_msg tk) = ServiceName m" "MethodName (task_msg tk) = MethodName m"
    "GetRequest (Some (task_msg tk)) = b" "task_md tk = outgoing_md G c" "Tag (task_msg tk) = Tag m'"
    using assms(3) by (simp_all add: tk_def m' getter_defs)
  ultimately show ?thesis using X'(1) Y' d by blast
qed

subsection \<open>A concrete run\<close>

text \<open>Side \<open>True\<close> calls, side \<open>False\<close> receives the request and answers, and \<open>True\<close> reads the answer.\<close>

definition echoes :: "bool \<Rightarrow> RPC \<Rightarrow> (go_error + bytes) option \<Rightarrow> bool" where
  "echoes x q r \<longleftrightarrow> r = Some (Inr (GetRequest (Some q)))"

definition idle_ctl :: "invoker StreamController" where
  "idle_ctl = new_controller (sample_stream (\<lambda>_ _. None)) (sample_w [] PumpReceiving) ''u'' ''n'' 0"

lemma idle_ctl_inv: "ctl_inv idle_ctl"
  unfolding idle_ctl_def by (rule ctl_inv_new) (simp add: kick_ok_def sample_w_def)

definition link0 :: "invoker link" where
  "link0 = \<lparr>lk_ctl = (\<lambda>_. idle_ctl), lk_read = (\<lambda>_. 0)\<rparr>"

definition sent_request :: RPC where
  "sent_request = sample_request\<lparr>Metadata := Some \<lparr>Data = []\<rparr>, Tag := 1\<rparr>"

definition sent_response :: RPC where
  "sent_response = response_msg 1 [1] (Some \<lparr>st_code = OK, st_message = ''OK''\<rparr>) (Some \<lparr>Data = []\<rparr>)"

definition put_wire :: "RPC list \<Rightarrow> invoker StreamController \<Rightarrow> invoker StreamController" where
  "put_wire ms st = st\<lparr>ctl_stream := (ctl_stream st)\<lparr>s_attempts := ms, s_wire := ms\<rparr>\<rparr>"

definition caller :: "invoker StreamController" where
  "caller = put_wire [sent_request] (with_call idle_ctl)"

definition callee :: "invoker StreamController" where
  "callee = put_wire [sent_response] idle_ctl"

definition run_task :: pool_task where
  "run_task = \<lparr>task_ctx = incoming_ctx std_lib bg_ctx sent_request, task_msg = sent_request, task_md = []\<rparr>"

text \<open>The states of the run, after the call, its receipt, the reply and the receipt of that.\<close>

definition link_called :: "invoker link" where
  "link_called = \<lparr>lk_ctl = (\<lambda>x. if x then caller else idle_ctl), lk_read = (\<lambda>_. 0)\<rparr>"

definition link_received :: "invoker link" where
  "link_received = \<lparr>lk_ctl = (\<lambda>x. if x then caller else idle_ctl\<lparr>ctl_pool := [run_task]\<rparr>),
     lk_read = (\<lambda>x. if x then 0 else 1)\<rparr>"

definition link_replied :: "invoker link" where
  "link_replied = \<lparr>lk_ctl = (\<lambda>x. if x then caller else callee), lk_read = (\<lambda>x. if x then 0 else 1)\<rparr>"

definition link_run :: "invoker link" where
  "link_run = \<lparr>lk_ctl = (\<lambda>x. if x then answered caller 0 sent_response else callee), lk_read = (\<lambda>_. 1)\<rparr>"

lemmas link_run_defs = link0_def caller_def callee_def put_wire_def idle_ctl_def new_controller_def with_call_def sample_stream_def sent_request_def sent_response_def
  sample_request_def set_ctl_def without_task_def std_lib_def bg_ctx_def run_task_def

lemma call_made: "Request std_lib bg_ctx sample_request idle_ctl = Done (0, sent_request, caller)"
  by (simp add: link_run_defs Request_def Let_def send_or_kick_def stream_Send_def outgoing_md_def FromMD_def)

lemma call_received:
  "run_dispatch std_lib bg_ctx sent_request idle_ctl =
     RunContinue (idle_ctl\<lparr>ctl_pool := [run_task]\<rparr>)"
  by (simp add: run_dispatch_def run_task_def sent_request_def sample_request_def idle_ctl_def new_controller_def
      md_defs MD_GetData_def)

lemma call_answered:
  "Reply std_lib bg_ctx (Tag (task_msg run_task)) [1]
     (without_task run_task (idle_ctl\<lparr>ctl_pool := [run_task]\<rparr>)) = Done callee"
  by (simp add: link_run_defs Reply_def Let_def send_or_kick_def stream_Send_def outgoing_md_def FromMD_def)

lemma answer_received: "run_dispatch std_lib bg_ctx sent_response caller = RunContinue (answered caller 0 sent_response)"
  by (simp add: link_run_defs run_dispatch_def response_msg_def send_future_def close_future_def chan_send_def
      chan_close_def make_chan_def answered_def tag_of_def)

lemma run_calls: "link_step std_lib R link0 link_called"
proof -
  have "link_step std_lib R link0 (set_ctl True caller link0)"
  proof (rule link_step.call)
    show "Request std_lib bg_ctx sample_request (lk_ctl link0 True) = Done (0, sent_request, caller)"
      by (simp add: link0_def call_made)
    show "Content sample_request = Some (RPC_Request [1])" by (simp add: sample_request_def)
    show "Suc (ctl_nfut (lk_ctl link0 True)) < 2 ^ 64" by (simp add: link0_def idle_ctl_def new_controller_def)
  qed
  moreover have "set_ctl True caller link0 = link_called" by (auto simp: set_ctl_def link0_def link_called_def)
  ultimately show ?thesis by simp
qed

lemma run_receives: "link_step std_lib R link_called link_received"
proof -
  let ?st = "idle_ctl\<lparr>ctl_pool := [run_task]\<rparr>"
  have "link_step std_lib R link_called ((set_ctl False ?st link_called)\<lparr>lk_read := (lk_read link_called)(False := Suc (lk_read link_called False))\<rparr>)"
    by (rule link_step.receive [where m = sent_request and ms = "[]" and c = bg_ctx])
      (simp_all add: link_called_def call_received, simp add: caller_def put_wire_def)
  moreover have "(set_ctl False ?st link_called)\<lparr>lk_read := (lk_read link_called)(False := Suc (lk_read link_called False))\<rparr> = link_received"
    by (auto simp: set_ctl_def link_called_def link_received_def)
  ultimately show ?thesis by simp
qed

lemma replied_state: "set_ctl False callee link_received = link_replied"
  by (auto simp: set_ctl_def link_received_def link_replied_def)

lemma run_replies:
  assumes "R False sent_request (Some (Inr [1]))"
  shows "link_step std_lib R link_received link_replied"
proof -
  have "link_step std_lib R link_received (set_ctl False callee link_received)"
    by (rule link_step.reply [where tk = run_task and b = "[1]" and c = bg_ctx])
      (use assms call_answered in \<open>simp_all add: link_received_def, simp_all add: run_task_def\<close>)
  then show ?thesis by (simp add: replied_state)
qed

lemma run_returns: "link_step std_lib R link_replied link_run"
proof -
  let ?s = "(set_ctl True (answered caller 0 sent_response) link_replied)\<lparr>lk_read := (lk_read link_replied)(True := Suc (lk_read link_replied True))\<rparr>"
  have "link_step std_lib R link_replied ?s"
    by (rule link_step.receive [where m = sent_response and ms = "[]" and c = bg_ctx])
      (simp_all add: link_replied_def answer_received, simp add: callee_def put_wire_def)
  moreover have "?s = link_run" by (auto simp: set_ctl_def link_replied_def link_run_def)
  ultimately show ?thesis by simp
qed

lemma link0_reachable: "link_reachable G R link0"
proof (rule link_reachable.start)
  have "fresh idle_ctl"
    using idle_ctl_inv by (simp add: fresh_def idle_ctl_def new_controller_def sample_stream_def)
  then show "fresh (lk_ctl link0 True)" "fresh (lk_ctl link0 False)" by (simp_all add: link0_def)
qed (simp add: link0_def)

lemma link_run_reachable: "link_reachable std_lib echoes link_run"
proof -
  have "echoes False sent_request (Some (Inr [1]))"
    by (simp add: echoes_def sent_request_def sample_request_def GetRequest_def GetContent_def)
  note r = run_replies [where R = echoes, OF this]
  show ?thesis
    by (rule link_reachable.step [OF link_reachable.step [OF link_reachable.step [OF link_reachable.step
      [OF link0_reachable run_calls] run_receives] r] run_returns])
qed

theorem responses_match_requests_witness:
  "\<exists>q. {q \<in> set (wire (lk_ctl link_run True)). is_request q \<and> Tag q = tag_of 0} = {q} \<and> answer std_lib (echoes False) q sent_response"
proof -
  have "ctl_futures (lk_ctl link_run True) 0 = Some \<lparr>chan_buf = [sent_response], chan_cap = 1, chan_closed = True\<rparr>"
    by (simp add: link_run_def answered_def)
  moreover have "is_response sent_response" by (simp add: sent_response_def response_msg_def is_response.simps)
  ultimately show ?thesis
    using responses_match_requests [OF link_run_reachable, where x = True and c = bg_ctx] by fastforce
qed

theorem call_round_trip_witness:
  "\<exists>tk r X2 X3. run_dispatch std_lib bg_ctx sent_request idle_ctl =
      RunContinue (idle_ctl\<lparr>ctl_pool := [tk]\<rparr>) \<and>
    ServiceName (task_msg tk) = ''svc'' \<and> run_dispatch std_lib bg_ctx r caller = RunContinue X2 \<and>
    recv_future 0 X2 = Done (Some r, X3) \<and> Response_GetResponse (GetResponse (Some r)) = [1]"
proof -
  let ?c = "idle_ctl"
  have c: "ctl_inv ?c" "reliable ?c" "ctl_pool ?c = []" "ServiceName sample_request = ''svc''"
    using idle_ctl_inv by (simp_all add: idle_ctl_def new_controller_def sample_stream_def sample_request_def)
  have r: "Content sample_request = Some (RPC_Request [1])" by (simp add: sample_request_def)
  obtain Y' where "Reply std_lib bg_ctx (Tag sent_request) [1] ?c = Done Y'"
    using ctl_inv_send_or_kick [OF c(1)] by (auto simp: Reply_def)
  from call_round_trip [OF c(1) call_made r c(2,1,2) this, of bg_ctx bg_ctx] show ?thesis unfolding c(3,4) by auto
qed

end
