(* ===== verification/Workers.thy ===== *)
theory Workers
  imports Dispatch Peers
begin

text \<open>
  The workers of a controller in the system of two peers: \<open>handleRequest\<close> on a task of the
  pool is the step of that system in which the task ends with its reply, or without one
  where \<open>handleRequest\<close> gives none.
\<close>

text \<open>The results that the invokers of an environment may give for a request.\<close>

definition invoked :: "('m, 'x) env \<Rightarrow> RPC \<Rightarrow> (go_error + bytes) option \<Rightarrow> bool" where
  "invoked E q r \<longleftrightarrow> (\<exists>x iv c w msg' w1. r = Some x \<and> Invoke E iv c q w = Done (x, msg', w1))"

lemma result_reply_step:
  assumes "tk \<in> set (ctl_pool (lk_ctl s x))" and "R x (task_msg tk) (Some r)"
    and "send_or_kick (result_reply G c (Tag (task_msg tk)) r) (without_task tk (lk_ctl s x)) = Done st"
  shows "link_step G R s (set_ctl x st s)"
proof (cases r)
  case (Inl e)
  have "ReplyErr G c (Tag (task_msg tk)) (Some e) (without_task tk (lk_ctl s x)) = Done st"
    using assms(3) Inl by (simp add: result_reply_def error_reply_def ReplyErr_def)
  then show ?thesis using link_step.reply_error [OF assms(1)] assms(2) Inl by blast
next
  case (Inr b)
  have "Reply G c (Tag (task_msg tk)) b (without_task tk (lk_ctl s x)) = Done st"
    using assms(3) Inr by (simp add: result_reply_def ok_reply_def Reply_def)
  then show ?thesis using link_step.reply [OF assms(1)] assms(2) Inr by blast
qed

text \<open>A request for a unary method of a service with one handler.\<close>

lemma handleRequest_unary:
  assumes "w_ctls w k = Some st" and "ctl_services st (ServiceName msg) = Some hs" and "shl_data hs = [h]"
    and "MethodInvokers h (MethodName msg) = Some iv"
    and "\<not> IsServerStream (info_of h (MethodName msg))" and "\<not> IsClientStream (info_of h (MethodName msg))"
    and "invk iv c msg w = Done (r, msg', w1)"
    and "do_ctl k (send_or_kick (result_reply G c (Tag msg) r)) w1 = Done w'"
  shows "handleRequest G er invk invk_stream k c msg w = Done (Handled w')"
proof -
  have "unary_call G invk k c iv msg w = Done w'"
    unfolding unary_call_eq assms(7) using assms(8) by (simp only: obind.simps prod.case)
  with assms(1-6) show ?thesis by (simp add: handleRequest_def Len_def First_def call_first_def)
qed

text \<open>
  C18: A worker that runs \<open>handleRequest\<close> on a task of its pool, for a unary method whose
  handler makes no calls over this controller, does exactly the step of the system of two
  peers in which the task leaves the pool with the reply that the invoker gave: so what is
  shown of the peers holds for controllers that run \<open>handleRequest\<close>.
\<close>

theorem worker_refines_peers:
  assumes "env_ok E" and "world_ok w" and "tk \<in> set (ctl_pool (lk_ctl s x))"
    and "w_ctls w k = Some (without_task tk (lk_ctl s x))"
    and "ctl_services (lk_ctl s x) (ServiceName (task_msg tk)) = Some hs" and "shl_data hs = [h]"
    and "MethodInvokers h (MethodName (task_msg tk)) = Some iv"
    and "\<not> IsServerStream (info_of h (MethodName (task_msg tk)))"
    and "\<not> IsClientStream (info_of h (MethodName (task_msg tk)))"
    and "Invoke E iv (task_ctx tk) (task_msg tk) w = Done (r, msg', w1)" and "w_ctls w1 k = w_ctls w k"
  shows "\<exists>w' st. handleRequest G er (Invoke E) (InvokeStream E) k (task_ctx tk) (task_msg tk) w = Done (Handled w') \<and>
           w_ctls w' k = Some st \<and> link_step G (\<lambda>_. invoked E) s (set_ctl x st s)"
proof -
  have sv: "ctl_services (without_task tk (lk_ctl s x)) (ServiceName (task_msg tk)) = Some hs"
    using assms(5) by (simp add: without_task_def)
  have "safe w w1" using mi.invk_safe [OF assms(1,10)] .
  with assms(2,4) have "world_ok w1" "k \<in> dom (w_ctls w1)" by (auto simp: safe_def)
  then obtain w' where w': "do_ctl k (send_or_kick (result_reply G (task_ctx tk) (Tag (task_msg tk)) r)) w1 = Done w'"
    using do_ctl_send_total by blast
  have h: "handleRequest G er (Invoke E) (InvokeStream E) k (task_ctx tk) (task_msg tk) w = Done (Handled w')"
    by (rule handleRequest_unary [where invk = "Invoke E", OF assms(4) sv assms(6-10) w'])
  obtain st where st: "send_or_kick (result_reply G (task_ctx tk) (Tag (task_msg tk)) r) (without_task tk (lk_ctl s x)) = Done st"
    "w_ctls w' k = Some st"
    using w' assms(4,11) by (auto simp: do_ctl_send_or_kick replied_def)
  have "invoked E (task_msg tk) (Some r)" unfolding invoked_def using assms(10) by blast
  then have "link_step G (\<lambda>_. invoked E) s (set_ctl x st s)" by (rule result_reply_step [OF assms(3) _ st(1)])
  with h st(2) show ?thesis by blast
qed

subsection \<open>Requests that get no answer\<close>

text \<open>
  \<open>left_unanswered G er E hs over q\<close>: \<open>handleRequest\<close> may end without a reply to \<open>q\<close>, on a
  controller that has the handlers \<open>hs\<close> for its service: it returns and its last act is not
  the reply, or it starts a stream whose loop is left when the context ends. \<open>over q\<close> tells
  whether the context of the request may end while it is served.
\<close>

definition left_unanswered ::
  "lib \<Rightarrow> bytes \<Rightarrow> ('m, 'x) env \<Rightarrow> invoker ServiceHandler list \<Rightarrow> (RPC \<Rightarrow> bool) \<Rightarrow> RPC \<Rightarrow> bool" where
  "left_unanswered G er E hs over q \<longleftrightarrow>
     (\<exists>k c w st x. w_ctls w k = Some st \<and> handlers_of st (ServiceName q) = hs \<and>
        handleRequest G er (Invoke E) (InvokeStream E) k c q w = Done x \<and>
        (case x of
           Handled w' \<Rightarrow> \<not> (\<exists>w1 m. replied k m w1 w' \<and> reply_to (Tag q) m)
         | Streams p w' \<Rightarrow> over q \<and> ctx_err c \<noteq> None))"

lemma handleRequest_streams:
  assumes "w_ctls w k = Some st" and "handleRequest G er invk invk_stream k c q w = Done (Streams p w')"
  shows "server_streaming (handlers_of st (ServiceName q)) (MethodName q)"
proof -
  have n: "finish r \<noteq> Done (Streams p w')" for r
    by (cases r) (simp_all add: finish_def)
  obtain first rest where hs: "handlers_of st (ServiceName q) = first # rest"
    "\<not> broadcasts (first # rest) (MethodName q)"
    "call_first G invk invk_stream k c first q w = Done (Streams p w')"
    using assms(2) n by (auto simp: handleRequest_eq [OF assms(1)] split: list.splits if_splits)
  then have "\<exists>iv. MethodInvokers first (MethodName q) = Some iv"
    "IsServerStream (info_of first (MethodName q))" "\<not> IsClientStream (info_of first (MethodName q))"
    using n by (auto simp: call_first_def Let_def split: option.splits if_splits)
  with hs show ?thesis by (auto simp: server_streaming_def)
qed

lemma left_unanswered_cases:
  assumes "env_ok E" and "left_unanswered G er E hs over q"
  shows "client_streaming hs (MethodName q) \<or> over q \<and> server_streaming hs (MethodName q)"
proof -
  obtain k c w st x where st: "w_ctls w k = Some st" and hs: "handlers_of st (ServiceName q) = hs"
    and h: "handleRequest G er (Invoke E) (InvokeStream E) k c q w = Done x"
    and x: "case x of
           Handled w' \<Rightarrow> \<not> (\<exists>w1 m. replied k m w1 w' \<and> reply_to (Tag q) m)
         | Streams p w' \<Rightarrow> over q \<and> ctx_err c \<noteq> None"
    using assms(2) unfolding left_unanswered_def by (elim exE conjE) (rule that)
  show ?thesis
  proof (cases x)
    case (Handled w')
    from mi.handleRequest_reply [OF assms(1) st h [unfolded Handled]]
    have "client_streaming hs (MethodName q) \<or> (\<exists>w1 m. replied k m w1 w' \<and> reply_to (Tag q) m)"
      unfolding hs by blast
    with x Handled show ?thesis by auto
  next
    case (Streams p w')
    with x handleRequest_streams [OF st h [unfolded Streams]] show ?thesis by (simp add: hs)
  qed
qed

text \<open>It does happen: every request for a method with a stream of the client is dropped.\<close>

lemma handleRequest_drops:
  assumes "w_ctls w k = Some st" and "client_streaming (handlers_of st (ServiceName q)) (MethodName q)"
  shows "handleRequest G er invk invk_stream k c q w = Done (Handled w)"
  using assms(2)
  by (auto simp: handleRequest_eq [OF assms(1)] client_streaming_def call_first_def split: list.split)

lemma replied_nonempty:
  assumes "replied k m w1 w'" and "w_ctls w' k = Some st"
  shows "s_attempts (ctl_stream st) \<noteq> []"
  using assms by (auto simp: replied_def send_or_kick_def stream_Send_def Let_def Kick_def split: if_splits option.splits)

lemma client_stream_left_unanswered:
  assumes "client_streaming hs (MethodName q)"
  shows "left_unanswered G er E hs over q"
proof -
  let ?st = "(echo_ctl [])\<lparr>ctl_services := [ServiceName q \<mapsto> echo_list hs]\<rparr>"
  obtain w :: "'b world" where w: "w_ctls w 0 = Some ?st"
    by (rule that [of "\<lparr>w_ctls = [0 \<mapsto> ?st], w_known = [], w_alloc = 0, w_meter = empty_meter, w_user = undefined\<rparr>"]) simp
  have hs: "handlers_of ?st (ServiceName q) = hs" by (simp add: handlers_of_def)
  have "s_attempts (ctl_stream ?st) = []" by (simp add: echo_ctl_def new_controller_def sample_stream_def)
  then have "\<not> replied 0 m w1 w" for m w1 using replied_nonempty w by blast
  moreover have "handleRequest G er (Invoke E) (InvokeStream E) 0 bg_ctx q w = Done (Handled w)"
    by (rule handleRequest_drops [OF w]) (simp add: hs assms)
  ultimately show ?thesis
    unfolding left_unanswered_def using w hs
    by (intro exI [of _ "0::nat"] exI [of _ bg_ctx] exI [of _ w] exI [of _ ?st] exI [of _ "Handled w"]) simp
qed

text \<open>A worker that drops a request takes the step in which the task ends without a reply.\<close>

lemma dropped_refines_peers:
  assumes "tk \<in> set (ctl_pool (lk_ctl s x))" and "w_ctls w k = Some (without_task tk (lk_ctl s x))"
    and "client_streaming (handlers_of (lk_ctl s x) (ServiceName (task_msg tk))) (MethodName (task_msg tk))"
    and "R x (task_msg tk) None"
  shows "handleRequest G er invk invk_stream k (task_ctx tk) (task_msg tk) w = Done (Handled w) \<and>
    link_step G R s (set_ctl x (without_task tk (lk_ctl s x)) s)"
  using handleRequest_drops [OF assms(2)] assms(3) link_step.no_answer [where R = R, OF assms(1,4)]
  by (simp add: handlers_of_def without_task_def)

text \<open>
  C5: No call is lost between the peers: when no send of the peer fails, every request that
  a side has sent is either still under way (unread by the peer, in its pool, or with its
  response unread) or answered: its future is closed; unless the peer's handler has the
  method with a stream of the client, for \<open>handleRequest\<close> drops such requests, or has it with
  a stream of the server and the context of the request ends. The hypothesis on the peer is
  that a task ends without a reply only where its \<open>handleRequest\<close> does.
\<close>

theorem no_call_lost:
  assumes "link_reachable G R s" and "reliable (lk_ctl s (\<not> x))" and "q \<in> set (wire (lk_ctl s x))" and "is_request q"
    and "env_ok E"
    and "R (\<not> x) q None \<Longrightarrow> left_unanswered G er E (handlers_of (lk_ctl s (\<not> x)) (ServiceName q)) over q"
  shows "Tag q \<in> set (in_flight (lk_ctl s x) (lk_ctl s (\<not> x)) (lk_read s x) (lk_read s (\<not> x))) \<or>
    (\<exists>ch cn. Tag q = tag_of ch \<and> ctl_futures (lk_ctl s x) ch = Some cn \<and> chan_closed cn) \<or>
    client_streaming (handlers_of (lk_ctl s (\<not> x)) (ServiceName q)) (MethodName q) \<or>
    over q \<and> server_streaming (handlers_of (lk_ctl s (\<not> x)) (ServiceName q)) (MethodName q)"
  using call_somewhere [OF assms(1-4)] left_unanswered_cases [OF assms(5,6)] by blast

text \<open>The echo service, asked for by the peer.\<close>

definition echo_task :: pool_task where
  "echo_task = \<lparr>task_ctx = bg_ctx, task_msg = sample_request, task_md = []\<rparr>"

definition busy_link :: "invoker link" where
  "busy_link = \<lparr>lk_ctl = (\<lambda>_. (echo_ctl [echo_sh None 1])\<lparr>ctl_pool := [echo_task]\<rparr>), lk_read = (\<lambda>_. 0)\<rparr>"

theorem worker_refines_peers_witness:
  "\<exists>w' st. handleRequest std_lib [] (Invoke echo_env) (InvokeStream echo_env) 0 bg_ctx sample_request
       (echo_world [echo_sh None 1]) = Done (Handled w') \<and>
     w_ctls w' 0 = Some st \<and> link_step std_lib (\<lambda>_. invoked echo_env) busy_link (set_ctl True st busy_link)"
proof -
  have i: "Invoke echo_env echo_invoker bg_ctx sample_request (echo_world [echo_sh None 1]) =
      Done (Inr [1], sample_request, echo_world [echo_sh None 1])"
    by (rule echo_Invoke) simp_all
  have "without_task echo_task (lk_ctl busy_link True) = echo_ctl [echo_sh None 1]"
    by (simp add: busy_link_def without_task_def echo_ctl_def new_controller_def)
  then show ?thesis
    using worker_refines_peers [OF echo_env_ok echo_world_ok, where tk = echo_task and s = busy_link and x = True and k = 0
        and hs = "echo_list [echo_sh None 1]" and h = "echo_sh None 1" and iv = echo_invoker and r = "Inr [1]"
        and G = std_lib and er = "[]" and msg' = sample_request and ?w1.0 = "echo_world [echo_sh None 1]"] i
    by (simp add: echo_task_def busy_link_def)
qed

text \<open>A run in which the peer drops a request, for it streams from the client.\<close>

definition bidi_sh :: "invoker ServiceHandler" where
  "bidi_sh = (echo_sh None 1)
     \<lparr>MethodInfo := [''M'' \<mapsto> \<lparr>mi_Name = ''M'', IsClientStream = True, IsServerStream = True\<rparr>]\<rparr>"

definition bidi_ctl :: "invoker StreamController" where
  "bidi_ctl = idle_ctl\<lparr>ctl_services := [''svc'' \<mapsto> echo_list [bidi_sh]]\<rparr>"

definition drops :: "bool \<Rightarrow> RPC \<Rightarrow> (go_error + bytes) option \<Rightarrow> bool" where
  "drops x q r \<longleftrightarrow> r = None \<and> client_streaming (handlers_of bidi_ctl (ServiceName q)) (MethodName q)"

definition bidi_link :: "invoker StreamController \<Rightarrow> pool_task list \<Rightarrow> nat \<Rightarrow> invoker link" where
  "bidi_link st ts n = \<lparr>lk_ctl = (\<lambda>x. if x then st else bidi_ctl\<lparr>ctl_pool := ts\<rparr>), lk_read = (\<lambda>x. if x then 0 else n)\<rparr>"

lemma bidi_dropped: "drops x sent_request None"
  by (simp add: drops_def handlers_of_def bidi_ctl_def sent_request_def sample_request_def client_streaming_def
      broadcasts_def bidi_sh_def echo_sh_def info_of_def)

lemma bidi_run: "link_reachable std_lib drops (bidi_link caller [] 1)"
proof -
  let ?R = "link_reachable std_lib drops" and ?T = "bidi_ctl\<lparr>ctl_pool := [run_task]\<rparr>"
  have p: "ctl_pool bidi_ctl = []" by (simp add: bidi_ctl_def idle_ctl_def new_controller_def)
  have p2: "bidi_ctl\<lparr>ctl_pool := []\<rparr> = bidi_ctl" by (simp add: bidi_ctl_def idle_ctl_def new_controller_def)
  have "fresh idle_ctl" "fresh bidi_ctl"
    using idle_ctl_inv by (simp_all add: fresh_def bidi_ctl_def idle_ctl_def new_controller_def sample_stream_def
        ctl_inv_def futures_ok_def pending_ok_def)
  then have 0: "?R (bidi_link idle_ctl [] 0)"
    by (intro link_reachable.start) (simp_all add: bidi_link_def p2 fun_eq_iff)
  have "link_step std_lib drops (bidi_link idle_ctl [] 0) (set_ctl True caller (bidi_link idle_ctl [] 0))"
    by (rule link_step.call [where ch = 0 and m' = sent_request and c = bg_ctx and m = sample_request and b = "[1]"])
      (simp_all add: bidi_link_def call_made, simp_all add: idle_ctl_def new_controller_def)
  moreover have "set_ctl True caller (bidi_link idle_ctl [] 0) = bidi_link caller [] 0"
    by (simp add: set_ctl_def bidi_link_def fun_eq_iff)
  ultimately have 1: "?R (bidi_link caller [] 0)" using link_reachable.step [OF 0] by simp
  have d: "run_dispatch std_lib bg_ctx sent_request bidi_ctl = RunContinue ?T"
    using p by (simp add: run_dispatch_def sent_request_def sample_request_def run_task_def md_defs MD_GetData_def)
  have "link_step std_lib drops (bidi_link caller [] 0)
      ((set_ctl False ?T (bidi_link caller [] 0))\<lparr>lk_read := (lk_read (bidi_link caller [] 0))(False := Suc (lk_read (bidi_link caller [] 0) False))\<rparr>)"
    by (rule link_step.receive [where m = sent_request and ms = "[]" and c = bg_ctx])
      (simp_all add: bidi_link_def p2 d, simp add: caller_def put_wire_def)
  moreover have "(set_ctl False ?T (bidi_link caller [] 0))\<lparr>lk_read := (lk_read (bidi_link caller [] 0))(False := Suc (lk_read (bidi_link caller [] 0) False))\<rparr> =
      bidi_link caller [run_task] 1"
    by (simp add: set_ctl_def bidi_link_def fun_eq_iff)
  ultimately have 2: "?R (bidi_link caller [run_task] 1)" using link_reachable.step [OF 1] by simp
  have "link_step std_lib drops (bidi_link caller [run_task] 1)
      (set_ctl False (without_task run_task (lk_ctl (bidi_link caller [run_task] 1) False)) (bidi_link caller [run_task] 1))"
    using bidi_dropped [of False] by (intro link_step.no_answer) (simp_all add: bidi_link_def run_task_def)
  moreover have "set_ctl False (without_task run_task (lk_ctl (bidi_link caller [run_task] 1) False)) (bidi_link caller [run_task] 1) =
      bidi_link caller [] 1"
    by (simp add: set_ctl_def bidi_link_def without_task_def fun_eq_iff)
  ultimately show ?thesis using link_reachable.step [OF 2] by simp
qed

theorem no_call_lost_witness:
  "link_reachable std_lib drops (bidi_link caller [] 1) \<and>
   Tag sent_request \<notin> set (in_flight caller bidi_ctl 0 1) \<and>
   client_streaming (handlers_of bidi_ctl (ServiceName sent_request)) (MethodName sent_request)"
proof -
  let ?s = "bidi_link caller [] 1"
  have c: "lk_ctl ?s True = caller" "lk_ctl ?s (\<not> True) = bidi_ctl" "lk_read ?s True = 0" "lk_read ?s (\<not> True) = 1"
    by (simp_all add: bidi_link_def bidi_ctl_def idle_ctl_def new_controller_def)
  have "reliable (lk_ctl ?s (\<not> True))" "sent_request \<in> set (wire (lk_ctl ?s True))" "is_request sent_request"
    by (simp_all only: c) (simp_all add: bidi_ctl_def idle_ctl_def new_controller_def sample_stream_def caller_def put_wire_def
        sent_request_def sample_request_def is_request.simps)
  moreover have "left_unanswered std_lib [] echo_env (handlers_of (lk_ctl ?s (\<not> True)) (ServiceName sent_request)) (\<lambda>_. False) sent_request"
    if "drops (\<not> True) sent_request None"
    using that by (intro client_stream_left_unanswered) (simp only: c drops_def)
  moreover have n: "Tag sent_request \<notin> set (in_flight caller bidi_ctl 0 1)"
    by (simp add: in_flight_def link_run_defs bidi_ctl_def)
  moreover have "\<not> (\<exists>ch cn. Tag sent_request = tag_of ch \<and> ctl_futures caller ch = Some cn \<and> chan_closed cn)"
    by (auto simp: link_run_defs make_chan_def)
  ultimately show ?thesis
    using no_call_lost [OF bidi_run, where x = True and q = sent_request and E = echo_env
        and er = "[]" and over = "\<lambda>_. False"] echo_env_ok bidi_run unfolding c by blast
qed

end
