(* ===== verification/Relay.thy ===== *)
theory Relay
  imports Workers
begin

text \<open>
  Three parties: a client, a server in the middle and a server that was spliced into it.
  The middle has one controller for the stream of the client, the front, and one for the
  spliced stream, the back. A request of the client for a spliced service is a task of the
  front whose worker calls \<open>streamControllerInvoker.Invoke\<close>: it forwards the request on the
  back, waits for the future there and replies on the front with what it got.

  Both streams are the system of two peers; the work of the middle is added to it step by
  step, so that calls of all parties interleave in any order.
\<close>

subsection \<open>The system\<close>

text \<open>Where a worker of the middle is: it waits for a future of the back, or it has a result.\<close>

datatype phase = Awaiting nat | Got "go_error + bytes"

record 'i hub =
  hub_front :: "'i link"  \<comment> \<open>side \<open>True\<close> is the client, side \<open>False\<close> the middle\<close>
  hub_back :: "'i link"   \<comment> \<open>side \<open>True\<close> is the middle, side \<open>False\<close> the spliced server\<close>
  hub_work :: "(pool_task \<times> phase) list"

abbreviation front_ctl :: "'i hub \<Rightarrow> 'i StreamController" where
  "front_ctl s \<equiv> lk_ctl (hub_front s) False"

abbreviation back_ctl :: "'i hub \<Rightarrow> 'i StreamController" where
  "back_ctl s \<equiv> lk_ctl (hub_back s) True"

text \<open>A future belongs to its worker: no other step reads it.\<close>

definition reads_held :: "(pool_task \<times> phase) list \<Rightarrow> 'i link \<Rightarrow> 'i link \<Rightarrow> bool" where
  "reads_held work b b' \<longleftrightarrow>
     (\<exists>tk ch v st. (tk, Awaiting ch) \<in> set work \<and> recv_future ch (lk_ctl b True) = Done (v, st) \<and> b' = set_ctl True st b)"

text \<open>
  \<open>via\<close> tells the requests that the middle forwards; it answers the others itself. \<open>L\<close> are
  the results of the handlers of the client and of the middle, \<open>R\<close> those on the back. For a
  request that the middle forwards, \<open>L\<close> says only whether its \<open>handleRequest\<close> may end
  without a reply, before anything is forwarded.
\<close>

definition own_results ::
  "(RPC \<Rightarrow> bool) \<Rightarrow> (bool \<Rightarrow> RPC \<Rightarrow> (go_error + bytes) option \<Rightarrow> bool) \<Rightarrow> bool \<Rightarrow> RPC \<Rightarrow> (go_error + bytes) option \<Rightarrow> bool" where
  "own_results via L x q r \<longleftrightarrow> L x q r \<and> (x \<or> \<not> via q)"

inductive hub_step for G via L R where
  front_step: "link_step G (own_results via L) (hub_front s) f \<Longrightarrow> hub_step G via L R s (s\<lparr>hub_front := f\<rparr>)"
| back_step: "link_step G R (hub_back s) b \<Longrightarrow> \<not> reads_held (hub_work s) (hub_back s) b \<Longrightarrow>
    hub_step G via L R s (s\<lparr>hub_back := b\<rparr>)"
| forward: "tk \<in> set (ctl_pool (front_ctl s)) \<Longrightarrow> via (task_msg tk) \<Longrightarrow> tk \<notin> fst ` set (hub_work s) \<Longrightarrow>
    is_request (task_msg tk) \<Longrightarrow> Suc (ctl_nfut (back_ctl s)) < 2 ^ 64 \<Longrightarrow>
    Request G (forward_ctx G (task_ctx tk)) (task_msg tk) (back_ctl s) = Done (ch, m', st) \<Longrightarrow>
    hub_step G via L R s
      (s\<lparr>hub_back := set_ctl True st (hub_back s), hub_work := (tk, Awaiting ch) # hub_work s\<rparr>)"
| receive: "(tk, Awaiting ch) \<in> set (hub_work s) \<Longrightarrow> recv_future ch (back_ctl s) = Done (v, st) \<Longrightarrow>
    remote_result G mx (task_msg tk) v t = Done (r, t') \<Longrightarrow>
    hub_step G via L R s
      (s\<lparr>hub_back := set_ctl True st (hub_back s),
         hub_work := (tk, Got r) # remove1 (tk, Awaiting ch) (hub_work s)\<rparr>)"
| unanswered: "tk \<in> set (ctl_pool (front_ctl s)) \<Longrightarrow> via (task_msg tk) \<Longrightarrow> tk \<notin> fst ` set (hub_work s) \<Longrightarrow>
    L False (task_msg tk) None \<Longrightarrow>
    hub_step G via L R s
      (s\<lparr>hub_front := set_ctl False (without_task tk (front_ctl s)) (hub_front s)\<rparr>)"
| cancel: "(tk, Awaiting ch) \<in> set (hub_work s) \<Longrightarrow>
    hub_step G via L R s
      (s\<lparr>hub_work := (tk, Got (Inl (CtxErr e))) # remove1 (tk, Awaiting ch) (hub_work s)\<rparr>)"
| reply: "(tk, Got r) \<in> set (hub_work s) \<Longrightarrow> tk \<in> set (ctl_pool (front_ctl s)) \<Longrightarrow>
    send_or_kick (result_reply G c (Tag (task_msg tk)) r) (without_task tk (front_ctl s)) = Done st \<Longrightarrow>
    hub_step G via L R s
      (s\<lparr>hub_front := set_ctl False st (hub_front s), hub_work := remove1 (tk, Got r) (hub_work s)\<rparr>)"

inductive hub_reachable for G via L R where
  start: "link_reachable G (own_results via L) f \<Longrightarrow> ctl_pool (lk_ctl f False) = [] \<Longrightarrow> link_reachable G R b \<Longrightarrow>
    hub_reachable G via L R \<lparr>hub_front = f, hub_back = b, hub_work = []\<rparr>"
| step: "hub_reachable G via L R s \<Longrightarrow> hub_step G via L R s s' \<Longrightarrow> hub_reachable G via L R s'"

subsection \<open>What a relayed answer is\<close>

text \<open>The request that \<open>streamControllerInvoker.Invoke\<close> makes of a request \<open>q\<close>.\<close>

definition forwarded :: "lib \<Rightarrow> RPC \<Rightarrow> RPC \<Rightarrow> bool" where
  "forwarded G q q' \<longleftrightarrow>
     (\<exists>c t. q' = q\<lparr>Metadata := FromMD (Some (outgoing_md G (forward_ctx G (incoming_ctx G c q)))), Tag := t\<rparr>)"

text \<open>The response of a controller for the result of a handler, and what its caller sees.\<close>

definition response_of :: "lib \<Rightarrow> go_error + bytes \<Rightarrow> Response" where
  "response_of G r =
     (case r of
        Inr b \<Rightarrow> \<lparr>Response_bytes = b, StatusProto = Some \<lparr>st_code = OK, st_message = code_String G OK\<rparr>\<rparr>
      | Inl e \<Rightarrow> \<lparr>Response_bytes = [], StatusProto = status_Convert G (Some e)\<rparr>)"

definition seen :: "lib \<Rightarrow> Response \<Rightarrow> go_error + bytes" where
  "seen G rsp =
     (case status_Err G (GetStatus G (Some rsp)) of Some e \<Rightarrow> Inl e | None \<Rightarrow> Inr (Response_bytes rsp))"

text \<open>The results that the middle may give for a request it forwards.\<close>

inductive relayed for G R q where
  of_handler: "forwarded G q q' \<Longrightarrow> R q' (Some r) \<Longrightarrow> relayed G R q (seen G (response_of G r))"
| of_context: "relayed G R q (Inl (CtxErr e))"
| of_stream: "status_Err G \<lparr>st_code = Unknown, st_message = code_String G Unknown\<rparr> = Some e \<Longrightarrow>
    relayed G R q (Inl e)"

definition front_results where
  "front_results G via L R x q r \<longleftrightarrow>
     (if x \<or> \<not> via q then L x q r
      else case r of Some r' \<Rightarrow> relayed G (R False) q r' | None \<Rightarrow> L x q None)"

text \<open>The same bytes and status; the text of a status OK does not count.\<close>

definition same_response :: "lib \<Rightarrow> Response \<Rightarrow> Response \<Rightarrow> bool" where
  "same_response G x y \<longleftrightarrow>
     Response_bytes x = Response_bytes y \<and>
     st_code (GetStatus G (Some x)) = st_code (GetStatus G (Some y)) \<and>
     (st_code (GetStatus G (Some y)) \<noteq> OK \<longrightarrow> GetStatus G (Some x) = GetStatus G (Some y))"

text \<open>
  The laws of contexts that make forwarding transparent: what was attached is what is read.
  Then the spliced server gets the service, the method, the bytes and the metadata that the
  client sent, unless tracing adds to the metadata.
\<close>

definition incoming_laws :: "lib \<Rightarrow> bool" where
  "incoming_laws G \<longleftrightarrow> (\<forall>c md. FromIncomingContext G (NewIncomingContext G c md) = Some md)"

lemma forwarded_call:
  assumes "forwarded G q q'"
  shows "ServiceName q' = ServiceName q" and "MethodName q' = MethodName q" and "Content q' = Content q"
    and "\<lbrakk>incoming_laws G; outgoing_laws G; \<not> TracingEnabled G\<rbrakk> \<Longrightarrow> ToMD (Metadata q') = ToMD (Metadata q)"
  using assms
  by (auto simp: forwarded_def outgoing_md_def forward_ctx_def incoming_ctx_def incoming_laws_def outgoing_laws_def Let_def)

lemma answer_iff: "answer G R q m \<longleftrightarrow> (\<exists>c r. R q (Some r) \<and> m = result_reply G c (Tag q) r)"
proof
  assume "answer G R q m"
  then consider c b where "R q (Some (Inr b))" "m = result_reply G c (Tag q) (Inr b)"
    | c e where "R q (Some (Inl e))" "m = result_reply G c (Tag q) (Inl e)"
    unfolding answer_def result_reply_def ok_reply_def error_reply_def by auto
  then show "\<exists>c r. R q (Some r) \<and> m = result_reply G c (Tag q) r" by cases blast+
next
  assume "\<exists>c r. R q (Some r) \<and> m = result_reply G c (Tag q) r"
  then obtain c r where "R q (Some r)" "m = result_reply G c (Tag q) r" by blast
  then show "answer G R q m"
    unfolding answer_def result_reply_def ok_reply_def error_reply_def by (cases r) auto
qed

lemma result_reply_Content: "Content (result_reply G c t r) = Some (RPC_Response (Some (response_of G r)))"
  by (simp add: result_reply_def ok_reply_def error_reply_def response_msg_def response_of_def split: sum.split)

lemma seen_same_response:
  assumes "status_laws G"
  shows "same_response G (response_of G (seen G (response_of G r))) (response_of G r)"
proof -
  let ?s = "GetStatus G (Some (response_of G r))"
  have "Response_bytes (response_of G r) = []" if "st_code ?s \<noteq> OK"
    using that by (cases r) (simp_all add: response_of_def GetStatus_def)
  then show ?thesis
    using assms by (auto simp: same_response_def seen_def status_Err_laws response_of_def GetStatus_def split: option.splits)
qed

subsection \<open>Steps of one link\<close>

lemma link_step_mono:
  assumes "link_step G R s s'" and "\<And>x q r. R x q r \<Longrightarrow> R' x q r"
  shows "link_step G R' s s'"
  using assms(1) by cases (use assms(2) in \<open>blast intro: link_step.intros\<close>)+

lemma link_reachable_mono:
  assumes "link_reachable G R s" and "\<And>x q r. R x q r \<Longrightarrow> R' x q r"
  shows "link_reachable G R' s"
  using assms(1) by induction (use assms(2) in \<open>blast intro: link_reachable.intros link_step_mono\<close>)+

text \<open>How one side of a link changes in a step of either side.\<close>

definition ctl_grows :: "'i StreamController \<Rightarrow> 'i StreamController \<Rightarrow> bool" where
  "ctl_grows st st' \<longleftrightarrow>
     ctl_nfut st \<le> ctl_nfut st' \<and> s_send (ctl_stream st') = s_send (ctl_stream st) \<and>
     (\<exists>ms. wire st' = wire st @ ms \<and> (\<forall>m \<in> set ms. is_request m \<longrightarrow>
        Tag m = tag_of (ctl_nfut st) \<and> ctl_nfut st < ctl_nfut st'))"

definition live :: "'i StreamController \<Rightarrow> nat \<Rightarrow> bool" where
  "live st ch \<longleftrightarrow> (\<exists>c. ctl_futures st ch = Some c \<and> \<not> (chan_closed c \<and> chan_buf c = []))"

definition tasks_ok :: "lib \<Rightarrow> 'i StreamController \<Rightarrow> bool" where
  "tasks_ok G st \<longleftrightarrow> (\<forall>tk \<in> set (ctl_pool st). \<exists>c. task_ctx tk = incoming_ctx G c (task_msg tk))"

lemma ctl_grows_refl [simp]: "ctl_grows st st"
  by (simp add: ctl_grows_def)

lemma ctl_grows_same: "ctl_nfut st' = ctl_nfut st \<Longrightarrow> ctl_stream st' = ctl_stream st \<Longrightarrow> ctl_grows st st'"
  by (simp add: ctl_grows_def)

lemma ctl_grows_sent:
  assumes "ctl_inv st" and "send_or_kick m st = Done st'" and "\<not> is_request m"
  shows "ctl_grows st st'"
  using sent [OF assms(1,2)] assms(3) by (auto simp: ctl_grows_def)

lemma sent_keeps:
  assumes "ctl_inv st" and "send_or_kick m st = Done st'"
  shows "ctl_pool st' = ctl_pool st" and "live st' ch = live st ch"
  using sent [OF assms] by (simp_all add: live_def)

lemma Request_grows:
  assumes i: "ctl_inv st" and r: "Request G c m st = Done (ch, m', st')"
  shows "ctl_grows st st'" and "ctl_pool st' = ctl_pool st" and "live st ch' \<Longrightarrow> live st' ch'"
proof -
  have s: "send_or_kick m' (with_call st) = Done st'" and t: "Tag m' = tag_of (ctl_nfut st)"
    using r i by (auto simp: Request_alt tag_of_def ctl_inv_def futures_ok_def)
  note n = sent [OF ctl_inv_with_call [OF i] s]
  show "ctl_grows st st'" using n t by (auto simp: ctl_grows_def with_call_def)
  show "ctl_pool st' = ctl_pool st" using n(5) by (simp add: with_call_def)
  show "live st' ch'" if l: "live st ch'" using n(4) l by (auto simp: live_def with_call_def make_chan_def)
qed

lemma dispatch_keeps:
  assumes i: "ctl_inv st" and r: "run_dispatch G c m st = RunContinue st'"
  shows "ctl_nfut st' = ctl_nfut st" and "ctl_stream st' = ctl_stream st" and "tasks_ok G st \<Longrightarrow> tasks_ok G st'"
    and "live st ch \<Longrightarrow> live st' ch"
proof -
  consider rq where "Content m = Some (RPC_Request rq)" | rsp where "Content m = Some (RPC_Response rsp)"
    | sm where "Content m = Some (RPC_ServerStreamMsg sm)"
    using r by (auto simp: run_dispatch_def split: option.splits RPC_Content.splits)
  then have "ctl_nfut st' = ctl_nfut st \<and> ctl_stream st' = ctl_stream st \<and>
    (tasks_ok G st \<longrightarrow> tasks_ok G st') \<and> (live st ch \<longrightarrow> live st' ch)"
  proof cases
    case 1
    then show ?thesis using r by (auto simp: run_dispatch_def tasks_ok_def live_def) (rule exI, rule refl)
  next
    case 2
    then obtain k where "st' = answered st k m"
      using r run_dispatch_response [OF i] by (auto split: option.splits if_splits)
    then show ?thesis by (auto simp: answered_def tasks_ok_def live_def)
  next
    case 3
    then obtain k where "st' = streamed st k m"
      using r run_dispatch_stream_msg [OF i] by (auto split: option.splits if_splits)
    then show ?thesis by (auto simp: streamed_def tasks_ok_def live_def)
  qed
  then show "ctl_nfut st' = ctl_nfut st" and "ctl_stream st' = ctl_stream st"
    and "tasks_ok G st \<Longrightarrow> tasks_ok G st'" and "live st ch \<Longrightarrow> live st' ch" by auto
qed

lemma recv_keeps:
  assumes "recv_future ch st = Done (v, st')"
  shows "ctl_nfut st' = ctl_nfut st" and "ctl_stream st' = ctl_stream st" and "ctl_pool st' = ctl_pool st"
    and "ch' \<noteq> ch \<Longrightarrow> live st' ch' = live st ch'"
  using assms by (auto simp: recv_future_def live_def split: option.splits)

text \<open>One step, seen from a controller that may or may not have made it.\<close>

definition ctl_step :: "lib \<Rightarrow> 'i StreamController \<Rightarrow> 'i StreamController \<Rightarrow> bool" where
  "ctl_step G st st' \<longleftrightarrow> ctl_grows st st' \<and> (tasks_ok G st \<longrightarrow> tasks_ok G st')"

lemma ctl_stepI: "ctl_grows st st' \<Longrightarrow> set (ctl_pool st') \<subseteq> set (ctl_pool st) \<Longrightarrow> ctl_step G st st'"
  by (auto simp: ctl_step_def tasks_ok_def)

lemma live_pool [simp]: "live (without_task tk st) ch = live st ch"
  by (simp add: live_def without_task_def)

lemma replies_keep:
  assumes "ctl_inv st" and "send_or_kick m (without_task tk st) = Done st'" and "\<not> is_request m"
  shows "ctl_step G st st'" and "live st' ch = live st ch"
proof -
  have i: "ctl_inv (without_task tk st)" using assms(1) by (simp add: without_task_def ctl_inv_pool)
  have "ctl_grows (without_task tk st) st'" using ctl_grows_sent [OF i assms(2)] assms(3) by blast
  then have "ctl_grows st st'" by (simp add: ctl_grows_def without_task_def)
  moreover have "set (ctl_pool st') \<subseteq> set (ctl_pool st)"
    using sent_keeps(1) [OF i assms(2)] set_remove1_subset [of tk "ctl_pool st"] by (simp add: without_task_def)
  ultimately show "ctl_step G st st'" by (rule ctl_stepI)
  show "live st' ch = live st ch" using sent_keeps(2) [OF i assms(2)] by simp
qed

lemma lk_ctl_set [simp]: "lk_ctl (set_ctl y st s) x = (if x = y then st else lk_ctl s x)"
  by (simp add: set_ctl_def)

lemma link_ctl_inv: "link_inv G R s \<Longrightarrow> ctl_inv (lk_ctl s x)"
  by (simp add: link_inv_def dir_inv_def)

lemma link_bound: "link_inv G R s \<Longrightarrow> ctl_nfut (lk_ctl s x) < 2 ^ 64"
  unfolding link_inv_def dir_inv_def by blast

lemma link_step_ctl:
  assumes l: "link_inv G R s" and "link_step G R s s'"
  shows "ctl_step G (lk_ctl s x) (lk_ctl s' x)"
  using assms(2)
proof cases
  case (call c m y ch m' st b)
  with Request_grows [OF link_ctl_inv [OF l] call(2)] show ?thesis by (auto intro: ctl_stepI)
next
  case (receive y m ms c st)
  with dispatch_keeps [OF link_ctl_inv [OF l] receive(3)] show ?thesis
    by (auto simp: ctl_step_def set_ctl_def intro: ctl_grows_same)
next
  case (reply tk y b c st)
  have "ctl_step G (lk_ctl s y) st"
    by (rule replies_keep [OF link_ctl_inv [OF l] reply(4) [unfolded Reply_def]]) (simp add: response_msg_def is_request.simps)
  then show ?thesis unfolding reply(1) by (auto intro: ctl_stepI)
next
  case (reply_error tk y e c st)
  have "ctl_step G (lk_ctl s y) st"
    by (rule replies_keep [OF link_ctl_inv [OF l] reply_error(4) [unfolded ReplyErr_def]]) (simp add: response_msg_def is_request.simps)
  then show ?thesis unfolding reply_error(1) by (auto intro: ctl_stepI)
next
  case (no_answer tk y)
  have "ctl_step G (lk_ctl s y) (without_task tk (lk_ctl s y))"
    by (rule ctl_stepI) (simp_all add: ctl_grows_def without_task_def set_remove1_subset)
  then show ?thesis unfolding no_answer(1) by (auto intro: ctl_stepI)
next
  case (stream_reply tk y msg st)
  have "ctl_grows (lk_ctl s y) st" "ctl_pool st = ctl_pool (lk_ctl s y)"
    using stream_reply(3) ctl_grows_sent [OF link_ctl_inv [OF l]] sent_keeps(1) [OF link_ctl_inv [OF l]]
    by (auto simp: StreamReply_def is_request.simps)
  then show ?thesis unfolding stream_reply(1) by (auto intro: ctl_stepI)
next
  case (await ch y v st)
  with recv_keeps [OF await(2)] show ?thesis by (auto intro!: ctl_stepI ctl_grows_same)
qed

lemma link_step_live:
  assumes l: "link_inv G R s" and "link_step G R s s'" and live: "live (lk_ctl s x) ch"
  shows "live (lk_ctl s' x) ch \<or> (\<exists>v st. recv_future ch (lk_ctl s x) = Done (v, st) \<and> s' = set_ctl x st s)"
  using assms(2)
proof cases
  case (call c m y ch' m' st b)
  with Request_grows(3) [OF link_ctl_inv [OF l] call(2)] live show ?thesis by auto
next
  case (receive y m ms c st)
  with dispatch_keeps(4) [OF link_ctl_inv [OF l] receive(3)] live show ?thesis by (auto simp: set_ctl_def)
next
  case (reply tk y b c st)
  have "live st ch = live (lk_ctl s y) ch"
    by (rule replies_keep [OF link_ctl_inv [OF l] reply(4) [unfolded Reply_def]]) (simp add: response_msg_def is_request.simps)
  then show ?thesis using live unfolding reply(1) by (cases "x = y") auto
next
  case (reply_error tk y e c st)
  have "live st ch = live (lk_ctl s y) ch"
    by (rule replies_keep [OF link_ctl_inv [OF l] reply_error(4) [unfolded ReplyErr_def]]) (simp add: response_msg_def is_request.simps)
  then show ?thesis using live unfolding reply_error(1) by (cases "x = y") auto
next
  case (no_answer tk y)
  then show ?thesis using live by (cases "x = y") auto
next
  case (stream_reply tk y msg st)
  then have "live st ch = live (lk_ctl s y) ch"
    using sent_keeps(2) [OF link_ctl_inv [OF l]] by (simp add: StreamReply_def)
  then show ?thesis using live unfolding stream_reply(1) by (cases "x = y") auto
next
  case (await k y v st)
  show ?thesis
  proof (cases "y = x \<and> k = ch")
    case True
    then show ?thesis using await(1,2) by blast
  next
    case False
    then show ?thesis using recv_keeps(4) [OF await(2), of ch] live unfolding await(1) by auto
  qed
qed

subsection \<open>The invariant of the middle\<close>

text \<open>
  What a waiting worker relies on: its future has or will get a message, and the only
  request under the tag of that future is the one it forwarded.
\<close>

definition waiting_ok :: "lib \<Rightarrow> 'i StreamController \<Rightarrow> RPC \<Rightarrow> nat \<Rightarrow> bool" where
  "waiting_ok G st q ch \<longleftrightarrow>
     ch < ctl_nfut st \<and> live st ch \<and>
     (\<forall>q' \<in> set (wire st). is_request q' \<longrightarrow> Tag q' = tag_of ch \<longrightarrow> forwarded G q q') \<and>
     (reliable st \<longrightarrow> (\<exists>q' \<in> set (wire st). is_request q' \<and> Tag q' = tag_of ch))"

fun held :: "(pool_task \<times> phase) list \<Rightarrow> nat list" where
  "held [] = []"
| "held ((tk, Awaiting ch) # ws) = ch # held ws"
| "held ((tk, Got r) # ws) = held ws"

definition work_ok where
  "work_ok G via R st w \<longleftrightarrow>
     via (task_msg (fst w)) \<and>
     (case snd w of
        Awaiting ch \<Rightarrow> waiting_ok G st (task_msg (fst w)) ch
      | Got r \<Rightarrow> relayed G (R False) (task_msg (fst w)) r)"

definition hub_inv where
  "hub_inv G via L R s \<longleftrightarrow>
     link_reachable G (front_results G via L R) (hub_front s) \<and> link_reachable G R (hub_back s) \<and>
     tasks_ok G (front_ctl s) \<and> (\<forall>w \<in> set (hub_work s). work_ok G via R (back_ctl s) w) \<and>
     distinct (held (hub_work s))"

lemma waiting_grows:
  assumes w: "waiting_ok G st q ch" and g: "ctl_grows st st'" and l: "live st' ch" and b: "ctl_nfut st' < 2 ^ 64"
  shows "waiting_ok G st' q ch"
proof -
  obtain ms where ms: "wire st' = wire st @ ms"
    "\<forall>m \<in> set ms. is_request m \<longrightarrow> Tag m = tag_of (ctl_nfut st) \<and> ctl_nfut st < ctl_nfut st'"
    using g by (auto simp: ctl_grows_def)
  have ch: "ch < ctl_nfut st" using w by (simp add: waiting_ok_def)
  have "Tag m \<noteq> tag_of ch" if m: "m \<in> set ms" "is_request m" for m
  proof
    assume "Tag m = tag_of ch"
    then have t: "tag_of ch = tag_of (ctl_nfut st)" "ctl_nfut st < ctl_nfut st'" using ms(2) m by auto
    from tag_of_inj [OF less_trans [OF ch t(2)] t(2) b t(1)] ch show False by simp
  qed
  with w g l ms(1) show ?thesis by (auto simp: waiting_ok_def ctl_grows_def)
qed

text \<open>What the future of a waiting worker gives it.\<close>

lemma received_relayed:
  assumes b: "link_reachable G R s" and w: "waiting_ok G (lk_ctl s True) q ch"
    and r: "recv_future ch (lk_ctl s True) = Done (v, st)" and res: "remote_result G mx q v t = Done (r, t')"
  shows "relayed G (R False) q r"
proof -
  obtain cn where cn: "ctl_futures (lk_ctl s True) ch = Some cn" "\<not> (chan_closed cn \<and> chan_buf cn = [])"
    using w by (auto simp: waiting_ok_def live_def)
  with r obtain m where m: "v = Some m" "m \<in> set (chan_buf cn)"
    by (auto simp: recv_future_def chan_recv_def split: list.splits if_splits)
  show ?thesis
  proof (cases "is_response m")
    case True
    from peers_match [OF b, THEN conjunct2, rule_format, OF cn(1) m(2) True]
    obtain q' where q': "q' \<in> set (wire (lk_ctl s True))" "is_request q'" "Tag q' = tag_of ch" "answer G (R False) q' m"
      by auto
    then have f: "forwarded G q q'" using w by (simp add: waiting_ok_def)
    obtain r0 where r0: "R False q' (Some r0)" "Content m = Some (RPC_Response (Some (response_of G r0)))"
      using q'(4) by (auto simp: answer_iff result_reply_Content)
    have "r = seen G (response_of G r0)"
      using res r0(2) m(1) by (auto simp: remote_result_def seen_def getter_defs Let_def split: option.splits)
    with relayed.of_handler [where R = "R False", OF f r0(1)] show ?thesis by simp
  next
    case False
    then have "GetResponse v = None"
      using m(1) by (auto simp: is_response.simps getter_defs split: option.splits RPC_Content.splits)
    with res obtain e where "r = Inl e" "status_Err G \<lparr>st_code = Unknown, st_message = code_String G Unknown\<rparr> = Some e"
      by (auto simp: remote_result_def GetStatus_def Let_def split: option.splits)
    with relayed.of_stream show ?thesis by simp
  qed
qed

lemma work_ok_grows:
  assumes "work_ok G via R st w" and "ctl_grows st st'" and "ctl_nfut st' < 2 ^ 64"
    and "\<And>ch. snd w = Awaiting ch \<Longrightarrow> live st ch \<Longrightarrow> live st' ch"
  shows "work_ok G via R st' w"
proof (cases "snd w")
  case (Awaiting ch)
  with assms(1) have "waiting_ok G st (task_msg (fst w)) ch" by (simp add: work_ok_def)
  moreover from this have "live st' ch" using assms(4) [OF Awaiting] by (simp add: waiting_ok_def)
  ultimately have "waiting_ok G st' (task_msg (fst w)) ch" using waiting_grows assms(2,3) by blast
  with assms(1) Awaiting show ?thesis by (simp add: work_ok_def)
next
  case (Got r)
  with assms(1) show ?thesis by (simp add: work_ok_def)
qed

lemma own_results_front: "own_results via L x q r \<Longrightarrow> front_results G via L R x q r"
  by (auto simp: own_results_def front_results_def)

text \<open>The start of a call on the back.\<close>

lemma forward_waiting:
  assumes i: "ctl_inv st" and r: "Request G (forward_ctx G (incoming_ctx G c q)) q st = Done (ch, m', st')" and q: "is_request q"
    and d: "set (tags is_request (wire st)) \<subseteq> tag_of ` {..<ctl_nfut st}" and b: "Suc (ctl_nfut st) < 2 ^ 64"
  shows "waiting_ok G st' q ch"
proof -
  have m': "m' = q\<lparr>Metadata := FromMD (Some (outgoing_md G (forward_ctx G (incoming_ctx G c q)))), Tag := ctl_count st + 1\<rparr>"
    and s: "send_or_kick m' (with_call st) = Done st'" and ch: "ch = ctl_nfut st"
    using r by (auto simp: Request_alt)
  have t: "Tag m' = tag_of ch" using m' ch i by (simp add: tag_of_def ctl_inv_def futures_ok_def)
  note n = sent [OF ctl_inv_with_call [OF i] s]
  obtain ms where ms: "wire st' = wire st @ ms" "ms = [m'] \<or> ms = [] \<and> \<not> reliable st"
    using n(7) by (auto simp: with_call_def)
  have "Tag q' \<noteq> tag_of ch" if "q' \<in> set (wire st)" "is_request q'" for q'
  proof
    assume "Tag q' = tag_of ch"
    then have "tag_of ch \<in> set (tags is_request (wire st))" using that by (force simp: tags_def)
    then obtain k where k: "k < ctl_nfut st" "tag_of k = tag_of ch" using d by fastforce
    from tag_of_inj [OF less_SucI [OF k(1)] _ b k(2)] k(1) ch show False by simp
  qed
  moreover have "forwarded G q m'" using m' by (auto simp: forwarded_def)
  moreover have "is_request m'" using q m' by (simp add: is_request.simps)
  moreover have "live st' ch" using n(4) ch by (simp add: live_def with_call_def make_chan_def)
  moreover have "reliable st' = reliable st" using n(6) by (simp add: with_call_def)
  moreover have "ch < ctl_nfut st'" using n(2) ch by (simp add: with_call_def)
  ultimately show ?thesis using ms t by (auto simp: waiting_ok_def)
qed

lemma link_reachable_tags:
  assumes "link_reachable G R s"
  shows "set (tags is_request (wire (lk_ctl s x))) \<subseteq> tag_of ` {..<ctl_nfut (lk_ctl s x)}"
  using sides(1) [OF link_inv_reachable [OF assms], of x] by (simp add: dir_inv_def origin_ok_def)

lemma held_mem: "ch \<in> set (held ws) \<longleftrightarrow> (\<exists>tk. (tk, Awaiting ch) \<in> set ws)"
  by (induction ws rule: held.induct) auto

lemma held_remove:
  "(tk, Awaiting ch) \<in> set ws \<Longrightarrow> mset (held ws) = add_mset ch (mset (held (remove1 (tk, Awaiting ch) ws)))"
  by (induction ws rule: held.induct) auto

lemma held_remove_got [simp]: "held (remove1 (tk, Got r) ws) = held ws"
  by (induction ws rule: held.induct) auto

lemma held_done:
  assumes "(tk, Awaiting ch) \<in> set ws" and "distinct (held ws)"
  shows "distinct (held (remove1 (tk, Awaiting ch) ws))" and "(tk', Awaiting ch) \<notin> set (remove1 (tk, Awaiting ch) ws)"
proof -
  have "mset (held ws) = mset (ch # held (remove1 (tk, Awaiting ch) ws))" using held_remove [OF assms(1)] by simp
  with assms(2) have "distinct (ch # held (remove1 (tk, Awaiting ch) ws))" using mset_eq_imp_distinct_iff by metis
  then show "distinct (held (remove1 (tk, Awaiting ch) ws))" "(tk', Awaiting ch) \<notin> set (remove1 (tk, Awaiting ch) ws)"
    using held_mem [of ch "remove1 (tk, Awaiting ch) ws"] by auto
qed

lemma hub_inv_step:
  assumes h: "hub_inv G via L R s" and "hub_step G via L R s s'"
  shows "hub_inv G via L R s'"
proof -
  have f: "link_reachable G (front_results G via L R) (hub_front s)" and b: "link_reachable G R (hub_back s)"
    and t: "tasks_ok G (front_ctl s)" and w: "\<forall>w \<in> set (hub_work s). work_ok G via R (back_ctl s) w" and d: "distinct (held (hub_work s))"
    using h by (simp_all add: hub_inv_def)
  note fi = link_inv_reachable [OF f] and bi = link_inv_reachable [OF b]
  from assms(2) show ?thesis
  proof cases
    case (front_step f')
    have st: "link_step G (front_results G via L R) (hub_front s) f'"
      by (rule link_step_mono [OF front_step(2) own_results_front])
    with link_reachable.step [OF f st] b t w d link_step_ctl [OF fi st, of False] show ?thesis
      by (simp add: front_step(1) hub_inv_def ctl_step_def)
  next
    case (back_step b')
    note b' = link_reachable.step [OF b back_step(2)]
    have g: "ctl_grows (back_ctl s) (lk_ctl b' True)"
      using link_step_ctl [OF bi back_step(2)] by (simp add: ctl_step_def)
    have "work_ok G via R (lk_ctl b' True) x" if x: "x \<in> set (hub_work s)" for x
    proof (rule work_ok_grows [OF _ g link_bound [OF link_inv_reachable [OF b']]])
      show "work_ok G via R (back_ctl s) x" using w x by simp
      show "live (lk_ctl b' True) ch" if "snd x = Awaiting ch" "live (back_ctl s) ch" for ch
        using link_step_live [OF bi back_step(2) that(2)] back_step(3) that(1) x
        by (cases x) (auto simp: reads_held_def)
    qed
    with f b' t d show ?thesis by (simp add: back_step(1) hub_inv_def)
  next
    case (forward tk ch m' st)
    obtain c where c: "task_ctx tk = incoming_ctx G c (task_msg tk)" using t forward(2) by (auto simp: tasks_ok_def)
    obtain bs where "Content (task_msg tk) = Some (RPC_Request bs)"
      using forward(5) by (auto simp: is_request.simps split: option.splits RPC_Content.splits)
    with forward(6,7) have b': "link_reachable G R (set_ctl True st (hub_back s))"
      by (intro link_reachable.step [OF b] link_step.call)
    note g = Request_grows [OF link_ctl_inv [OF bi] forward(7)]
    have "waiting_ok G st (task_msg tk) ch"
      by (rule forward_waiting [OF link_ctl_inv [OF bi] forward(7) [unfolded c] forward(5) link_reachable_tags [OF b] forward(6)])
    moreover have "work_ok G via R st x" if "x \<in> set (hub_work s)" for x
      by (rule work_ok_grows [OF _ g(1)]) (use w that g(3) link_bound [OF link_inv_reachable [OF b'], of True] in auto)
    moreover have "ch \<notin> set (held (hub_work s))"
      using w forward(7) by (fastforce simp: held_mem work_ok_def waiting_ok_def Request_alt)
    ultimately show ?thesis using f b' t d forward(3) by (simp add: forward(1) hub_inv_def work_ok_def)
  next
    case (receive tk ch v st mx t1 r t')
    have b': "link_reachable G R (set_ctl True st (hub_back s))"
      by (rule link_reachable.step [OF b link_step.await [OF receive(3)]])
    have v: "via (task_msg tk)" "waiting_ok G (back_ctl s) (task_msg tk) ch" using w receive(2) by (auto simp: work_ok_def)
    have r: "relayed G (R False) (task_msg tk) r" by (rule received_relayed [OF b v(2) receive(3,4)])
    note k = recv_keeps [OF receive(3)]
    have "work_ok G via R st x" if x: "x \<in> set (remove1 (tk, Awaiting ch) (hub_work s))" for x
    proof (rule work_ok_grows [OF _ ctl_grows_same [OF k(1,2)]])
      show "work_ok G via R (back_ctl s) x" using w x set_remove1_subset [of "(tk, Awaiting ch)" "hub_work s"] by blast
      show "ctl_nfut st < 2 ^ 64" using k(1) link_bound [OF bi] by simp
      show "live st ch'" if "snd x = Awaiting ch'" "live (back_ctl s) ch'" for ch'
        using k(4) [of ch'] held_done(2) [OF receive(2) d] that x by (cases x) auto
    qed
    with f b' t r v(1) held_done(1) [OF receive(2) d] show ?thesis by (simp add: receive(1) hub_inv_def work_ok_def)
  next
    case (unanswered tk)
    have "front_results G via L R False (task_msg tk) None" using unanswered(3,5) by (simp add: front_results_def)
    then have st: "link_step G (front_results G via L R) (hub_front s) (set_ctl False (without_task tk (front_ctl s)) (hub_front s))"
      by (rule link_step.no_answer [OF unanswered(2)])
    with link_reachable.step [OF f st] b t w d link_step_ctl [OF fi st, of False] show ?thesis
      by (simp add: unanswered(1) hub_inv_def ctl_step_def)
  next
    case (cancel tk ch e)
    have "via (task_msg tk)" using w cancel(2) by (auto simp: work_ok_def)
    moreover have "\<forall>x \<in> set (remove1 (tk, Awaiting ch) (hub_work s)). work_ok G via R (back_ctl s) x"
      using w set_remove1_subset [of "(tk, Awaiting ch)" "hub_work s"] by blast
    ultimately show ?thesis using f b t relayed.of_context held_done(1) [OF cancel(2) d] by (simp add: cancel(1) hub_inv_def work_ok_def)
  next
    case (reply tk r c st)
    have v: "via (task_msg tk)" "relayed G (R False) (task_msg tk) r" using w reply(2) by (auto simp: work_ok_def)
    have "front_results G via L R False (task_msg tk) (Some r)" using v by (simp add: front_results_def)
    then have f': "link_reachable G (front_results G via L R) (set_ctl False st (hub_front s))"
      using link_reachable.step [OF f result_reply_step [where R = "front_results G via L R", OF reply(3) _ reply(4)]] by blast
    have m: "\<not> is_request (result_reply G c (Tag (task_msg tk)) r)"
      using result_reply_Content [of G c "Tag (task_msg tk)" r] by (simp add: is_request.simps)
    have "tasks_ok G st" using replies_keep(1) [OF link_ctl_inv [OF fi] reply(4) m, of G] t by (simp add: ctl_step_def)
    moreover have "\<forall>x \<in> set (remove1 (tk, Got r) (hub_work s)). work_ok G via R (back_ctl s) x"
      using w set_remove1_subset [of "(tk, Got r)" "hub_work s"] by blast
    ultimately show ?thesis using f' b d by (simp add: reply(1) hub_inv_def)
  qed
qed

lemma hub_inv_reachable: "hub_reachable G via L R s \<Longrightarrow> hub_inv G via L R s"
proof (induction rule: hub_reachable.induct)
  case (start f b)
  then show ?case
    using link_reachable_mono [OF start(1) own_results_front] by (simp add: hub_inv_def tasks_ok_def)
next
  case (step s s')
  then show ?case by (blast intro: hub_inv_step)
qed

subsection \<open>What the middle promises\<close>

text \<open>
  C6: A response that a client finds in the future of a call that was relayed is the answer
  of the spliced server: some handler there gave, for a request that is the client's but for
  its tag and its metadata, a result with the same bytes and status; or the worker in the
  middle gave up on the end of its context, or got a stream message instead of a response,
  and the client gets that error. No interleaving of the calls of the three parties, and no
  reuse of tags on the two streams, can give a client the answer to another call.
\<close>

theorem relayed_response:
  assumes "hub_reachable G via L R s" and "status_laws G"
    and "ctl_futures (lk_ctl (hub_front s) True) ch = Some cn" and "m \<in> set (chan_buf cn)" and "is_response m"
    and "q \<in> set (wire (lk_ctl (hub_front s) True))" and "is_request q" and "Tag q = tag_of ch" and "via q"
  shows "\<exists>rsp. Tag m = Tag q \<and> Content m = Some (RPC_Response (Some rsp)) \<and>
    ((\<exists>q' r. forwarded G q q' \<and> R False q' (Some r) \<and> same_response G rsp (response_of G r)) \<or>
     (\<exists>e. rsp = response_of G (Inl (CtxErr e))) \<or>
     rsp = \<lparr>Response_bytes = [], StatusProto = Some \<lparr>st_code = Unknown, st_message = code_String G Unknown\<rparr>\<rparr>)"
proof -
  have f: "link_reachable G (front_results G via L R) (hub_front s)"
    using hub_inv_reachable [OF assms(1)] by (simp add: hub_inv_def)
  from peers_match [OF f, THEN conjunct2, rule_format, OF assms(3,4,5)]
  obtain q0 where q0: "{q \<in> set (wire (lk_ctl (hub_front s) True)). is_request q \<and> Tag q = tag_of ch} = {q0}"
    "answer G (front_results G via L R False) q0 m" by auto
  moreover from q0(1) have "q = q0" using assms(6,7,8) by blast
  ultimately have "answer G (front_results G via L R False) q m" by simp
  then obtain c r where r: "front_results G via L R False q (Some r)" "m = result_reply G c (Tag q) r" by (auto simp: answer_iff)
  have "relayed G (R False) q r" using r(1) assms(9) by (simp add: front_results_def)
  then have "(\<exists>q' r0. forwarded G q q' \<and> R False q' (Some r0) \<and> same_response G (response_of G r) (response_of G r0)) \<or>
     (\<exists>e. response_of G r = response_of G (Inl (CtxErr e))) \<or>
     response_of G r = \<lparr>Response_bytes = [], StatusProto = Some \<lparr>st_code = Unknown, st_message = code_String G Unknown\<rparr>\<rparr>"
  proof cases
    case (of_handler q' r0)
    then show ?thesis using seen_same_response [OF assms(2)] by blast
  next
    case (of_context e)
    then show ?thesis by blast
  next
    case (of_stream e)
    then show ?thesis using assms(2) by (auto simp: response_of_def status_Err_laws)
  qed
  moreover have "Tag m = Tag q" using r(2) by (simp add: result_reply_def ok_reply_def error_reply_def response_msg_def split: sum.split)
  ultimately show ?thesis using r(2) result_reply_Content by blast
qed

text \<open>A call on the back that a worker of the middle waits for.\<close>

lemma awaited_call:
  assumes h: "hub_inv G via L R s" and rel: "reliable (back_ctl s)" "reliable (lk_ctl (hub_back s) False)"
    and tk: "(tk, Awaiting ch) \<in> set (hub_work s)"
  shows "tag_of ch \<in> set (in_flight (back_ctl s) (lk_ctl (hub_back s) False) (lk_read (hub_back s) True) (lk_read (hub_back s) False)) \<or>
    (\<exists>m st. recv_future ch (back_ctl s) = Done (Some m, st)) \<or>
    (\<exists>q'. forwarded G (task_msg tk) q' \<and> R False q' None)"
proof -
  have b: "link_reachable G R (hub_back s)" and "work_ok G via R (back_ctl s) (tk, Awaiting ch)"
    using h tk by (auto simp: hub_inv_def)
  then have wo: "waiting_ok G (back_ctl s) (task_msg tk) ch" by (simp add: work_ok_def)
  then obtain q' where q': "q' \<in> set (wire (back_ctl s))" "is_request q'" "Tag q' = tag_of ch" "forwarded G (task_msg tk) q'"
    and n: "ch < ctl_nfut (back_ctl s)" and l: "live (back_ctl s) ch" using rel(1) by (auto simp: waiting_ok_def)
  have "(\<exists>m st. recv_future ch (back_ctl s) = Done (Some m, st))"
    if k: "tag_of ch = tag_of k" "ctl_futures (back_ctl s) k = Some cn" "chan_closed cn" for k cn
  proof -
    note i = link_inv_reachable [OF b]
    have "ch = k" using tag_of_inj [OF n future_address [OF link_ctl_inv [OF i] k(2)] link_bound [OF i] k(1)] .
    with l k(2,3) show ?thesis by (cases "chan_buf cn") (auto simp: live_def recv_future_def chan_recv_def)
  qed
  with call_somewhere [OF b, of True q'] q' rel(2) show ?thesis by auto
qed

text \<open>
  C21: No relayed call is lost: when the sends of the two servers do not fail, a request that
  a client sent for a spliced service is answered, or unread, or its response is unread, or
  it is in the pool of the middle. There it waits to be forwarded, or has its result, or its
  worker waits for a call that is under way on the spliced stream or whose answer is there.
  As for a single pair of peers, a request for a method with a stream of the client is
  dropped instead, and one for a method with a stream of the server may be when its context
  ends: in the middle, or, after it was forwarded, at the spliced server.
\<close>

theorem relayed_call_not_lost:
  assumes "hub_reachable G via L R s" and "reliable (front_ctl s)" and "reliable (back_ctl s)"
    and "reliable (lk_ctl (hub_back s) False)"
    and "q \<in> set (wire (lk_ctl (hub_front s) True))" and "is_request q" and "via q"
    and "env_ok E" and "L False q None \<Longrightarrow> left_unanswered G er E (handlers_of (front_ctl s) (ServiceName q)) over q"
    and "env_ok E'"
    and "\<And>q'. forwarded G q q' \<Longrightarrow> R False q' None \<Longrightarrow>
      left_unanswered G er' E' (handlers_of (lk_ctl (hub_back s) False) (ServiceName q')) over' q'"
  shows "(\<exists>ch cn. Tag q = tag_of ch \<and> ctl_futures (lk_ctl (hub_front s) True) ch = Some cn \<and> chan_closed cn) \<or>
    Tag q \<in> set (tags is_request (unread False (hub_front s))) \<or>
    Tag q \<in> set (tags is_response (unread True (hub_front s))) \<or>
    (\<exists>tk \<in> set (ctl_pool (front_ctl s)). task_msg tk = q \<and>
      (tk \<notin> fst ` set (hub_work s) \<or> (\<exists>r. (tk, Got r) \<in> set (hub_work s)) \<or>
       (\<exists>ch. (tk, Awaiting ch) \<in> set (hub_work s) \<and>
         (tag_of ch \<in> set (in_flight (back_ctl s) (lk_ctl (hub_back s) False) (lk_read (hub_back s) True) (lk_read (hub_back s) False)) \<or>
          (\<exists>m st. recv_future ch (back_ctl s) = Done (Some m, st)) \<or>
          client_streaming (handlers_of (lk_ctl (hub_back s) False) (ServiceName q)) (MethodName q) \<or>
          (\<exists>q'. forwarded G q q' \<and> over' q') \<and>
            server_streaming (handlers_of (lk_ctl (hub_back s) False) (ServiceName q)) (MethodName q))))) \<or>
    client_streaming (handlers_of (front_ctl s) (ServiceName q)) (MethodName q) \<or>
    over q \<and> server_streaming (handlers_of (front_ctl s) (ServiceName q)) (MethodName q)"
proof -
  have h: "hub_inv G via L R s" by (rule hub_inv_reachable [OF assms(1)])
  then have f: "link_reachable G (front_results G via L R) (hub_front s)" by (simp add: hub_inv_def)
  note d = sides [OF link_inv_reachable [OF f], of True]
  have dropped: "client_streaming (handlers_of (lk_ctl (hub_back s) False) (ServiceName q)) (MethodName q) \<or>
      (\<exists>q'. forwarded G q q' \<and> over' q') \<and>
        server_streaming (handlers_of (lk_ctl (hub_back s) False) (ServiceName q)) (MethodName q)"
    if q': "forwarded G q q'" "R False q' None" for q'
    using left_unanswered_cases [OF assms(10) assms(11) [OF q']] q'(1) forwarded_call(1,2) [OF q'(1)] by auto
  have pool: "task_msg tk = q" if "tk \<in> set (ctl_pool (front_ctl s))" "Tag (task_msg tk) = Tag q" for tk
    using d(1) that assms(5,6) by (auto simp: dir_inv_def origin_ok_def tags_def distinct_map inj_on_def)
  from call_somewhere [OF f, of True q] assms(2,5,6,7)
  consider "\<exists>ch cn. Tag q = tag_of ch \<and> ctl_futures (lk_ctl (hub_front s) True) ch = Some cn \<and> chan_closed cn"
    | "Tag q \<in> set (tags is_request (unread False (hub_front s)))"
    | "Tag q \<in> set (tags is_response (unread True (hub_front s)))"
    | tk where "tk \<in> set (ctl_pool (front_ctl s))" "Tag (task_msg tk) = Tag q"
    | "L False q None"
    by (auto simp: in_flight_def front_results_def)
  then show ?thesis
  proof cases
    case 4
    then have q: "task_msg tk = q" by (rule pool)
    have "\<exists>ph. (tk, ph) \<in> set (hub_work s)" if "tk \<in> fst ` set (hub_work s)" using that by force
    then consider "tk \<notin> fst ` set (hub_work s)" | r where "(tk, Got r) \<in> set (hub_work s)"
      | ch where "(tk, Awaiting ch) \<in> set (hub_work s)" by (metis phase.exhaust)
    then show ?thesis
    proof cases
      case (3 ch)
      from awaited_call [OF h assms(3,4) 3] dropped q 3 4(1) show ?thesis by blast
    qed (use 4(1) q in blast)+
  next
    case 5
    then show ?thesis using left_unanswered_cases [OF assms(8,9)] by blast
  qed blast+
qed

subsection \<open>The workers of the middle\<close>

text \<open>
  The worker runs on the front controller without its task, which it took from the queue,
  and on the back controller.
\<close>

definition worker_sees :: "nat \<Rightarrow> nat \<Rightarrow> pool_task \<Rightarrow> 'x world \<Rightarrow> invoker hub \<Rightarrow> bool" where
  "worker_sees front bck tk w s \<longleftrightarrow>
     w_ctls w front = Some (without_task tk (front_ctl s)) \<and> w_ctls w bck = Some (back_ctl s)"

lemma remote_result_names:
  "ServiceName q' = ServiceName q \<Longrightarrow> MethodName q' = MethodName q \<Longrightarrow> remote_result G mx q' v t = remote_result G mx q v t"
  by (simp add: remote_result_def Let_def split: option.split)

lemma remote_result_total:
  assumes "status_laws G"
  shows "\<exists>r t'. remote_result G mx q v t = Done (r, t')"
  using assms by (auto simp: remote_result_def GetStatus_def status_Err_laws Let_def split: option.splits)

text \<open>
  C19: A worker that runs \<open>handleRequest\<close> for a unary method of a spliced service goes through
  the steps of the system of three parties: it forwards its task, then the other goroutines
  take any steps until the answer is there, then it receives the answer and replies. It
  always finishes with exactly the reply that the system has.
\<close>

theorem relay_worker_refines:
  assumes E: "env_ok E" "world_ok w" "status_laws (e_lib E)" and front: "front \<noteq> ri_controller r"
    and tk: "tk \<in> set (ctl_pool (front_ctl s))" "via (task_msg tk)" "tk \<notin> fst ` set (hub_work s)" "is_request (task_msg tk)"
      "Suc (ctl_nfut (back_ctl s)) < 2 ^ 64" "ctx_err (forward_ctx (e_lib E) (task_ctx tk)) = None"
    and w: "worker_sees front (ri_controller r) tk w s"
    and hs: "ctl_services (front_ctl s) (ServiceName (task_msg tk)) = Some hs" "shl_data hs = [h]"
      "MethodInvokers h (MethodName (task_msg tk)) = Some (ControllerInvoker r)"
      "\<not> IsServerStream (info_of h (MethodName (task_msg tk)))" "\<not> IsClientStream (info_of h (MethodName (task_msg tk)))"
    and env: "\<And>w1 s1 ch. (tk, Awaiting ch) \<in> set (hub_work s1) \<Longrightarrow> worker_sees front (ri_controller r) tk w1 s1 \<Longrightarrow>
      hub_step (e_lib E) via L R s s1 \<Longrightarrow>
      \<exists>s2 m st. (hub_step (e_lib E) via L R)\<^sup>*\<^sup>* s1 s2 \<and> worker_sees front (ri_controller r) tk (e_env E w1) s2 \<and>
        (tk, Awaiting ch) \<in> set (hub_work s2) \<and> tk \<in> set (ctl_pool (front_ctl s2)) \<and>
        recv_future ch (back_ctl s2) = Done (Some m, st)"
  shows "\<exists>w' s'. handleRequest (e_lib E) er (Invoke E) (InvokeStream E) front (task_ctx tk) (task_msg tk) w = Done (Handled w') \<and>
    (hub_step (e_lib E) via L R)\<^sup>*\<^sup>* s s' \<and> w_ctls w' front = Some (front_ctl s') \<and>
    w_ctls w' (ri_controller r) = Some (back_ctl s')"
proof -
  let ?G = "e_lib E" and ?k = "ri_controller r" and ?q = "task_msg tk" and ?c = "forward_ctx (e_lib E) (task_ctx tk)"
  let ?mx = "e_metrics E (ri_controller r)"
  have wf: "w_ctls w front = Some (without_task tk (front_ctl s))" and wb: "w_ctls w ?k = Some (back_ctl s)"
    using w by (simp_all add: worker_sees_def)
  have ib: "ctl_inv (back_ctl s)" using E(2) wb by (auto simp: world_ok_def)
  obtain ch m' st where rq: "Request ?G ?c ?q (back_ctl s) = Done (ch, m', st)" using ctl_inv_Request [OF ib] by fastforce
  obtain w1 where w1: "remote_request ?G ?mx r ?c ?q w = Done ((ch, m'), w1)" "w_ctls w1 = (w_ctls w)(?k \<mapsto> st)"
    using wb rq by (simp add: remote_request_def on_ctl_def Let_def)
  let ?s1 = "s\<lparr>hub_back := set_ctl True st (hub_back s), hub_work := (tk, Awaiting ch) # hub_work s\<rparr>"
  have s1: "hub_step ?G via L R s ?s1" by (rule hub_step.forward [where s = s and via = via, OF tk(1-5) rq])
  have "worker_sees front ?k tk w1 ?s1" using w1(2) wf front by (simp add: worker_sees_def)
  from env [OF _ this s1, of ch] obtain s2 m st2 where s2: "(hub_step ?G via L R)\<^sup>*\<^sup>* ?s1 s2" "worker_sees front ?k tk (e_env E w1) s2"
    "(tk, Awaiting ch) \<in> set (hub_work s2)" "tk \<in> set (ctl_pool (front_ctl s2))" "recv_future ch (back_ctl s2) = Done (Some m, st2)"
    by auto
  obtain x t' where x: "remote_result ?G ?mx ?q (Some m) (w_meter (e_env E w1)) = Done (x, t')"
    using remote_result_total [OF E(3)] by blast
  have names: "ServiceName m' = ServiceName ?q" "MethodName m' = MethodName ?q" using rq by (auto simp: Request_alt)
  define w2 where "w2 = (e_env E w1)\<lparr>w_ctls := (w_ctls (e_env E w1))(?k \<mapsto> st2), w_meter := t'\<rparr>"
  have inv: "Invoke E (ControllerInvoker r) (task_ctx tk) ?q w = Done (x, m', w2)"
    using w1(1) s2(2,5) x tk(6) remote_result_names [OF names]
    by (simp add: Invoke_def remote_Invoke_def remote_await_def on_ctl_def worker_sees_def w2_def Let_def)
  let ?s3 = "s2\<lparr>hub_back := set_ctl True st2 (hub_back s2), hub_work := (tk, Got x) # remove1 (tk, Awaiting ch) (hub_work s2)\<rparr>"
  have s3: "hub_step ?G via L R s2 ?s3" by (rule hub_step.receive [OF s2(3,5) x])
  have "safe w w2" using mi.invk_safe [OF E(1) inv] .
  then have ok: "world_ok w2" using E(2) by (simp add: safe_def)
  have w2f: "w_ctls w2 front = Some (without_task tk (front_ctl s2))" using s2(2) front by (simp add: w2_def worker_sees_def)
  obtain w3 where w3: "do_ctl front (send_or_kick (result_reply ?G (task_ctx tk) (Tag ?q) x)) w2 = Done w3"
    using do_ctl_send_total [OF ok, of front] w2f by blast
  then obtain st3 where st3: "send_or_kick (result_reply ?G (task_ctx tk) (Tag ?q) x) (without_task tk (front_ctl s2)) = Done st3"
    "w_ctls w3 = (w_ctls w2)(front \<mapsto> st3)" using w2f by (auto simp: do_ctl_send_or_kick replied_def)
  let ?s4 = "?s3\<lparr>hub_front := set_ctl False st3 (hub_front ?s3), hub_work := remove1 (tk, Got x) (hub_work ?s3)\<rparr>"
  have s4: "hub_step ?G via L R ?s3 ?s4"
  proof (rule hub_step.reply)
    show "(tk, Got x) \<in> set (hub_work ?s3)" by simp
    show "tk \<in> set (ctl_pool (front_ctl ?s3))" using s2(4) by simp
    show "send_or_kick (result_reply ?G (task_ctx tk) (Tag ?q) x) (without_task tk (front_ctl ?s3)) = Done st3"
      using st3(1) by simp
  qed
  have "ctl_services (without_task tk (front_ctl s)) (ServiceName ?q) = Some hs" using hs(1) by (simp add: without_task_def)
  from handleRequest_unary [where invk = "Invoke E", OF wf this hs(2-5) inv w3]
  have "handleRequest ?G er (Invoke E) (InvokeStream E) front (task_ctx tk) ?q w = Done (Handled w3)" .
  moreover have "(hub_step ?G via L R)\<^sup>*\<^sup>* s ?s4"
  proof -
    let ?r = "hub_step ?G via L R"
    have "?r\<^sup>*\<^sup>* s s2" using s1 s2(1) by (rule converse_rtranclp_into_rtranclp [where r = ?r])
    then have "?r\<^sup>*\<^sup>* s ?s3" using s3 by (rule rtranclp.rtrancl_into_rtrancl [where r = ?r])
    then show ?thesis using s4 by (rule rtranclp.rtrancl_into_rtrancl [where r = ?r])
  qed
  moreover have "w_ctls w3 front = Some (front_ctl ?s4)" "w_ctls w3 ?k = Some (back_ctl ?s4)"
    using st3(2) front by (simp_all add: w2_def)
  ultimately show ?thesis by blast
qed

subsection \<open>A concrete run\<close>

text \<open>
  The client calls, the middle forwards the request, the spliced server answers it, the
  worker in the middle takes the answer, and the client gets it.
\<close>

abbreviation no_results :: "bool \<Rightarrow> RPC \<Rightarrow> (go_error + bytes) option \<Rightarrow> bool" where
  "no_results \<equiv> \<lambda>_ _ _. False"

definition drained :: "invoker StreamController" where
  "drained = (answered caller 0 sent_response)
     \<lparr>ctl_futures := (ctl_futures (answered caller 0 sent_response))(0 \<mapsto> \<lparr>chan_buf = [], chan_cap = 1, chan_closed = True\<rparr>)\<rparr>"

definition hub_at :: "invoker link \<Rightarrow> invoker link \<Rightarrow> (pool_task \<times> phase) list \<Rightarrow> invoker hub" where
  "hub_at f b w = \<lparr>hub_front = f, hub_back = b, hub_work = w\<rparr>"

abbreviation run_hub :: "invoker hub \<Rightarrow> bool" where
  "run_hub \<equiv> hub_reachable std_lib (\<lambda>_. True) no_results echoes"

lemma hub_front_step:
  "run_hub (hub_at f b w) \<Longrightarrow> link_step std_lib (own_results (\<lambda>_. True) no_results) f f' \<Longrightarrow> run_hub (hub_at f' b w)"
  using hub_reachable.step [OF _ hub_step.front_step, of std_lib "\<lambda>_. True" no_results echoes "hub_at f b w" f']
  by (simp add: hub_at_def)

lemma caller_waits: "recv_future 0 caller = Blocks"
  by (simp add: link_run_defs recv_future_def chan_recv_def make_chan_def)

lemma hub_back_step:
  "link_step std_lib echoes b b' \<Longrightarrow> recv_future 0 (lk_ctl b True) = Blocks \<Longrightarrow>
   hub_step std_lib (\<lambda>_. True) no_results echoes (hub_at f b [(tk, Awaiting 0)]) (hub_at f b' [(tk, Awaiting 0)])"
  using hub_step.back_step [of std_lib echoes "hub_at f b [(tk, Awaiting 0)]" b' "\<lambda>_. True" no_results]
  by (auto simp: hub_at_def reads_held_def)

text \<open>What happens on the back while the worker waits.\<close>

lemma back_run:
  "(hub_step std_lib (\<lambda>_. True) no_results echoes)\<^sup>*\<^sup>*
     (hub_at f link_called [(tk, Awaiting 0)]) (hub_at f link_run [(tk, Awaiting 0)])"
proof -
  let ?h = "\<lambda>b. hub_at f b [(tk, Awaiting 0)]" and ?r = "hub_step std_lib (\<lambda>_. True) no_results echoes"
  have "echoes False sent_request (Some (Inr [1]))"
    by (simp add: echoes_def sent_request_def sample_request_def GetRequest_def GetContent_def)
  note r = run_replies [where R = echoes, OF this]
  have "?r (?h link_called) (?h link_received)"
    by (rule hub_back_step [OF run_receives]) (simp add: link_called_def caller_waits)
  moreover have "?r (?h link_received) (?h link_replied)"
    by (rule hub_back_step [OF r]) (simp add: link_received_def caller_waits)
  moreover have "?r (?h link_replied) (?h link_run)"
    by (rule hub_back_step [OF run_returns]) (simp add: link_replied_def caller_waits)
  ultimately show ?thesis
    by (meson converse_rtranclp_into_rtranclp rtranclp.rtrancl_refl)
qed

lemma hub_reachable_steps:
  "(hub_step G via L R)\<^sup>*\<^sup>* s s' \<Longrightarrow> hub_reachable G via L R s \<Longrightarrow> hub_reachable G via L R s'"
  by (induction rule: rtranclp_induct) (blast intro: hub_reachable.step)+

lemma run_forwarded:
  "Request std_lib (forward_ctx std_lib (task_ctx run_task)) (task_msg run_task) idle_ctl =
     Done (0, sent_request, caller)"
  by (simp add: link_run_defs Request_def Let_def send_or_kick_def stream_Send_def outgoing_md_def FromMD_def
      forward_ctx_def incoming_ctx_def md_defs MD_GetData_def)

lemma run_forwarded_at:
  "Request std_lib (forward_ctx std_lib (task_ctx run_task)) (task_msg run_task) (back_ctl (hub_at f link0 w)) =
     Done (0, sent_request, caller)"
  by (simp add: hub_at_def link0_def run_forwarded)

lemma run_taken: "recv_future 0 (answered caller 0 sent_response) = Done (Some sent_response, drained)"
  by (simp add: recv_future_def answered_def chan_recv_def drained_def)

lemma run_result: "remote_result std_lib None sent_request (Some sent_response) t = Done (Inr [1], t)"
  by (simp add: remote_result_def sent_response_def response_msg_def getter_defs GetStatus_def std_lib_def TrackRxBytes_def)

definition hub_run :: "invoker hub" where
  "hub_run = hub_at link_run (set_ctl True drained link_run) []"

lemma hub_run_reachable: "run_hub hub_run"
proof -
  have 1: "run_hub (hub_at link_called link0 [])"
    using hub_front_step [OF _ run_calls] hub_reachable.start [OF link0_reachable _ link0_reachable]
    by (simp add: hub_at_def link0_def idle_ctl_def new_controller_def)
  note 2 = hub_front_step [OF 1 run_receives]
  have n: "ctl_nfut idle_ctl = 0" by (simp add: idle_ctl_def new_controller_def)
  have q: "is_request (task_msg run_task)" by (simp add: run_task_def sent_request_def sample_request_def is_request.simps)
  have "set_ctl True caller link0 = link_called" by (auto simp: set_ctl_def link0_def link_called_def)
  with hub_reachable.step [OF 2 hub_step.forward [OF _ _ _ q _ run_forwarded_at]] n
  have 3: "run_hub (hub_at link_received link_called [(run_task, Awaiting 0)])"
    by (simp add: hub_at_def link_received_def link0_def)
  note 4 = hub_reachable_steps [OF back_run 3]
  have m: "task_msg run_task = sent_request" by (simp add: run_task_def)
  have 5: "run_hub (hub_at link_received (set_ctl True drained link_run) [(run_task, Got (Inr [1]))])"
    using hub_reachable.step [OF 4 hub_step.receive [where tk = run_task and ch = 0 and v = "Some sent_response" and st = drained
        and mx = None and t = empty_meter and r = "Inr [1]" and t' = empty_meter]] run_taken run_result m
    by (simp add: hub_at_def link_run_def)
  have c: "send_or_kick (result_reply std_lib bg_ctx (Tag (task_msg run_task)) (Inr [1]))
      (without_task run_task (idle_ctl\<lparr>ctl_pool := [run_task]\<rparr>)) = Done callee"
    using call_answered by (simp add: Reply_def result_reply_def ok_reply_def)
  have "hub_step std_lib (\<lambda>_. True) no_results echoes (hub_at link_received (set_ctl True drained link_run) [(run_task, Got (Inr [1]))])
      ((hub_at link_received (set_ctl True drained link_run) [(run_task, Got (Inr [1]))])\<lparr>
         hub_front := set_ctl False callee link_received, hub_work := []\<rparr>)"
    using hub_step.reply [where tk = run_task and r = "Inr [1]" and c = bg_ctx and st = callee and s = "hub_at link_received (set_ctl True drained link_run) [(run_task, Got (Inr [1]))]"] c
    by (simp add: hub_at_def link_received_def)
  from hub_reachable.step [OF 5 this] have 6: "run_hub (hub_at link_replied (set_ctl True drained link_run) [])"
    by (simp add: hub_at_def replied_state)
  show ?thesis unfolding hub_run_def by (rule hub_front_step [OF 6 run_returns])
qed

lemma run_future: "ctl_futures (lk_ctl (hub_front hub_run) True) 0 = Some \<lparr>chan_buf = [sent_response], chan_cap = 1, chan_closed = True\<rparr>"
  by (simp add: hub_run_def hub_at_def link_run_def answered_def)

lemma run_request: "sent_request \<in> set (wire (lk_ctl (hub_front hub_run) True))" "is_request sent_request" "Tag sent_request = tag_of 0"
  by (simp_all add: hub_run_def hub_at_def link_run_def answered_def caller_def put_wire_def sent_request_def sample_request_def
      is_request.simps tag_of_def)

theorem relayed_response_witness:
  "\<exists>rsp. Content sent_response = Some (RPC_Response (Some rsp)) \<and>
    ((\<exists>q' r. forwarded std_lib sent_request q' \<and> echoes False q' (Some r) \<and> same_response std_lib rsp (response_of std_lib r)) \<or>
     (\<exists>e. rsp = response_of std_lib (Inl (CtxErr e))) \<or>
     rsp = \<lparr>Response_bytes = [], StatusProto = Some \<lparr>st_code = Unknown, st_message = code_String std_lib Unknown\<rparr>\<rparr>)"
proof -
  have "is_response sent_response" by (simp add: sent_response_def response_msg_def is_response.simps)
  from relayed_response [OF hub_run_reachable _ run_future _ this run_request] show ?thesis by simp
qed

theorem relayed_call_not_lost_witness:
  "(\<exists>ch cn. Tag sent_request = tag_of ch \<and> ctl_futures (lk_ctl (hub_front hub_run) True) ch = Some cn \<and> chan_closed cn) \<or>
    Tag sent_request \<in> set (tags is_request (unread False (hub_front hub_run))) \<or>
    Tag sent_request \<in> set (tags is_response (unread True (hub_front hub_run))) \<or> ctl_pool (front_ctl hub_run) \<noteq> []"
proof -
  have "reliable (front_ctl hub_run)" "reliable (back_ctl hub_run)" "reliable (lk_ctl (hub_back hub_run) False)"
    by (simp_all add: hub_run_def hub_at_def link_run_def drained_def answered_def link_run_defs)
  note w = relayed_call_not_lost [OF hub_run_reachable this run_request(1,2) TrueI echo_env_ok _ echo_env_ok,
      where er = "[]" and er' = "[]" and over = "\<lambda>_. False" and over' = "\<lambda>_. False"]
  have "\<not> client_streaming (handlers_of (front_ctl hub_run) (ServiceName sent_request)) (MethodName sent_request)"
    by (simp add: client_streaming_def handlers_of_def hub_run_def hub_at_def link_run_def link_run_defs)
  with w show ?thesis by (auto simp: echoes_def)
qed

text \<open>A worker of the middle on such a task.\<close>

definition spliced_sh :: "invoker ServiceHandler" where
  "spliced_sh = (echo_sh None 1)\<lparr>MethodInvokers := [''M'' \<mapsto> ControllerInvoker \<lparr>ri_controller = 1, ri_flags = 0\<rparr>]\<rparr>"

definition hub_busy :: "invoker hub" where
  "hub_busy = hub_at
     (set_ctl False (idle_ctl\<lparr>ctl_services := [''svc'' \<mapsto> echo_list [spliced_sh]], ctl_pool := [run_task]\<rparr>) link_received)
     link0 []"

definition hub_world :: "unit world" where
  "hub_world = \<lparr>w_ctls = [0 \<mapsto> without_task run_task (front_ctl hub_busy), 1 \<mapsto> idle_ctl],
     w_known = [], w_alloc = 100, w_meter = empty_meter, w_user = ()\<rparr>"

definition deliver :: "unit world \<Rightarrow> unit world" where
  "deliver w =
     (case w_ctls w 1 of
        None \<Rightarrow> w
      | Some st \<Rightarrow>
          (case pendingRPCs st 1 of
             None \<Rightarrow> w
           | Some ch \<Rightarrow> w\<lparr>w_ctls := (w_ctls w)(1 \<mapsto> answered st ch sent_response)\<rparr>))"

definition hub_env :: "(bytes, unit) env" where
  "hub_env = echo_env\<lparr>e_env := deliver\<rparr>"

lemma hub_env_ok: "env_ok hub_env"
proof -
  have "Tag sent_response = 1" by (simp add: sent_response_def response_msg_def)
  then have "safe w (deliver w)" for w
    using ctl_inv_answered [of _ sent_response]
    by (auto simp: safe_def world_ok_def deliver_def split: option.splits)
  then show ?thesis using echo_env_ok by (simp add: env_ok_def hub_env_def)
qed

lemma hub_busy_simps:
  "front_ctl hub_busy = idle_ctl\<lparr>ctl_services := [''svc'' \<mapsto> echo_list [spliced_sh]], ctl_pool := [run_task]\<rparr>"
  "back_ctl hub_busy = idle_ctl" "hub_work hub_busy = []"
  by (simp_all add: hub_busy_def hub_at_def link0_def)

lemma hub_world_ok: "world_ok hub_world"
proof -
  have "ctl_inv (without_task run_task (front_ctl hub_busy))"
    using idle_ctl_inv by (simp add: hub_busy_simps without_task_def ctl_inv_def futures_ok_def pending_ok_def)
  then show ?thesis using idle_ctl_inv by (auto simp: world_ok_def hub_world_def)
qed

lemma run_task_simps: "task_msg run_task = sent_request" "ctx_err (forward_ctx std_lib (task_ctx run_task)) = None"
  by (simp_all add: run_task_def forward_ctx_def incoming_ctx_def std_lib_def bg_ctx_def)

lemma hub_busy_forwards:
  assumes "hub_step std_lib (\<lambda>_. True) no_results echoes hub_busy s1" and "(tk, Awaiting ch) \<in> set (hub_work s1)"
  shows "ch = 0 \<and> s1 = hub_at (hub_front hub_busy) link_called [(run_task, Awaiting 0)]"
  using assms(1)
proof cases
  case (forward tk' ch' m' st)
  have "tk' = run_task" using forward(2) by (simp add: hub_busy_simps)
  with forward(7) run_forwarded have "ch' = 0" "st = caller" by (simp_all add: hub_busy_simps)
  moreover have "set_ctl True caller link0 = link_called" by (auto simp: set_ctl_def link0_def link_called_def)
  ultimately show ?thesis using forward(1) assms(2) \<open>tk' = run_task\<close> by (simp add: hub_busy_def hub_at_def)
qed (use assms(2) in \<open>simp_all add: hub_busy_simps\<close>)

theorem relay_worker_refines_witness:
  "\<exists>w' s'. handleRequest std_lib [] (Invoke hub_env) (InvokeStream hub_env) 0 (task_ctx run_task) sent_request hub_world = Done (Handled w') \<and>
    (hub_step std_lib (\<lambda>_. True) no_results echoes)\<^sup>*\<^sup>* hub_busy s' \<and> w_ctls w' 0 = Some (front_ctl s')"
proof -
  have lib: "e_lib hub_env = std_lib" by (simp add: hub_env_def echo_env_def)
  have q: "is_request (task_msg run_task)" "ServiceName sent_request = ''svc''" "MethodName sent_request = ''M''"
    by (simp_all add: run_task_def sent_request_def sample_request_def is_request.simps)
  have n: "ctl_nfut idle_ctl = 0" by (simp add: idle_ctl_def new_controller_def)
  have w: "worker_sees 0 1 run_task hub_world hub_busy"
    by (simp add: worker_sees_def hub_world_def hub_busy_simps)
  have env: "\<exists>s2 m st. (hub_step std_lib (\<lambda>_. True) no_results echoes)\<^sup>*\<^sup>* s1 s2 \<and> worker_sees 0 1 run_task (e_env hub_env w1) s2 \<and>
      (run_task, Awaiting ch) \<in> set (hub_work s2) \<and> run_task \<in> set (ctl_pool (front_ctl s2)) \<and>
      recv_future ch (back_ctl s2) = Done (Some m, st)"
    if "(run_task, Awaiting ch) \<in> set (hub_work s1)" and v: "worker_sees 0 1 run_task w1 s1"
      and "hub_step std_lib (\<lambda>_. True) no_results echoes hub_busy s1" for w1 s1 ch
  proof -
    let ?f = "hub_front hub_busy"
    have s1: "ch = 0" "s1 = hub_at ?f link_called [(run_task, Awaiting 0)]" using hub_busy_forwards that by blast+
    have p: "pendingRPCs caller 1 = Some 0" by (simp add: link_run_defs)
    have "worker_sees 0 1 run_task (e_env hub_env w1) (hub_at ?f link_run [(run_task, Awaiting 0)])"
      using v p by (simp add: s1 worker_sees_def hub_at_def link_called_def link_run_def hub_env_def deliver_def)
    moreover have "run_task \<in> set (ctl_pool (front_ctl (hub_at ?f link_run [(run_task, Awaiting 0)])))"
      by (simp add: hub_busy_def hub_at_def)
    moreover have "recv_future ch (back_ctl (hub_at ?f link_run [(run_task, Awaiting 0)])) = Done (Some sent_response, drained)"
      using run_taken s1(1) by (simp add: hub_at_def link_run_def)
    moreover have "(run_task, Awaiting ch) \<in> set (hub_work (hub_at ?f link_run [(run_task, Awaiting 0)]))"
      by (simp add: hub_at_def s1(1))
    ultimately show ?thesis using back_run s1(2) by blast
  qed
  have "\<exists>w' s'. handleRequest (e_lib hub_env) [] (Invoke hub_env) (InvokeStream hub_env) 0 (task_ctx run_task) (task_msg run_task)
        hub_world = Done (Handled w') \<and>
      (hub_step (e_lib hub_env) (\<lambda>_. True) no_results echoes)\<^sup>*\<^sup>* hub_busy s' \<and> w_ctls w' 0 = Some (front_ctl s') \<and>
      w_ctls w' (ri_controller \<lparr>ri_controller = 1, ri_flags = 0\<rparr>) = Some (back_ctl s')"
  proof (rule relay_worker_refines [OF hub_env_ok hub_world_ok])
    show "ctl_services (front_ctl hub_busy) (ServiceName (task_msg run_task)) = Some (echo_list [spliced_sh])"
      by (simp add: hub_busy_simps run_task_simps q)
    show "shl_data (echo_list [spliced_sh]) = [spliced_sh]" by (simp add: echo_list_def)
    show "MethodInvokers spliced_sh (MethodName (task_msg run_task)) = Some (ControllerInvoker \<lparr>ri_controller = 1, ri_flags = 0\<rparr>)"
      by (simp add: spliced_sh_def run_task_simps q)
    show "\<not> IsServerStream (info_of spliced_sh (MethodName (task_msg run_task)))"
      "\<not> IsClientStream (info_of spliced_sh (MethodName (task_msg run_task)))"
      by (simp_all add: spliced_sh_def echo_sh_def info_of_def run_task_simps q)
  qed (use q(1) w env n in \<open>simp_all add: lib hub_busy_simps run_task_simps\<close>)
  then show ?thesis unfolding lib run_task_simps by blast
qed

end
