(* ===== verification/Relay_Streams.thy ===== *)
theory Relay_Streams
  imports Server_Streams
begin

text \<open>
  A server-streaming call for a spliced service: the goroutine that
  \<open>streamControllerInvoker.InvokeStream\<close> starts takes the messages of the call from its
  future on the back, the controller of the spliced stream, and hands them through a
  channel to the loop of \<open>handleRequest\<close>, which sends them on the front, the controller the
  request came from. The loop of \<open>Run\<close> of the back fills the future. The four run
  concurrently, beside whatever else the two controllers do.
\<close>

subsection \<open>The system\<close>

text \<open>
  \<open>ry_held\<close> is what the goroutine has received and not yet handed on. \<open>ry_arrived\<close> records
  what the back has put into the future, \<open>ry_cancelled\<close> that the goroutine or the loop left
  because the context ended; the program keeps neither.
\<close>

record 'i relay_sys =
  ry_back :: "'i StreamController"
  ry_relay :: relay
  ry_held :: "RPC option option"
  ry_loop :: stream_loop
  ry_front :: "'i StreamController"
  ry_arrived :: "RPC list"
  ry_cancelled :: bool

definition is_part :: "RPC \<Rightarrow> bool" where
  "is_part m \<longleftrightarrow> (\<exists>x. Content m = Some (RPC_ServerStreamMsg x))"

definition routed_to :: "nat \<Rightarrow> RPC \<Rightarrow> 'i StreamController \<Rightarrow> bool" where
  "routed_to rc m st \<longleftrightarrow> (is_part m \<or> is_exit_msg m) \<and> pendingRPCs st (Tag m) = Some rc"

text \<open>The messages a controller has sent in answer to the request with tag \<open>t\<close>.\<close>

definition answers :: "tag \<Rightarrow> 'i StreamController \<Rightarrow> RPC list" where
  "answers t st = filter (\<lambda>m. Tag m = t \<and> (is_part m \<or> is_exit_msg m)) (s_attempts (ctl_stream st))"

text \<open>What the other users of the back do: they leave this call alone.\<close>

definition leaves_call :: "nat \<Rightarrow> 'i StreamController \<Rightarrow> 'i StreamController \<Rightarrow> bool" where
  "leaves_call rc st st' \<longleftrightarrow>
     ctl_inv st' \<and> ctl_futures st' rc = ctl_futures st rc \<and>
     (pendingRPCs st' (tag_of rc) = Some rc \<longleftrightarrow> pendingRPCs st (tag_of rc) = Some rc)"

inductive ry_step :: "lib \<Rightarrow> ctx \<Rightarrow> ctx \<Rightarrow> tag \<Rightarrow> 'i relay_sys \<Rightarrow> 'i relay_sys \<Rightarrow> bool"
  for G cr c t where
  arrive: "run_dispatch G cr m (ry_back s) = RunContinue st \<Longrightarrow>
    ry_step G cr c t s (s\<lparr>ry_back := st,
      ry_arrived := ry_arrived s @ (if routed_to (rl_rc (ry_relay s)) m (ry_back s) then [m] else [])\<rparr>)"
| run_ends: "set tags = dom (pendingRPCs (ry_back s)) \<Longrightarrow> cancel_pending G e tags (ry_back s) = Done st \<Longrightarrow>
    ry_step G cr c t s (s\<lparr>ry_back := st,
      ry_arrived := ry_arrived s @
        (if pendingRPCs (ry_back s) (tag_of (rl_rc (ry_relay s))) = Some (rl_rc (ry_relay s))
         then [cancel_msg G e (tag_of (rl_rc (ry_relay s)))] else [])\<rparr>)"
| back_other: "leaves_call (rl_rc (ry_relay s)) (ry_back s) st \<Longrightarrow> ry_step G cr c t s (s\<lparr>ry_back := st\<rparr>)"
| take: "\<not> rl_done (ry_relay s) \<Longrightarrow> ry_held s = None \<Longrightarrow>
    recv_future (rl_rc (ry_relay s)) (ry_back s) = Done (v, st) \<Longrightarrow>
    ry_step G cr c t s (s\<lparr>ry_back := st, ry_held := Some v\<rparr>)"
| pass: "\<not> rl_done (ry_relay s) \<Longrightarrow> ry_held s = Some v \<Longrightarrow> relay_pass v (ry_relay s) = Done r \<Longrightarrow>
    ry_step G cr c t s (s\<lparr>ry_relay := r, ry_held := None\<rparr>)"
| give_up: "\<not> rl_done (ry_relay s) \<Longrightarrow> ry_held s = None \<Longrightarrow> ctx_err c \<noteq> None \<Longrightarrow>
    relay_cancel (ry_relay s) = Done r \<Longrightarrow>
    ry_step G cr c t s (s\<lparr>ry_relay := r, ry_cancelled := True\<rparr>)"
| loop_takes: "\<not> sl_returned (ry_loop s) \<Longrightarrow> chan_recv (rl_writer (ry_relay s)) = Done (v, ch) \<Longrightarrow>
    loop_recv G c t v (ry_loop s) (ry_front s) = Done (sl, st) \<Longrightarrow>
    ry_step G cr c t s (s\<lparr>ry_relay := (ry_relay s)\<lparr>rl_writer := ch\<rparr>, ry_loop := sl, ry_front := st\<rparr>)"
| loop_leaves: "\<not> sl_returned (ry_loop s) \<Longrightarrow> loop_cancel G c (ry_loop s) = Done sl \<Longrightarrow>
    ry_step G cr c t s (s\<lparr>ry_loop := sl, ry_cancelled := True\<rparr>)"
| front_other: "ctl_inv st \<Longrightarrow> answers t st = answers t (ry_front s) \<Longrightarrow>
    ry_step G cr c t s (s\<lparr>ry_front := st\<rparr>)"

inductive ry_reachable :: "lib \<Rightarrow> ctx \<Rightarrow> ctx \<Rightarrow> tag \<Rightarrow> 'i relay_sys \<Rightarrow> 'i relay_sys \<Rightarrow> bool"
  for G cr c t s0 where
  ryr_start: "ry_reachable G cr c t s0 s0"
| ryr_step: "ry_reachable G cr c t s0 s \<Longrightarrow> ry_step G cr c t s s' \<Longrightarrow> ry_reachable G cr c t s0 s'"

text \<open>The goroutine and the loop start; the request has been sent on the back.\<close>

definition relay_start ::
  "lib \<Rightarrow> ctx \<Rightarrow> RPC \<Rightarrow> 'i StreamController \<Rightarrow> 'i StreamController \<Rightarrow> 'i relay_sys outcome" where
  "relay_start G c req back front =
     obind (Request G (forward_ctx G c) req back) (\<lambda>(rc, _, back1).
       Done \<lparr>ry_back = back1, ry_relay = \<lparr>rl_writer = make_chan 1, rl_rc = rc, rl_done = False\<rparr>,
         ry_held = None, ry_loop = loop_init, ry_front = front, ry_arrived = [], ry_cancelled = False\<rparr>)"

text \<open>That is what \<open>InvokeStream\<close> of a spliced service starts.\<close>

lemma InvokeStream_starts:
  assumes "w_ctls w (ri_controller r) = Some back"
    and "InvokeStream E (ControllerInvoker r) c req (make_chan 1) w = Done (p, w')"
  shows "\<exists>s. relay_start (e_lib E) c req back front = Done s \<and>
    p = Inr (RelayProducer (ri_controller r) (ry_relay s)) \<and> w_ctls w' = (w_ctls w)(ri_controller r \<mapsto> ry_back s)"
  using assms
  by (auto simp: InvokeStream_def remote_InvokeStream_def remote_request_def on_ctl_def relay_start_def Let_def)

text \<open>Other requests, replies and readers of other futures leave the call alone.\<close>

lemma leaves_call_send:
  assumes "ctl_inv st" and "send_or_kick m st = Done st'"
  shows "leaves_call rc st st'"
proof -
  have "kick_ok (ctl_kickOnce st) (ctl_receiver st)" using assms(1) by (simp add: ctl_inv_def)
  then obtain x y z where "send_or_kick m st = Done (st\<lparr>ctl_stream := x, ctl_kickOnce := y, ctl_receiver := z\<rparr>)"
    by (rule send_or_kick_Done)
  with assms(2) have "ctl_futures st' = ctl_futures st" "pendingRPCs st' = pendingRPCs st" by auto
  with send_attempts(2) [OF assms] show ?thesis by (simp add: leaves_call_def)
qed

lemma leaves_call_Request:
  assumes "ctl_inv st" and "rc < ctl_nfut st" and "Suc (ctl_nfut st) < 2 ^ 64"
    and "Request G c' m st = Done (ch, m', st')"
  shows "leaves_call rc st st'"
proof -
  have "tag_of rc \<noteq> tag_of (ctl_nfut st)"
    using tag_of_inj [OF less_SucI [OF assms(2)] lessI assms(3)] assms(2) by blast
  moreover have "ctl_count st + 1 = tag_of (ctl_nfut st)"
    using assms(1) by (simp add: ctl_inv_def futures_ok_def tag_of_def)
  ultimately have "leaves_call rc st (with_call st)"
    using assms(1,2) ctl_inv_with_call [OF assms(1)] by (auto simp: leaves_call_def with_call_def)
  moreover obtain m2 where "send_or_kick m2 (with_call st) = Done st'" using assms(4) by (auto simp: Request_alt)
  ultimately show ?thesis
    using leaves_call_send [OF ctl_inv_with_call [OF assms(1)], of m2 st' rc] by (simp add: leaves_call_def)
qed

lemma leaves_call_recv:
  assumes "ctl_inv st" and "recv_future ch st = Done (v, st')" and "ch \<noteq> rc"
  shows "leaves_call rc st st'"
  using assms(2,3) ctl_inv_recv_future [OF assms(1,2)]
  by (auto simp: leaves_call_def recv_future_def split: option.splits)

subsection \<open>The future of the call\<close>

definition ended :: "RPC list \<Rightarrow> bool" where
  "ended ms \<longleftrightarrow> ms \<noteq> [] \<and> is_exit_msg (last ms)"

definition parts_then_end :: "RPC list \<Rightarrow> bool" where
  "parts_then_end ms \<longleftrightarrow> list_all is_part ms \<or> (ended ms \<and> list_all is_part (butlast ms))"

definition future_inv :: "'i relay_sys \<Rightarrow> bool" where
  "future_inv s \<longleftrightarrow>
     (let rc = rl_rc (ry_relay s) in
      ctl_inv (ry_back s) \<and> parts_then_end (ry_arrived s) \<and>
      (\<exists>f. ctl_futures (ry_back s) rc = Some f \<and> chan_closed f = ended (ry_arrived s)) \<and>
      (pendingRPCs (ry_back s) (tag_of rc) = Some rc \<longleftrightarrow> \<not> ended (ry_arrived s)))"

lemma part_not_exit: "is_part m \<Longrightarrow> \<not> is_exit_msg m"
  by (auto simp: is_part_def is_exit_msg_def)

lemma ended_Nil [simp]: "\<not> ended []" and ended_snoc [simp]: "ended (ms @ [m]) \<longleftrightarrow> is_exit_msg m"
  by (simp_all add: ended_def)

lemma parts_not_ended: "list_all is_part ms \<Longrightarrow> \<not> ended ms"
  by (auto simp: ended_def list_all_iff dest: part_not_exit)

lemma parts_then_end_snoc:
  assumes "parts_then_end ms" and "\<not> ended ms" and "is_part m \<or> is_exit_msg m"
  shows "parts_then_end (ms @ [m])"
  using assms by (auto simp: parts_then_end_def)

lemma nothing_after_end:
  assumes "parts_then_end (xs @ ys)" and "ended xs"
  shows "ys = []"
proof (rule ccontr)
  assume "ys \<noteq> []"
  with assms(1) have "list_all is_part xs" by (auto simp: parts_then_end_def butlast_append)
  with parts_not_ended assms(2) show False by blast
qed

lemma parts_then_end_prefix:
  assumes "parts_then_end (xs @ m # ys)"
  shows "is_part m \<or> is_exit_msg m" and "\<not> ended xs"
proof -
  show "\<not> ended xs" using nothing_after_end [OF assms] by blast
  show "is_part m \<or> is_exit_msg m"
    using assms by (auto simp: parts_then_end_def ended_def butlast_append split: if_splits)
qed

text \<open>What one message of the stream does to a future of the back.\<close>

lemma arrive_routed:
  assumes i: "ctl_inv st" and d: "run_dispatch G cr m st = RunContinue st'" and r: "routed_to rc m st"
  shows "future_empty st rc" and "ctl_inv st'" and "Tag m = tag_of rc"
    and "ctl_futures st' rc = Some \<lparr>chan_buf = [m], chan_cap = 1, chan_closed = is_exit_msg m\<rparr>"
    and "pendingRPCs st' (tag_of rc) = Some rc \<longleftrightarrow> \<not> is_exit_msg m"
proof -
  have p: "pendingRPCs st (Tag m) = Some rc" using r by (simp add: routed_to_def)
  then show t: "Tag m = tag_of rc" using pending_future [OF i] by metis
  show "ctl_inv st'" by (rule ctl_inv_run_dispatch [OF i d])
  have "future_empty st rc \<and> st' = (if is_exit_msg m then answered st rc m else streamed st rc m)"
  proof (cases "is_exit_msg m")
    case True
    then obtain x where "Content m = Some (RPC_Response x)" by (auto simp: is_exit_msg_def)
    from run_dispatch_response [OF i this, of G cr] True show ?thesis using d p by (simp split: if_splits)
  next
    case False
    then have "is_part m" using r by (simp add: routed_to_def)
    then obtain x where "Content m = Some (RPC_ServerStreamMsg x)" by (auto simp: is_part_def)
    from run_dispatch_stream_msg [OF i this, of G cr] False show ?thesis using d p by (simp split: if_splits)
  qed
  then show "future_empty st rc" and
    "ctl_futures st' rc = Some \<lparr>chan_buf = [m], chan_cap = 1, chan_closed = is_exit_msg m\<rparr>" and
    "pendingRPCs st' (tag_of rc) = Some rc \<longleftrightarrow> \<not> is_exit_msg m"
    using p t by (auto simp: answered_def streamed_def)
qed

lemma arrive_elsewhere:
  assumes i: "ctl_inv st" and d: "run_dispatch G cr m st = RunContinue st'" and n: "\<not> routed_to rc m st"
  shows "leaves_call rc st st'"
proof -
  have own: "ch \<noteq> rc \<and> pendingRPCs st (tag_of ch) = Some ch" if "pendingRPCs st (Tag m) = Some ch" "is_part m \<or> is_exit_msg m" for ch
  proof -
    have "Tag m = tag_of ch" using pending_future [OF i that(1)] by metis
    then show ?thesis using that n by (auto simp: routed_to_def)
  qed
  note inv = ctl_inv_run_dispatch [OF i d]
  consider x where "Content m = Some (RPC_Request x)" | x where "Content m = Some (RPC_Response x)"
    | x where "Content m = Some (RPC_ServerStreamMsg x)"
    using d by (cases "Content m"; cases "the (Content m)") (simp_all add: run_dispatch_def)
  then show ?thesis
  proof cases
    case 1
    with d inv show ?thesis by (auto simp: run_dispatch_def leaves_call_def)
  next
    case 2
    with run_dispatch_response [OF i this, of G cr] d inv own show ?thesis
      by (auto simp: leaves_call_def answered_def is_exit_msg_def split: option.splits if_splits)
  next
    case 3
    with run_dispatch_stream_msg [OF i this, of G cr] d inv own show ?thesis
      by (auto simp: leaves_call_def streamed_def is_part_def split: option.splits if_splits)
  qed
qed

lemma run_ends_call:
  assumes i: "ctl_inv st" and tags: "set tags = dom (pendingRPCs st)" and d: "cancel_pending G e tags st = Done st'"
  shows "ctl_inv st'" and "pendingRPCs st' = Map.empty"
    and "pendingRPCs st (tag_of rc) = Some rc \<Longrightarrow> future_empty st rc \<and>
      ctl_futures st' rc = Some \<lparr>chan_buf = [cancel_msg G e (tag_of rc)], chan_cap = 1, chan_closed = True\<rparr>"
    and "pendingRPCs st (tag_of rc) \<noteq> Some rc \<Longrightarrow> ctl_futures st' rc = ctl_futures st rc"
proof -
  have st': "st' = cancelled G e tags st"
    and emp: "\<And>t ch. pendingRPCs st t = Some ch \<Longrightarrow> future_empty st ch"
    using cancel_pending_eq [OF i, of G e tags] d tags by (auto split: if_splits)
  show "ctl_inv st'" unfolding st' by (rule ctl_inv_cancelled [OF i])
  show "pendingRPCs st' = Map.empty" using cancelled_all [of st tags] tags st' by simp
  show "pendingRPCs st (tag_of rc) = Some rc \<Longrightarrow> future_empty st rc \<and>
      ctl_futures st' rc = Some \<lparr>chan_buf = [cancel_msg G e (tag_of rc)], chan_cap = 1, chan_closed = True\<rparr>"
    and "pendingRPCs st (tag_of rc) \<noteq> Some rc \<Longrightarrow> ctl_futures st' rc = ctl_futures st rc"
    using emp tags unfolding st' by (auto simp: cancelled_def)
qed

lemma future_invE:
  assumes "future_inv s"
  obtains f where "ctl_inv (ry_back s)" and "parts_then_end (ry_arrived s)"
    and "ctl_futures (ry_back s) (rl_rc (ry_relay s)) = Some f" and "chan_closed f = ended (ry_arrived s)"
    and "pendingRPCs (ry_back s) (tag_of (rl_rc (ry_relay s))) = Some (rl_rc (ry_relay s)) \<longleftrightarrow> \<not> ended (ry_arrived s)"
  using assms unfolding future_inv_def Let_def by blast

lemma step_keeps_rc: "ry_step G cr c t s s' \<Longrightarrow> rl_rc (ry_relay s') = rl_rc (ry_relay s)"
  by (induction rule: ry_step.induct)
    (auto simp: relay_pass_def relay_cancel_def split: option.splits RPC_Content.splits)

lemma future_inv_cong:
  assumes "future_inv s" and "leaves_call (rl_rc (ry_relay s)) (ry_back s) (ry_back s')"
    and "rl_rc (ry_relay s') = rl_rc (ry_relay s)" and "ry_arrived s' = ry_arrived s"
  shows "future_inv s'"
  using assms by (simp add: future_inv_def leaves_call_def Let_def)

lemma future_inv_arrive:
  assumes inv: "future_inv s" and d: "run_dispatch G cr m (ry_back s) = RunContinue st"
  shows "future_inv (s\<lparr>ry_back := st,
    ry_arrived := ry_arrived s @ (if routed_to (rl_rc (ry_relay s)) m (ry_back s) then [m] else [])\<rparr>)"
proof (cases "routed_to (rl_rc (ry_relay s)) m (ry_back s)")
  case True
  have i: "ctl_inv (ry_back s)" and a: "parts_then_end (ry_arrived s)" using inv by (auto elim: future_invE)
  note r = arrive_routed [OF i d True]
  have "\<not> ended (ry_arrived s)" using inv r(3) True by (auto simp: routed_to_def elim: future_invE)
  with r a True show ?thesis by (auto simp: future_inv_def Let_def routed_to_def intro!: parts_then_end_snoc)
next
  case False
  have "ctl_inv (ry_back s)" using inv by (rule future_invE)
  from arrive_elsewhere [OF this d False] False show ?thesis by (intro future_inv_cong [OF inv]) simp_all
qed

lemma future_inv_run_ends:
  assumes inv: "future_inv s" and tags: "set tags = dom (pendingRPCs (ry_back s))"
    and d: "cancel_pending G e tags (ry_back s) = Done st"
  shows "future_inv (s\<lparr>ry_back := st, ry_arrived := ry_arrived s @
    (if pendingRPCs (ry_back s) (tag_of (rl_rc (ry_relay s))) = Some (rl_rc (ry_relay s))
     then [cancel_msg G e (tag_of (rl_rc (ry_relay s)))] else [])\<rparr>)"
proof -
  obtain f where i: "ctl_inv (ry_back s)" and a: "parts_then_end (ry_arrived s)"
    and f: "ctl_futures (ry_back s) (rl_rc (ry_relay s)) = Some f" "chan_closed f = ended (ry_arrived s)"
    and p: "pendingRPCs (ry_back s) (tag_of (rl_rc (ry_relay s))) = Some (rl_rc (ry_relay s)) \<longleftrightarrow> \<not> ended (ry_arrived s)"
    using inv by (rule future_invE)
  note r = run_ends_call [OF i tags d]
  have x: "is_exit_msg (cancel_msg G e y)" for y
    by (simp add: is_exit_msg_def cancel_msg_def response_msg_def)
  show ?thesis
  proof (cases "ended (ry_arrived s)")
    case True
    with p r(1,2,4) f a show ?thesis by (simp add: future_inv_def Let_def)
  next
    case False
    with p r(1,2,3) a x show ?thesis by (simp add: future_inv_def Let_def parts_then_end_snoc)
  qed
qed

lemma future_inv_step:
  assumes inv: "future_inv s" and step: "ry_step G cr c t s s'"
  shows "future_inv s'"
proof -
  obtain f where i: "ctl_inv (ry_back s)" and a: "parts_then_end (ry_arrived s)"
    and f: "ctl_futures (ry_back s) (rl_rc (ry_relay s)) = Some f" "chan_closed f = ended (ry_arrived s)"
    and p: "pendingRPCs (ry_back s) (tag_of (rl_rc (ry_relay s))) = Some (rl_rc (ry_relay s)) \<longleftrightarrow> \<not> ended (ry_arrived s)"
    using inv by (rule future_invE)
  note rc = step_keeps_rc [OF step]
  from step show ?thesis
  proof cases
    case (arrive m st)
    then show ?thesis using future_inv_arrive [OF inv arrive(2)] by simp
  next
    case (run_ends tags e st)
    then show ?thesis using future_inv_run_ends [OF inv run_ends(2,3)] by simp
  next
    case (take v st)
    obtain f' where "chan_recv f = Done (v, f')"
      and st: "st = (ry_back s)\<lparr>ctl_futures := (ctl_futures (ry_back s))(rl_rc (ry_relay s) \<mapsto> f')\<rparr>"
      using take(4) f(1) by (auto simp: recv_future_def)
    then have "chan_closed f' = chan_closed f" by (auto simp: chan_recv_def split: list.splits if_splits)
    with ctl_inv_recv_future [OF i take(4)] a f p show ?thesis by (simp add: take(1) st future_inv_def Let_def)
  next
    case (back_other st)
    show ?thesis by (rule future_inv_cong [OF inv]) (use back_other in simp_all)
  qed (use rc inv in \<open>simp_all add: future_inv_def Let_def\<close>)
qed

subsection \<open>From the future to the front\<close>

fun held_msgs :: "RPC option option \<Rightarrow> RPC list" where
  "held_msgs (Some (Some m)) = [m]"
| "held_msgs _ = []"

text \<open>
  While nobody has given up, what arrived is what the loop has taken, then what is in the
  channel, then what the goroutine holds, then what is in the future; and the front has
  sent an answer for everything the loop has taken, the last one when the loop returns.
\<close>

definition sent_answers :: "lib \<Rightarrow> ctx \<Rightarrow> tag \<Rightarrow> RPC list \<Rightarrow> bool \<Rightarrow> RPC list" where
  "sent_answers G c t rs complete =
     map (stream_reply_msg t) (filter is_part rs) @ (if complete then [exit_reply_msg G c t (last rs)] else [])"

definition flows :: "lib \<Rightarrow> ctx \<Rightarrow> tag \<Rightarrow> RPC list \<Rightarrow> 'i relay_sys \<Rightarrow> RPC list \<Rightarrow> RPC chan \<Rightarrow> bool" where
  "flows G c t before s rs f \<longleftrightarrow>
     ctl_futures (ry_back s) (rl_rc (ry_relay s)) = Some f \<and>
     ry_arrived s = rs @ chan_buf (rl_writer (ry_relay s)) @ held_msgs (ry_held s) @ chan_buf f \<and>
     sl_exit (ry_loop s) = loop_exit rs \<and>
     answers t (ry_front s) = before @ sent_answers G c t rs (sl_returned (ry_loop s)) \<and>
     (rl_done (ry_relay s) \<longleftrightarrow> ended (rs @ chan_buf (rl_writer (ry_relay s)))) \<and>
     chan_closed (rl_writer (ry_relay s)) = rl_done (ry_relay s) \<and>
     (sl_returned (ry_loop s) \<longrightarrow> ended rs) \<and> ry_held s \<noteq> Some None"

definition flow_inv :: "lib \<Rightarrow> ctx \<Rightarrow> tag \<Rightarrow> RPC list \<Rightarrow> 'i relay_sys \<Rightarrow> bool" where
  "flow_inv G c t before s \<longleftrightarrow>
     ctl_inv (ry_front s) \<and>
     (if ry_cancelled s then ctx_err c \<noteq> None else \<exists>rs f. flows G c t before s rs f)"

lemma answers_send:
  assumes "ctl_inv st" and "send_or_kick m st = Done st'"
  shows "answers t st' = answers t st @ (if Tag m = t \<and> (is_part m \<or> is_exit_msg m) then [m] else [])"
  using send_attempts(1) [OF assms] by (simp add: answers_def)

lemma answer_msgs [simp]:
  "Tag (stream_reply_msg t m) = t" "is_part (stream_reply_msg t m)"
  "Tag (exit_reply_msg G c t m) = t" "is_exit_msg (exit_reply_msg G c t m)"
  by (auto simp: stream_reply_msg_def is_part_def is_exit_msg_def exit_reply_msg_def error_reply_def
      ok_reply_def response_msg_def Let_def)

lemma loop_recv_part:
  assumes "is_part m"
  shows "loop_recv G c t (Some m) sl st = obind (send_or_kick (stream_reply_msg t m) st) (\<lambda>st'. Done (sl, st'))"
  using assms by (auto simp: loop_recv_def is_part_def StreamReply_eq)

lemma loop_recv_inv:
  assumes "ctl_inv st" and "status_laws G" and "loop_recv G c t v sl st = Done (sl', st')"
  shows "ctl_inv st'"
proof -
  have "st' = st \<or> (\<exists>m. send_or_kick m st = Done st')"
    using assms(2,3) by (auto simp: loop_recv_def StreamReply_def exit_reply_eq split: option.splits RPC_Content.splits)
  with send_attempts(2) [OF assms(1)] assms(1) show ?thesis by blast
qed

lemma flow_future:
  assumes "flows G c t before s rs f" and "ry_back s' = st" and "ry_arrived s' = ry_arrived s @ ms"
    and "ctl_futures st (rl_rc (ry_relay s)) = Some f'" and "chan_buf f' = chan_buf f @ ms"
    and "s' = s\<lparr>ry_back := ry_back s', ry_arrived := ry_arrived s'\<rparr>"
  shows "flows G c t before s' rs f'"
  using assms by (cases s; cases s') (simp add: flows_def)

lemma flow_take:
  assumes fl: "flows G c t before s rs f" and fi: "future_inv s"
    and nd: "\<not> rl_done (ry_relay s)" "ry_held s = None"
    and r: "recv_future (rl_rc (ry_relay s)) (ry_back s) = Done (v, st)"
  shows "\<exists>f'. flows G c t before (s\<lparr>ry_back := st, ry_held := Some v\<rparr>) rs f'"
proof -
  obtain f' where f': "chan_recv f = Done (v, f')"
    and st: "st = (ry_back s)\<lparr>ctl_futures := (ctl_futures (ry_back s))(rl_rc (ry_relay s) \<mapsto> f')\<rparr>"
    using r fl by (auto simp: recv_future_def flows_def)
  show ?thesis
  proof (cases v)
    case None
    then have "chan_buf f = []" "chan_closed f" using f' by (auto simp: chan_recv_def split: list.splits if_splits)
    moreover from this(2) have "ended (ry_arrived s)" using fi fl by (auto simp: future_inv_def flows_def Let_def)
    ultimately have False using fl nd by (simp add: flows_def)
    then show ?thesis ..
  next
    case (Some m)
    then have "chan_buf f = m # chan_buf f'" using f' by (auto simp: chan_recv_def split: list.splits if_splits)
    with fl Some nd(2) show ?thesis by (auto simp: flows_def st)
  qed
qed

lemma flow_pass:
  assumes fl: "flows G c t before s rs f" and a: "parts_then_end (ry_arrived s)"
    and nd: "\<not> rl_done (ry_relay s)" and h: "ry_held s = Some v" and r: "relay_pass v (ry_relay s) = Done r"
  shows "flows G c t before (s\<lparr>ry_relay := r, ry_held := None\<rparr>) rs f"
proof -
  let ?w = "rl_writer (ry_relay s)"
  obtain m where v: "v = Some m" using fl h by (cases v) (auto simp: flows_def)
  have arr: "ry_arrived s = (rs @ chan_buf ?w) @ m # chan_buf f" using fl h v by (simp add: flows_def)
  have op: "\<not> chan_closed ?w" using fl nd by (simp add: flows_def)
  have "chan_buf (rl_writer r) = chan_buf ?w @ [m] \<and> rl_rc r = rl_rc (ry_relay s) \<and>
      rl_done r = is_exit_msg m \<and> chan_closed (rl_writer r) = is_exit_msg m"
  proof (cases "is_exit_msg m")
    case True
    with r v op show ?thesis
      by (auto simp: relay_pass_def is_exit_msg_def chan_send_def chan_close_def split: if_splits)
  next
    case False
    then have "is_part m" using parts_then_end_prefix(1) a unfolding arr by blast
    with False r v op nd show ?thesis
      by (auto simp: relay_pass_def is_part_def chan_send_def split: if_splits)
  qed
  with fl v h show ?thesis by (simp add: flows_def ended_def)
qed

lemma flow_loop:
  assumes fl: "flows G c t before s rs f" and i: "ctl_inv (ry_front s)" and a: "parts_then_end (ry_arrived s)"
    and laws: "status_laws G" and nr: "\<not> sl_returned (ry_loop s)"
    and r: "chan_recv (rl_writer (ry_relay s)) = Done (v, ch)"
    and l: "loop_recv G c t v (ry_loop s) (ry_front s) = Done (sl, st)"
  shows "\<exists>rs'. ctl_inv st \<and>
    flows G c t before (s\<lparr>ry_relay := (ry_relay s)\<lparr>rl_writer := ch\<rparr>, ry_loop := sl, ry_front := st\<rparr>) rs' f"
proof (cases v)
  case (Some m)
  have ch: "chan_buf (rl_writer (ry_relay s)) = m # chan_buf ch" "chan_closed ch = chan_closed (rl_writer (ry_relay s))"
    using r Some by (auto simp: chan_recv_def split: list.splits if_splits)
  have arr: "ry_arrived s = rs @ m # (chan_buf ch @ held_msgs (ry_held s) @ chan_buf f)"
    using fl ch(1) by (simp add: flows_def)
  note m = parts_then_end_prefix [OF a [unfolded arr]]
  show ?thesis
  proof (cases "is_part m")
    case True
    have "sl = ry_loop s" and snd: "send_or_kick (stream_reply_msg t m) (ry_front s) = Done st"
      using l Some by (auto simp: loop_recv_part [OF True])
    then have "answers t st = answers t (ry_front s) @ [stream_reply_msg t m]" "ctl_inv st"
      using answers_send [OF i snd, of t] send_attempts(2) [OF i snd] by simp_all
    with fl ch nr m True part_not_exit [OF True] \<open>sl = ry_loop s\<close> show ?thesis
      by (intro exI [where x = "rs @ [m]"])
        (auto simp: flows_def sent_answers_def loop_exit_def ended_def)
  next
    case False
    with m(1) have e: "is_exit_msg m" by blast
    with l Some have "sl = (ry_loop s)\<lparr>sl_exit := Some m\<rparr>" "st = ry_front s" by (simp_all add: loop_recv_exit)
    with fl ch nr e False i show ?thesis
      by (intro exI [where x = "rs @ [m]"]) (auto simp: flows_def sent_answers_def loop_exit_def ended_def)
  qed
next
  case None
  then have ch: "chan_buf (rl_writer (ry_relay s)) = []" "chan_closed (rl_writer (ry_relay s))"
    "ch = rl_writer (ry_relay s)" using r by (auto simp: chan_recv_def split: list.splits if_splits)
  then have e: "ended rs" using fl by (auto simp: flows_def)
  then have x: "sl_exit (ry_loop s) = Some (last rs)" using fl by (simp add: flows_def loop_exit_def ended_def)
  with l None laws have sl: "sl = (ry_loop s)\<lparr>sl_returned := True\<rparr>"
    and snd: "send_or_kick (exit_reply_msg G c t (last rs)) (ry_front s) = Done st"
    by (auto simp: loop_recv_def exit_reply_eq)
  have "answers t st = answers t (ry_front s) @ [exit_reply_msg G c t (last rs)]" "ctl_inv st"
    using answers_send [OF i snd, of t] send_attempts(2) [OF i snd] by simp_all
  with fl ch nr e sl x show ?thesis
    by (intro exI [where x = rs]) (auto simp: flows_def sent_answers_def loop_exit_def ended_def)
qed

lemma flow_arrive:
  assumes fl: "flows G c t before s rs f" and i: "ctl_inv (ry_back s)"
    and d: "run_dispatch G' cr m (ry_back s) = RunContinue st"
  shows "\<exists>f'. flows G c t before (s\<lparr>ry_back := st,
    ry_arrived := ry_arrived s @ (if routed_to (rl_rc (ry_relay s)) m (ry_back s) then [m] else [])\<rparr>) rs f'"
proof -
  let ?rc = "rl_rc (ry_relay s)"
  have fut: "ctl_futures (ry_back s) ?rc = Some f" using fl by (simp add: flows_def)
  show ?thesis
  proof (cases "routed_to ?rc m (ry_back s)")
    case True
    note r = arrive_routed [OF i d True]
    have "chan_buf f = []" using r(1) fut by (simp add: future_empty_def)
    with flow_future [OF fl, where ms = "[m]" and st = st] r(4) True show ?thesis by fastforce
  next
    case False
    have "ctl_futures st ?rc = Some f"
      using arrive_elsewhere [OF i d False] fut by (simp add: leaves_call_def)
    with flow_future [OF fl, where ms = "[]" and st = st] False show ?thesis by fastforce
  qed
qed

lemma flow_run_ends:
  assumes fl: "flows G c t before s rs f" and i: "ctl_inv (ry_back s)"
    and tags: "set tags = dom (pendingRPCs (ry_back s))" and d: "cancel_pending G' e tags (ry_back s) = Done st"
  shows "\<exists>f'. flows G c t before (s\<lparr>ry_back := st, ry_arrived := ry_arrived s @
    (if pendingRPCs (ry_back s) (tag_of (rl_rc (ry_relay s))) = Some (rl_rc (ry_relay s))
     then [cancel_msg G' e (tag_of (rl_rc (ry_relay s)))] else [])\<rparr>) rs f'"
proof -
  let ?rc = "rl_rc (ry_relay s)"
  note r = run_ends_call [OF i tags d]
  have fut: "ctl_futures (ry_back s) ?rc = Some f" using fl by (simp add: flows_def)
  show ?thesis
  proof (cases "pendingRPCs (ry_back s) (tag_of ?rc) = Some ?rc")
    case True
    from r(3) [OF this] have "chan_buf f = []" using fut by (simp add: future_empty_def)
    with flow_future [OF fl, where ms = "[cancel_msg G' e (tag_of ?rc)]" and st = st] r(3) [OF True] True
    show ?thesis by fastforce
  next
    case False
    with flow_future [OF fl, where ms = "[]" and st = st] r(4) fut show ?thesis by fastforce
  qed
qed

lemma flow_inv_step:
  assumes inv: "flow_inv G c t before s" and fi: "future_inv s" and step: "ry_step G cr c t s s'" and laws: "status_laws G"
  shows "flow_inv G c t before s'"
proof (cases "ry_cancelled s")
  case True
  then have e: "ctx_err c \<noteq> None" "ctl_inv (ry_front s)" using inv by (simp_all add: flow_inv_def)
  from step have "ry_cancelled s'" using True by cases simp_all
  moreover from step e(2) have "ctl_inv (ry_front s')" by cases (auto intro: loop_recv_inv [OF _ laws])
  ultimately show ?thesis using e(1) by (simp add: flow_inv_def)
next
  case False
  then obtain rs f where fl: "flows G c t before s rs f" and i: "ctl_inv (ry_front s)"
    using inv by (auto simp: flow_inv_def)
  have fut: "ctl_futures (ry_back s) (rl_rc (ry_relay s)) = Some f" using fl by (simp add: flows_def)
  obtain a: "parts_then_end (ry_arrived s)" and bi: "ctl_inv (ry_back s)" using fi by (rule future_invE)
  from step show ?thesis
  proof cases
    case (arrive m st)
    then obtain f' where "flows G c t before s' rs f'" using flow_arrive [OF fl bi arrive(2)] by auto
    moreover have "ctl_inv (ry_front s')" "\<not> ry_cancelled s'" using i False arrive(1) by simp_all
    ultimately show ?thesis unfolding flow_inv_def by auto
  next
    case (run_ends tags e st)
    then obtain f' where "flows G c t before s' rs f'" using flow_run_ends [OF fl bi run_ends(2,3)] by auto
    moreover have "ctl_inv (ry_front s')" "\<not> ry_cancelled s'" using i False run_ends(1) by simp_all
    ultimately show ?thesis unfolding flow_inv_def by auto
  next
    case (back_other st)
    have "ctl_futures st (rl_rc (ry_relay s)) = Some f" using back_other(2) fut by (simp add: leaves_call_def)
    with flow_future [OF fl, of s' st "[]" f] back_other(1) i False show ?thesis by (auto simp: flow_inv_def)
  next
    case (take v st)
    with flow_take [OF fl fi take(2-4)] i False show ?thesis by (auto simp: flow_inv_def)
  next
    case (pass v r)
    with flow_pass [OF fl a pass(2-4)] i False show ?thesis by (auto simp: flow_inv_def)
  next
    case (loop_takes v ch sl st)
    with flow_loop [OF fl i a laws loop_takes(2-4)] False show ?thesis by (auto simp: flow_inv_def)
  next
    case (front_other st)
    have "flows G c t before s' rs f" using fl front_other(3) by (simp add: front_other(1) flows_def)
    with front_other(1,2) False show ?thesis by (auto simp: flow_inv_def)
  next
    case (loop_leaves sl)
    with i show ?thesis by (auto simp: flow_inv_def loop_cancel_def split: option.splits)
  qed (use i in \<open>simp add: flow_inv_def\<close>)
qed

lemma start_inv:
  assumes i: "ctl_inv back" "ctl_inv front" and s: "relay_start G c req back front = Done s0"
  shows "future_inv s0" and "flow_inv G c t (answers t front) s0" and "ry_front s0 = front"
proof -
  obtain m st where m: "send_or_kick m (with_call back) = Done st"
    and s0: "s0 = \<lparr>ry_back = st, ry_relay = \<lparr>rl_writer = make_chan 1, rl_rc = ctl_nfut back, rl_done = False\<rparr>,
      ry_held = None, ry_loop = loop_init, ry_front = front, ry_arrived = [], ry_cancelled = False\<rparr>"
    using s by (auto simp: relay_start_def Request_alt)
  have "ctl_count back + 1 = tag_of (ctl_nfut back)"
    using i(1) by (simp add: ctl_inv_def futures_ok_def tag_of_def)
  then have "pendingRPCs (with_call back) (tag_of (ctl_nfut back)) = Some (ctl_nfut back)"
    by (simp add: with_call_def)
  moreover have "ctl_futures (with_call back) (ctl_nfut back) = Some (make_chan 1)" by (simp add: with_call_def)
  ultimately have st: "ctl_inv st" "pendingRPCs st (tag_of (ctl_nfut back)) = Some (ctl_nfut back)"
    "ctl_futures st (ctl_nfut back) = Some (make_chan 1)"
    using leaves_call_send [OF ctl_inv_with_call [OF i(1)] m, of "ctl_nfut back"] by (simp_all add: leaves_call_def)
  then show "future_inv s0" by (simp add: s0 future_inv_def Let_def parts_then_end_def)
  have "flows G c t (answers t front) s0 [] (make_chan 1)"
    using st(3) by (simp add: s0 flows_def sent_answers_def loop_init_def loop_exit_def)
  with i(2) show "flow_inv G c t (answers t front) s0" by (auto simp: s0 flow_inv_def)
  show "ry_front s0 = front" by (simp add: s0)
qed

lemma ry_reachable_future:
  assumes "ry_reachable G cr c t s0 s" and "future_inv s0"
  shows "future_inv s"
  using assms by induction (auto intro: future_inv_step)

lemma ry_reachable_flow:
  assumes "ry_reachable G cr c t s0 s" and "future_inv s0" and "flow_inv G c t before s0" and "status_laws G"
  shows "flow_inv G c t before s"
  using assms by induction (auto intro: flow_inv_step ry_reachable_future)

lemma complete_relay_sent:
  assumes r: "ry_reachable G cr c t s0 s" and s0: "relay_start G c req back front = Done s0"
    and i: "ctl_inv back" "ctl_inv front" and laws: "status_laws G"
    and ret: "sl_returned (ry_loop s)" and err: "ctx_err c = None"
  shows "\<exists>ms e. ry_arrived s = ms @ [e] \<and> list_all is_part ms \<and> is_exit_msg e \<and>
    answers t (ry_front s) = answers t front @ map (stream_reply_msg t) ms @ [exit_reply_msg G c t e]"
proof -
  note st = start_inv [OF i s0]
  have "flow_inv G c t (answers t front) s" by (rule ry_reachable_flow [OF r st(1,2) laws])
  then obtain rs f where fl: "flows G c t (answers t front) s rs f" using err by (auto simp: flow_inv_def split: if_splits)
  have a: "parts_then_end (ry_arrived s)" using ry_reachable_future [OF r st(1)] by (rule future_invE)
  have e: "ended rs" using fl ret by (simp add: flows_def)
  then have arr: "ry_arrived s = rs" using nothing_after_end [of rs] a fl by (auto simp: flows_def)
  then obtain ms x where rs: "rs = ms @ [x]" using e by (cases rs rule: rev_cases) (auto simp: ended_def)
  then have ms: "list_all is_part ms" "is_exit_msg x" using a e arr parts_not_ended [of rs] by (auto simp: parts_then_end_def)
  moreover have "filter is_part rs = ms" using ms rs part_not_exit by (auto simp: list_all_iff)
  ultimately show ?thesis using fl ret arr rs by (auto simp: flows_def sent_answers_def)
qed

subsection \<open>Properties of relayed streams\<close>

text \<open>
  C10: a relayed stream passes on every message that arrives for it, in order and under the
  tag of the request: when the loop returns and the context has not ended, the front has
  sent, among whatever else it sent, one stream message for each of them and then one
  response, whether the stream was ended by its handler or by the end of the back.
\<close>

theorem relayed_stream_complete:
  assumes "ry_reachable G cr c t s0 s" and "relay_start G c req back front = Done s0"
    and "ctl_inv back" and "ctl_inv front" and "status_laws G"
    and "sl_returned (ry_loop s)" and "ctx_err c = None"
  shows "\<exists>ms e. ry_arrived s = ms @ [e] \<and> list_all is_part ms \<and> is_exit_msg e \<and>
    answers t (ry_front s) = answers t front @ map (stream_reply_msg t) ms @ [exit_reply_msg G c t e]"
  by (rule complete_relay_sent [OF assms])

text \<open>What the end of a stream tells its client: the status of an error, or the bytes.\<close>

definition stream_end :: "lib \<Rightarrow> RPC \<Rightarrow> rpc_status + bytes" where
  "stream_end G m =
     (let stat = GetStatus G (GetResponse (Some m))
      in if st_code stat \<noteq> OK then Inl stat else Inr (Response_GetResponse (GetResponse (Some m))))"

lemma stream_end_reply:
  assumes "status_laws G"
  shows "stream_end G (exit_reply_msg G c t m) = stream_end G m"
  using assms
  by (auto simp: stream_end_def exit_reply_msg_def Let_def error_reply_def ok_reply_def response_msg_def
      status_Err_laws GetStatus_def getter_defs split: option.splits)

lemma stream_reply_twice: "stream_reply_msg t (stream_reply_msg t' m) = stream_reply_msg t m"
  by (simp add: stream_reply_msg_def getter_defs)

text \<open>
  C11: a spliced server makes no difference to the client of a stream: when the spliced
  server has served the stream to its end and its messages have arrived, the client is sent
  the same stream messages as from that server itself, which are those its handler gave to
  \<open>SendMsg\<close> and \<open>SendHeader\<close>, and the same end, that of what the handler returned.
\<close>

theorem relayed_stream_as_direct:
  assumes r: "ry_reachable G cr c t s0 s" and s0: "relay_start G c req back front = Done s0"
    and i: "ctl_inv back" "ctl_inv front" and laws: "status_laws G"
    and ret: "sl_returned (ry_loop s)" "ctx_err c = None"
    and far: "ss_reachable G K c' t' (ss_init c' req' p st) d" "ctl_inv st"
    and far_ret: "sl_returned (ss_loop d)" "ctx_err c' = None"
    and arrived: "s_attempts (ctl_stream (ss_ctl d)) = s_attempts (ctl_stream st) @ ry_arrived s"
  shows "\<exists>ms e x. ss_written d = ms @ [e] \<and> stream_end G x = stream_end G e \<and>
    answers t (ry_front s) = answers t front @ map (stream_reply_msg t) ms @ [x] \<and>
    ss_asked d = map body_of ms \<and> (\<exists>err tr. ss_result d = Some err \<and> e = exit_response G err tr)"
proof -
  obtain ms e where d: "ss_written d = ms @ [e]" "list_all is_stream_msg ms"
    "s_attempts (ctl_stream (ss_ctl d)) =
       s_attempts (ctl_stream st) @ map (stream_reply_msg t') ms @ [exit_reply_msg G c' t' e]"
    using complete_stream_sent [OF far laws far_ret] by blast
  then have "ry_arrived s = map (stream_reply_msg t') ms @ [exit_reply_msg G c' t' e]" using arrived by simp
  with complete_relay_sent [OF r s0 i laws ret]
  have "answers t (ry_front s) = answers t front @ map (stream_reply_msg t) (map (stream_reply_msg t') ms) @
      [exit_reply_msg G c t (exit_reply_msg G c' t' e)]" by auto
  then show ?thesis using d(1) complete_stream_asked [OF far laws far_ret d(1,2)]
    by (auto simp: o_def stream_reply_twice stream_end_reply [OF laws])
qed

text \<open>
  Nobody will take another message from the future: the goroutine has left, or it waits for
  a place in the channel that the loop has left.
\<close>

definition abandoned :: "'i relay_sys \<Rightarrow> bool" where
  "abandoned s \<longleftrightarrow>
     rl_done (ry_relay s) \<or>
     (sl_returned (ry_loop s) \<and>
      chan_cap (rl_writer (ry_relay s)) \<le> length (chan_buf (rl_writer (ry_relay s))) \<and>
      (\<exists>m. ry_held s = Some (Some m) \<and> (is_part m \<or> is_exit_msg m)))"

definition clogged :: "'i relay_sys \<Rightarrow> bool" where
  "clogged s \<longleftrightarrow>
     abandoned s \<and> pendingRPCs (ry_back s) (tag_of (rl_rc (ry_relay s))) = Some (rl_rc (ry_relay s)) \<and>
     \<not> future_empty (ry_back s) (rl_rc (ry_relay s))"

lemma abandoned_step:
  assumes "abandoned s" and "ry_step G cr c t s s'"
  shows "abandoned s'"
  using assms(2,1)
  by cases (auto simp: abandoned_def relay_pass_def is_part_def is_exit_msg_def chan_send_def split: if_splits)

lemma abandoned_no_take: "abandoned s \<Longrightarrow> rl_done (ry_relay s) \<or> ry_held s \<noteq> None"
  by (auto simp: abandoned_def)

lemma clogged_step:
  assumes cl: "clogged s" and fi: "future_inv s" and step: "ry_step G cr c t s s'"
  shows "clogged s'"
proof -
  let ?rc = "rl_rc (ry_relay s)"
  have ab: "abandoned s'" using cl abandoned_step [OF _ step] by (simp add: clogged_def)
  have p: "pendingRPCs (ry_back s) (tag_of ?rc) = Some ?rc" "\<not> future_empty (ry_back s) ?rc"
    using cl by (simp_all add: clogged_def)
  have i: "ctl_inv (ry_back s)" using fi by (rule future_invE)
  have "ry_back s' = ry_back s \<or> leaves_call ?rc (ry_back s) (ry_back s')"
    using step
  proof cases
    case (arrive m st)
    then have "\<not> routed_to ?rc m (ry_back s)" using arrive_routed(1) [OF i] p(2) by blast
    with arrive_elsewhere [OF i arrive(2)] arrive(1) show ?thesis by simp
  next
    case (run_ends tags e st)
    with run_ends_call(3) [OF i run_ends(2,3)] p show ?thesis by blast
  next
    case (take v st)
    with cl have False using abandoned_no_take [of s] by (simp add: clogged_def)
    then show ?thesis ..
  qed simp_all
  then show ?thesis
    using ab p by (auto simp: clogged_def leaves_call_def future_empty_def step_keeps_rc [OF step])
qed

lemma ry_reachable_clogged:
  assumes "ry_reachable G cr c t s s'" and "clogged s" and "future_inv s"
  shows "clogged s' \<and> future_inv s' \<and> rl_rc (ry_relay s') = rl_rc (ry_relay s)"
  using assms by induction (auto intro: clogged_step future_inv_step simp: step_keeps_rc)

text \<open>
  C12: a stream that is given up before its end stops its whole connection: when the
  goroutine no longer takes messages and one is left in the future, then, whatever happens
  later, the loop of \<open>Run\<close> of the spliced stream hangs for ever on the next message of that
  stream, with everything that comes after it, and even when the stream ends.
\<close>

theorem abandoned_relay_blocks_Run:
  assumes "ry_reachable G cr c t s0 s" and "relay_start G c req back front = Done s0"
    and "ctl_inv back" and "ctl_inv front" and "clogged s" and "ry_reachable G cr c t s s'"
    and "is_part m \<or> is_exit_msg m" and "Tag m = tag_of (rl_rc (ry_relay s))"
    and "set (order (ry_back s')) = dom (pendingRPCs (ry_back s'))"
  shows "run_loop G cr order ((Some m, None) # rs) (ry_back s') = RunBlocks \<and>
    run_loop G cr order ((x, Some e) # rs) (ry_back s') = RunBlocks"
proof -
  let ?b = "ry_back s'" and ?rc = "rl_rc (ry_relay s)"
  have "future_inv s" by (rule ry_reachable_future [OF assms(1) start_inv(1) [OF assms(3,4,2)]])
  from ry_reachable_clogged [OF assms(6,5) this]
  have fi: "future_inv s'" and p: "pendingRPCs ?b (tag_of ?rc) = Some ?rc" "\<not> future_empty ?b ?rc"
    by (auto simp: clogged_def)
  have i: "ctl_inv ?b" using fi by (rule future_invE)
  have "run_dispatch G cr m ?b = RunBlocks"
    using assms(7,8) p run_dispatch_response [OF i, of m] run_dispatch_stream_msg [OF i, of m]
    by (auto simp: is_part_def is_exit_msg_def)
  moreover have "cancel_pending G e' (order ?b) ?b = Blocks" for e'
    using cancel_pending_eq [OF i, of G e' "order ?b"] assms(9) p by auto
  ultimately show ?thesis by (simp add: Let_def)
qed

subsection \<open>A concrete stream\<close>

text \<open>One message and the end of a stream go from a back to a front whose streams accept everything.\<close>

definition started :: "ctx \<Rightarrow> invoker relay_sys" where
  "started c =
     \<lparr>ry_back = after_send (sample_request\<lparr>Metadata := FromMD (Some (outgoing_md std_lib (forward_ctx std_lib c))), Tag := 1\<rparr>)
        (with_call (echo_ctl [])),
      ry_relay = \<lparr>rl_writer = make_chan 1, rl_rc = 0, rl_done = False\<rparr>, ry_held = None, ry_loop = loop_init,
      ry_front = echo_ctl [], ry_arrived = [], ry_cancelled = False\<rparr>"

lemma relay_started: "relay_start std_lib c sample_request (echo_ctl []) (echo_ctl []) = Done (started c)"
  by (simp add: relay_start_def started_def Request_alt send_accepted with_call_def echo_ctl_def
      new_controller_def sample_stream_def)

lemma started_simps [simp]:
  "ry_relay (started c) = \<lparr>rl_writer = make_chan 1, rl_rc = 0, rl_done = False\<rparr>" "ry_held (started c) = None"
  "ry_loop (started c) = loop_init" "ry_front (started c) = echo_ctl []" "ry_arrived (started c) = []"
  "ry_cancelled (started c) = False" "pendingRPCs (ry_back (started c)) = [1 \<mapsto> 0]"
  "ctl_futures (ry_back (started c)) = [0 \<mapsto> make_chan 1]"
  by (simp_all add: started_def after_send_def with_call_def echo_ctl_def new_controller_def)

lemma started_inv: "ctl_inv (ry_back (started c))"
  using start_inv(1) [OF echo_ctl_inv echo_ctl_inv relay_started] by (rule future_invE)

text \<open>The steps of a message through the goroutine.\<close>

lemma part_arrives:
  assumes "ctl_inv (ry_back s)" and "pendingRPCs (ry_back s) (Tag m) = Some (rl_rc (ry_relay s))"
    and "future_empty (ry_back s) (rl_rc (ry_relay s))" and "is_part m"
  shows "ry_step G cr c t s (s\<lparr>ry_back := streamed (ry_back s) (rl_rc (ry_relay s)) m, ry_arrived := ry_arrived s @ [m]\<rparr>)"
proof -
  obtain x where "Content m = Some (RPC_ServerStreamMsg x)" using assms(4) by (auto simp: is_part_def)
  then have "run_dispatch G cr m (ry_back s) = RunContinue (streamed (ry_back s) (rl_rc (ry_relay s)) m)"
    using run_dispatch_stream_msg [OF assms(1)] assms(2,3) by simp
  from arrive [of G cr, OF this] assms(2,4) show ?thesis by (simp add: routed_to_def)
qed

lemma end_arrives:
  assumes "ctl_inv (ry_back s)" and "pendingRPCs (ry_back s) (Tag m) = Some (rl_rc (ry_relay s))"
    and "future_empty (ry_back s) (rl_rc (ry_relay s))" and "is_exit_msg m"
  shows "ry_step G cr c t s (s\<lparr>ry_back := answered (ry_back s) (rl_rc (ry_relay s)) m, ry_arrived := ry_arrived s @ [m]\<rparr>)"
proof -
  obtain x where "Content m = Some (RPC_Response x)" using assms(4) by (auto simp: is_exit_msg_def)
  then have "run_dispatch G cr m (ry_back s) = RunContinue (answered (ry_back s) (rl_rc (ry_relay s)) m)"
    using run_dispatch_response [OF assms(1)] assms(2,3) by simp
  from arrive [of G cr, OF this] assms(2,4) show ?thesis by (simp add: routed_to_def)
qed

lemma message_passes:
  assumes "\<not> rl_done (ry_relay s)" and "ry_held s = None"
    and "ctl_futures (ry_back s) (rl_rc (ry_relay s)) = Some \<lparr>chan_buf = [m], chan_cap = 1, chan_closed = b\<rparr>"
    and "rl_writer (ry_relay s) = make_chan 1" and "is_part m \<or> is_exit_msg m"
  shows "ry_reachable G cr c t s (s\<lparr>
    ry_back := (ry_back s)\<lparr>ctl_futures := (ctl_futures (ry_back s))(rl_rc (ry_relay s) \<mapsto>
      \<lparr>chan_buf = [], chan_cap = 1, chan_closed = b\<rparr>)\<rparr>,
    ry_relay := (ry_relay s)\<lparr>rl_writer := \<lparr>chan_buf = [m], chan_cap = 1, chan_closed = is_exit_msg m\<rparr>,
      rl_done := is_exit_msg m\<rparr>, ry_held := None\<rparr>)"
proof -
  let ?st = "(ry_back s)\<lparr>ctl_futures := (ctl_futures (ry_back s))(rl_rc (ry_relay s) \<mapsto>
      \<lparr>chan_buf = [], chan_cap = 1, chan_closed = b\<rparr>)\<rparr>"
  let ?s1 = "s\<lparr>ry_back := ?st, ry_held := Some (Some m)\<rparr>"
  have "recv_future (rl_rc (ry_relay s)) (ry_back s) = Done (Some m, ?st)"
    using assms(3) by (simp add: recv_future_def chan_recv_def)
  from take [of s, OF assms(1,2) this] have 1: "ry_reachable G cr c t s ?s1" by (rule ryr_step [OF ryr_start])
  have "relay_pass (Some m) (ry_relay ?s1) = Done ((ry_relay s)\<lparr>rl_writer := \<lparr>chan_buf = [m], chan_cap = 1,
      chan_closed = is_exit_msg m\<rparr>, rl_done := is_exit_msg m\<rparr>)"
    using assms(1,4,5) by (cases "ry_relay s")
      (auto simp: relay_pass_def is_part_def is_exit_msg_def chan_send_def chan_close_def make_chan_def)
  from pass [of ?s1, OF _ _ this] assms(1) have "ry_step G cr c t ?s1 (?s1\<lparr>ry_relay := (ry_relay s)\<lparr>
      rl_writer := \<lparr>chan_buf = [m], chan_cap = 1, chan_closed = is_exit_msg m\<rparr>, rl_done := is_exit_msg m\<rparr>,
      ry_held := None\<rparr>)" by simp
  from ryr_step [OF 1 this] show ?thesis by simp
qed

lemma ry_reachable_trans:
  assumes "ry_reachable G cr c t s1 s2" and "ry_reachable G cr c t s0 s1"
  shows "ry_reachable G cr c t s0 s2"
  using assms by induction (auto intro: ryr_step)

text \<open>Between two messages nothing is under way; \<open>b\<close> tells whether the goroutine has left.\<close>

definition between ::
  "'i StreamController \<Rightarrow> bool \<Rightarrow> stream_loop \<Rightarrow> 'i StreamController \<Rightarrow> RPC list \<Rightarrow> 'i relay_sys" where
  "between st b sl f a =
     \<lparr>ry_back = st, ry_relay = \<lparr>rl_writer = \<lparr>chan_buf = [], chan_cap = 1, chan_closed = b\<rparr>, rl_rc = 0, rl_done = b\<rparr>,
      ry_held = None, ry_loop = sl, ry_front = f, ry_arrived = a, ry_cancelled = False\<rparr>"

definition drained :: "bool \<Rightarrow> 'i StreamController \<Rightarrow> 'i StreamController" where
  "drained b st = st\<lparr>ctl_futures := (ctl_futures st)(0 \<mapsto> \<lparr>chan_buf = [], chan_cap = 1, chan_closed = b\<rparr>)\<rparr>"

lemma drained_simps [simp]:
  "pendingRPCs (drained b st) = pendingRPCs st" "future_empty (drained b st) 0"
  by (simp_all add: drained_def future_empty_def)

lemma run_part:
  assumes i: "ctl_inv st" "pendingRPCs st 1 = Some 0" "future_empty st 0"
    and m: "is_part m" "Tag m = 1" and f: "s_send (ctl_stream f) = (\<lambda>_ _. None)" and nr: "\<not> sl_returned sl"
  shows "ry_reachable G cr c t (between st False sl f a)
    (between (drained False (streamed st 0 m)) False sl (after_send (stream_reply_msg t m) f) (a @ [m]))"
proof -
  let ?s = "between st False sl f a"
  let ?s1 = "?s\<lparr>ry_back := streamed st 0 m, ry_arrived := a @ [m]\<rparr>"
  let ?s2 = "?s1\<lparr>ry_back := drained False (streamed st 0 m), ry_relay := \<lparr>rl_writer = \<lparr>chan_buf = [m], chan_cap = 1,
     chan_closed = False\<rparr>, rl_rc = 0, rl_done = False\<rparr>\<rparr>"
  have "ry_step G cr c t ?s ?s1"
    using part_arrives [of ?s m] i m by (simp add: between_def)
  then have 1: "ry_reachable G cr c t ?s ?s1" by (rule ryr_step [OF ryr_start])
  have "ry_reachable G cr c t ?s1 ?s2"
    using message_passes [of ?s1 m False G cr c t] m part_not_exit [OF m(1)]
    by (simp add: between_def streamed_def make_chan_def drained_def)
  from ry_reachable_trans [OF this 1] have 2: "ry_reachable G cr c t ?s ?s2" .
  have "ry_step G cr c t ?s2 (?s2\<lparr>ry_relay := (ry_relay ?s2)\<lparr>rl_writer := \<lparr>chan_buf = [], chan_cap = 1, chan_closed = False\<rparr>\<rparr>,
      ry_loop := sl, ry_front := after_send (stream_reply_msg t m) f\<rparr>)"
    by (rule loop_takes [where v = "Some m"])
      (use nr m(1) f in \<open>simp_all add: between_def chan_recv_def loop_recv_part send_accepted\<close>)
  from ryr_step [OF 2 this] show ?thesis by (simp add: between_def)
qed

lemma run_end:
  assumes i: "ctl_inv st" "pendingRPCs st 1 = Some 0" "future_empty st 0" and laws: "status_laws G"
    and m: "is_exit_msg m" "Tag m = 1" and f: "s_send (ctl_stream f) = (\<lambda>_ _. None)" and nr: "\<not> sl_returned sl"
  shows "ry_reachable G cr c t (between st False sl f a)
    (between (drained True (answered st 0 m)) True \<lparr>sl_exit = Some m, sl_returned = True\<rparr>
       (after_send (exit_reply_msg G c t m) f) (a @ [m]))"
proof -
  let ?s = "between st False sl f a" and ?closed = "\<lparr>chan_buf = [], chan_cap = 1, chan_closed = True\<rparr> :: RPC chan"
  let ?s1 = "?s\<lparr>ry_back := answered st 0 m, ry_arrived := a @ [m]\<rparr>"
  let ?s2 = "?s1\<lparr>ry_back := drained True (answered st 0 m), ry_relay := \<lparr>rl_writer = \<lparr>chan_buf = [m], chan_cap = 1,
     chan_closed = True\<rparr>, rl_rc = 0, rl_done = True\<rparr>\<rparr>"
  let ?s3 = "?s2\<lparr>ry_relay := (ry_relay ?s2)\<lparr>rl_writer := ?closed\<rparr>, ry_loop := sl\<lparr>sl_exit := Some m\<rparr>, ry_front := f\<rparr>"
  have "ry_step G cr c t ?s ?s1"
    using end_arrives [of ?s m] i m by (simp add: between_def)
  then have 1: "ry_reachable G cr c t ?s ?s1" by (rule ryr_step [OF ryr_start])
  have "ry_reachable G cr c t ?s1 ?s2"
    using message_passes [of ?s1 m True G cr c t] m
    by (simp add: between_def answered_def make_chan_def drained_def)
  from ry_reachable_trans [OF this 1] have 2: "ry_reachable G cr c t ?s ?s2" .
  have "ry_step G cr c t ?s2 ?s3"
    by (rule loop_takes [where v = "Some m"])
      (use nr m(1) in \<open>simp_all add: between_def chan_recv_def loop_recv_exit\<close>)
  with 2 have 3: "ry_reachable G cr c t ?s ?s3" by (rule ryr_step)
  have "ry_step G cr c t ?s3 (?s3\<lparr>ry_relay := (ry_relay ?s3)\<lparr>rl_writer := ?closed\<rparr>,
      ry_loop := (sl\<lparr>sl_exit := Some m\<rparr>)\<lparr>sl_returned := True\<rparr>, ry_front := after_send (exit_reply_msg G c t m) f\<rparr>)"
    by (rule loop_takes [where v = None])
      (use nr f laws in \<open>simp_all add: between_def chan_recv_def loop_recv_def exit_reply_eq send_accepted\<close>)
  from ryr_step [OF 3 this] show ?thesis by (cases sl) (simp add: between_def)
qed

lemma started_between: "started c = between (ry_back (started c)) False loop_init (echo_ctl []) []"
  by (simp add: started_def between_def make_chan_def)

lemma relay_run:
  assumes m: "is_part m" "Tag m = 1" and e: "is_exit_msg e" "Tag e = 1"
  shows "\<exists>s. ry_reachable std_lib cr c 3 (started c) s \<and> sl_returned (ry_loop s) \<and> ry_arrived s = [m, e]"
proof -
  let ?b = "drained False (streamed (ry_back (started c)) 0 m)"
  let ?f = "after_send (stream_reply_msg 3 m) (echo_ctl [])"
  have nr: "\<not> sl_returned loop_init" by (simp add: loop_init_def)
  have 1: "ry_reachable std_lib cr c 3 (started c) (between ?b False loop_init ?f [m])"
    using run_part [OF started_inv _ _ m _ nr, of c "echo_ctl []" std_lib cr c 3 "[]"]
    by (simp add: started_between [symmetric] future_empty_def)
  have "future_inv (between ?b False loop_init ?f [m])"
    by (rule ry_reachable_future [OF 1 start_inv(1) [OF echo_ctl_inv echo_ctl_inv relay_started]])
  then have "ctl_inv ?b" by (auto simp: between_def elim: future_invE)
  from ry_reachable_trans [OF run_end [OF this _ _ std_lib_laws(1) e _ nr, of ?f cr c 3 "[m]"] 1]
  show ?thesis by (auto simp: streamed_def between_def)
qed


theorem relayed_stream_complete_witness:
  "\<exists>s. ry_reachable std_lib bg_ctx bg_ctx 3 (started bg_ctx) s \<and> sl_returned (ry_loop s) \<and>
     answers 3 (ry_front s) =
       [stream_reply_msg 3 ((stream_msg [5] None)\<lparr>Tag := 1\<rparr>),
        exit_reply_msg std_lib bg_ctx 3 (response_msg 1 [] (Some \<lparr>st_code = OK, st_message = []\<rparr>) None)]"
proof -
  let ?m = "(stream_msg [5] None)\<lparr>Tag := 1\<rparr>"
  let ?e = "response_msg 1 [] (Some \<lparr>st_code = OK, st_message = []\<rparr>) None"
  have m: "is_part ?m" "Tag ?m = 1" by (simp_all add: is_part_def stream_msg_def)
  have e: "is_exit_msg ?e" "Tag ?e = 1" by (simp_all add: is_exit_msg_def response_msg_def)
  obtain s where s: "ry_reachable std_lib bg_ctx bg_ctx 3 (started bg_ctx) s" "sl_returned (ry_loop s)"
    "ry_arrived s = [?m, ?e]" using relay_run [OF m e] by blast
  have "ctx_err bg_ctx = None" by (simp add: bg_ctx_def)
  moreover have "answers 3 (echo_ctl []) = []"
    by (simp add: answers_def echo_ctl_def new_controller_def sample_stream_def)
  ultimately show ?thesis
    using relayed_stream_complete [OF s(1) relay_started echo_ctl_inv echo_ctl_inv std_lib_laws(1) s(2)] s
    by (auto simp: append_eq_Cons_conv)
qed

theorem relayed_stream_as_direct_witness:
  "\<exists>s d ms e x. ry_reachable std_lib bg_ctx bg_ctx 3 (started bg_ctx) s \<and> ss_reachable std_lib byte_codec bg_ctx 1
       (ss_init bg_ctx sample_request one_msg_prog (echo_ctl [])) d \<and>
     ss_written d = ms @ [e] \<and> ms = [stream_msg [5] None] \<and> stream_end std_lib x = stream_end std_lib e \<and>
     answers 3 (ry_front s) = map (stream_reply_msg 3) ms @ [x]"
proof -
  obtain d where d: "ss_reachable std_lib byte_codec bg_ctx 1
       (ss_init bg_ctx sample_request one_msg_prog (echo_ctl [])) d" "sl_returned (ss_loop d)"
    "ss_written d = [stream_msg [5] None, exit_response std_lib None None]"
    using one_msg_run [of 1] by blast
  have c: "ctx_err bg_ctx = None" by (simp add: bg_ctx_def)
  have no: "s_attempts (ctl_stream (echo_ctl [])) = []" "answers 3 (echo_ctl []) = []"
    by (simp_all add: answers_def echo_ctl_def new_controller_def sample_stream_def)
  let ?m = "stream_reply_msg 1 (stream_msg [5] None)"
  let ?e = "exit_reply_msg std_lib bg_ctx 1 (exit_response std_lib None None)"
  have sent: "s_attempts (ctl_stream (ss_ctl d)) = [?m, ?e]"
    using complete_stream_sent [OF d(1) echo_ctl_inv std_lib_laws(1) d(2) c] d(3) no by auto
  obtain s where s: "ry_reachable std_lib bg_ctx bg_ctx 3 (started bg_ctx) s" "sl_returned (ry_loop s)"
    "ry_arrived s = [?m, ?e]" using relay_run [of ?m ?e] by auto
  have "s_attempts (ctl_stream (ss_ctl d)) = s_attempts (ctl_stream (echo_ctl [])) @ ry_arrived s"
    using sent no s(3) by simp
  from relayed_stream_as_direct [OF s(1) relay_started echo_ctl_inv echo_ctl_inv std_lib_laws(1) s(2) c
      d(1) echo_ctl_inv d(2) c this] no
  obtain ms e x where "ss_written d = ms @ [e]" "stream_end std_lib x = stream_end std_lib e"
    "answers 3 (ry_front s) = map (stream_reply_msg 3) ms @ [x]" by auto
  moreover from this(1) d(3) have "ms = [stream_msg [5] None]" by auto
  ultimately show ?thesis using s(1) d(1) by blast
qed

theorem abandoned_relay_blocks_Run_witness:
  "\<exists>s. ry_reachable std_lib bg_ctx done_ctx 3 (started done_ctx) s \<and> clogged s \<and>
     run_loop std_lib bg_ctx (\<lambda>_. [1]) [(Some ((stream_msg [6] None)\<lparr>Tag := 1\<rparr>), None)] (ry_back s) = RunBlocks"
proof -
  let ?s0 = "started done_ctx" and ?m = "(stream_msg [5] None)\<lparr>Tag := 1\<rparr>" and ?n = "(stream_msg [6] None)\<lparr>Tag := 1\<rparr>"
  let ?r = "\<lparr>rl_writer = \<lparr>chan_buf = [], chan_cap = 1, chan_closed = True\<rparr>, rl_rc = 0, rl_done = True\<rparr>"
  let ?s1 = "?s0\<lparr>ry_relay := ?r, ry_cancelled := True\<rparr>"
  let ?s2 = "?s1\<lparr>ry_back := streamed (ry_back ?s0) 0 ?m, ry_arrived := [?m]\<rparr>"
  have m: "is_part ?m" "is_part ?n" by (simp_all add: is_part_def stream_msg_def)
  have "ry_step std_lib bg_ctx done_ctx 3 ?s0 ?s1"
    by (rule give_up) (simp_all add: done_ctx_def relay_cancel_def chan_close_def make_chan_def)
  then have 1: "ry_reachable std_lib bg_ctx done_ctx 3 ?s0 ?s1" by (rule ryr_step [OF ryr_start])
  have "ry_step std_lib bg_ctx done_ctx 3 ?s1 ?s2"
    using part_arrives [of ?s1 ?m] started_inv m(1) by (simp add: future_empty_def)
  with 1 have 2: "ry_reachable std_lib bg_ctx done_ctx 3 ?s0 ?s2" by (rule ryr_step)
  have "clogged ?s2"
    by (simp add: clogged_def abandoned_def streamed_def future_empty_def tag_of_def)
  moreover from abandoned_relay_blocks_Run [OF 2 relay_started echo_ctl_inv echo_ctl_inv this ryr_start,
      where m = ?n and order = "\<lambda>_. [1]" and rs = "[]"] m(2)
  have "run_loop std_lib bg_ctx (\<lambda>_. [1]) [(Some ?n, None)] (ry_back ?s2) = RunBlocks"
    by (simp add: streamed_def tag_of_def)
  ultimately show ?thesis using 2 by blast
qed

end
