(* ===== verification/Lifecycle.thy ===== *)
theory Lifecycle
  imports Client_Conn Peers
begin

text \<open>
  The life of a controller: the loop of \<open>Run\<close>, its end, and what callers and workers do
  before and after it. \<open>Run\<close> is called once, so nothing is received after it has ended,
  but the controller stays usable: \<open>Request\<close> does not look whether \<open>Run\<close> has returned.

  The cancellation of the pending calls is one step. A call that is made while
  \<open>pendingRPCs.Range\<close> iterates is visited or not: it counts as made before or after the end.
\<close>

subsection \<open>The steps\<close>

text \<open>What goroutines other than the loop do with a controller.\<close>

inductive caller_step :: "lib \<Rightarrow> 'i StreamController \<Rightarrow> 'i StreamController \<Rightarrow> bool" for G where
  request: "Request G c m st = Done (ch, m', st') \<Longrightarrow> Suc (ctl_nfut st) < 2 ^ 64 \<Longrightarrow> caller_step G st st'"
| await: "recv_future ch st = Done (v, st') \<Longrightarrow> caller_step G st st'"
| reply: "Reply G c tag data st = Done st' \<Longrightarrow> caller_step G st st'"
| reply_error: "ReplyErr G c tag e st = Done st' \<Longrightarrow> caller_step G st st'"
| stream_reply: "StreamReply tag msg st = Done st' \<Longrightarrow> caller_step G st st'"
| task_done: "caller_step G st (without_task tk st)"
| register: "RegisterServiceHandler h st = Done st' \<Longrightarrow> caller_step G st st'"

text \<open>
  Where \<open>Run\<close> is: it runs, it has ended and cancelled what was pending, or it returned for a
  message without content. The number is that of the calls made until then.
\<close>

datatype run_phase = Running | Ended nat | Aborted nat

inductive life_step ::
  "lib \<Rightarrow> run_phase \<times> 'i StreamController \<Rightarrow> run_phase \<times> 'i StreamController \<Rightarrow> bool" for G where
  caller: "caller_step G st st' \<Longrightarrow> life_step G (ph, st) (ph, st')"
| receive: "run_dispatch G c m st = RunContinue st' \<Longrightarrow> life_step G (Running, st) (Running, st')"
| abort: "run_dispatch G c m st = RunReturns e st' \<Longrightarrow> life_step G (Running, st) (Aborted (ctl_nfut st'), st')"
| finish: "set order = dom (pendingRPCs st) \<Longrightarrow> cancel_pending G e order st = Done st' \<Longrightarrow>
    life_step G (Running, st) (Ended (ctl_nfut st'), st')"

inductive life_reachable :: "lib \<Rightarrow> run_phase \<Rightarrow> 'i StreamController \<Rightarrow> bool" for G where
  start: "ctl_inv st \<Longrightarrow> ctl_nfut st = 0 \<Longrightarrow> life_reachable G Running st"
| step: "life_reachable G ph st \<Longrightarrow> life_step G (ph, st) (ph', st') \<Longrightarrow> life_reachable G ph' st'"

subsection \<open>Futures over the life of a controller\<close>

definition future_closed :: "'i StreamController \<Rightarrow> nat \<Rightarrow> bool" where
  "future_closed st ch \<longleftrightarrow> (\<exists>c. ctl_futures st ch = Some c \<and> chan_closed c)"

text \<open>A future that is not pending was closed.\<close>

definition settled :: "'i StreamController \<Rightarrow> bool" where
  "settled st \<longleftrightarrow> (\<forall>ch < ctl_nfut st. pendingRPCs st (tag_of ch) = Some ch \<or> future_closed st ch)"

definition fresh_from :: "nat \<Rightarrow> 'i StreamController \<Rightarrow> bool" where
  "fresh_from n st \<longleftrightarrow> (\<forall>ch. n \<le> ch \<longrightarrow> ch < ctl_nfut st \<longrightarrow> ctl_futures st ch = Some (make_chan 1))"

definition life_inv :: "run_phase \<Rightarrow> 'i StreamController \<Rightarrow> bool" where
  "life_inv ph st \<longleftrightarrow>
     ctl_inv st \<and> ctl_nfut st < 2 ^ 64 \<and>
     (case ph of
        Running \<Rightarrow> settled st
      | Ended n \<Rightarrow> n \<le> ctl_nfut st \<and> (\<forall>ch < n. future_closed st ch) \<and> fresh_from n st
      | Aborted n \<Rightarrow> n \<le> ctl_nfut st \<and> fresh_from n st)"

text \<open>What a step of a caller does to the futures and to the table of pending calls.\<close>

definition futures_kept :: "'i StreamController \<Rightarrow> 'i StreamController \<Rightarrow> bool" where
  "futures_kept st st' \<longleftrightarrow>
     ctl_nfut st \<le> ctl_nfut st' \<and>
     (\<forall>ch < ctl_nfut st. (future_closed st ch \<longrightarrow> future_closed st' ch) \<and>
        (ctl_futures st ch = Some (make_chan 1) \<longrightarrow> ctl_futures st' ch = Some (make_chan 1)) \<and>
        (pendingRPCs st (tag_of ch) = Some ch \<longrightarrow> pendingRPCs st' (tag_of ch) = Some ch)) \<and>
     (\<forall>ch. ctl_nfut st \<le> ch \<longrightarrow> ch < ctl_nfut st' \<longrightarrow>
        ctl_futures st' ch = Some (make_chan 1) \<and> pendingRPCs st' (tag_of ch) = Some ch)"

lemma futures_kept_same:
  "ctl_nfut st' = ctl_nfut st \<Longrightarrow> ctl_futures st' = ctl_futures st \<Longrightarrow> pendingRPCs st' = pendingRPCs st \<Longrightarrow>
   futures_kept st st'"
  by (simp add: futures_kept_def future_closed_def)

lemma futures_kept_sent:
  assumes "ctl_inv st" and "send_or_kick m st = Done st'"
  shows "ctl_inv st'" and "futures_kept st st'" and "ctl_nfut st' = ctl_nfut st"
  using sent [OF assms] by (simp_all add: futures_kept_same)

lemma futures_kept_request:
  assumes i: "ctl_inv st" and r: "Request G c m st = Done (ch, m', st')" and b: "Suc (ctl_nfut st) < 2 ^ 64"
  shows "ctl_inv st'" and "futures_kept st st'" and "ctl_nfut st' = Suc (ctl_nfut st)"
proof -
  have s: "send_or_kick m' (with_call st) = Done st'" using r by (auto simp: Request_alt)
  note n = sent [OF ctl_inv_with_call [OF i] s]
  have t: "ctl_count st + 1 = tag_of (ctl_nfut st)" using i by (simp add: tag_of_def ctl_inv_def futures_ok_def)
  have "tag_of k \<noteq> tag_of (ctl_nfut st)" if "k < ctl_nfut st" for k
    using tag_of_inj [OF less_SucI [OF that] lessI b] that by auto
  then show "futures_kept st st'"
    using n(2,3,4) t by (auto simp: futures_kept_def with_call_def future_closed_def less_Suc_eq)
  show "ctl_inv st'" by (rule n(1))
  show "ctl_nfut st' = Suc (ctl_nfut st)" using n(2) by (simp add: with_call_def)
qed

lemma futures_kept_await:
  assumes i: "ctl_inv st" and r: "recv_future ch st = Done (v, st')"
  shows "ctl_inv st'" and "futures_kept st st'" and "ctl_nfut st' = ctl_nfut st"
proof -
  obtain c c' where c: "ctl_futures st ch = Some c" "chan_recv c = Done (v, c')" "st' = st\<lparr>ctl_futures := (ctl_futures st)(ch \<mapsto> c')\<rparr>"
    using r by (auto simp: recv_future_def split: option.splits)
  have "chan_closed c' = chan_closed c" "c \<noteq> make_chan 1"
    using c(2) by (auto simp: chan_recv_def make_chan_def split: list.splits if_splits)
  then show "futures_kept st st'" using c(1,3) by (auto simp: futures_kept_def future_closed_def)
  show "ctl_inv st'" by (rule ctl_inv_recv_future [OF i r])
  show "ctl_nfut st' = ctl_nfut st" by (simp add: c(3))
qed

lemma caller_step_keeps:
  assumes "ctl_inv st" and "ctl_nfut st < 2 ^ 64" and "caller_step G st st'"
  shows "ctl_inv st' \<and> futures_kept st st' \<and> ctl_nfut st' < 2 ^ 64"
  using assms(3)
proof cases
  case (request c m ch m')
  with futures_kept_request [OF assms(1) request] show ?thesis by simp
next
  case (await ch v)
  with futures_kept_await [OF assms(1) await] assms(2) show ?thesis by simp
next
  case (register h)
  then obtain s where "st' = st\<lparr>ctl_services := s\<rparr>" by (auto simp: RegisterServiceHandler_def Let_def)
  with assms(1,2) show ?thesis by (simp add: futures_kept_same ctl_inv_def futures_ok_def pending_ok_def)
next
  case (task_done tk)
  with assms(1,2) show ?thesis by (simp add: futures_kept_same without_task_def ctl_inv_pool)
qed (use assms(2) futures_kept_sent [OF assms(1)] in \<open>auto simp: Reply_def ReplyErr_def StreamReply_def\<close>)

lemma run_of_Returns [simp]: "run_of r \<noteq> RunReturns e st"
  by (cases r) auto

lemma settled_dispatch:
  assumes i: "ctl_inv st" and b: "ctl_nfut st < 2 ^ 64" and s: "settled st" and r: "run_dispatch G c m st = RunContinue st'"
  shows "settled st'"
proof -
  have inj: "k = ch" if "k < ctl_nfut st" "pendingRPCs st (Tag m) = Some ch" "tag_of k = Tag m" for k ch
    using tag_of_inj [OF that(1) _ b, of ch] pending_address [OF i that(2)] pending_future [OF i that(2)] that(3) by metis
  consider rq where "Content m = Some (RPC_Request rq)" | rsp where "Content m = Some (RPC_Response rsp)"
    | sm where "Content m = Some (RPC_ServerStreamMsg sm)"
    using r by (auto simp: run_dispatch_def split: option.splits RPC_Content.splits)
  then show ?thesis
  proof cases
    case 1
    then show ?thesis using r s by (auto simp: run_dispatch_def settled_def future_closed_def)
  next
    case 2
    then obtain ch where ch: "pendingRPCs st (Tag m) = Some ch" "st' = answered st ch m"
      using r run_dispatch_response [OF i] by (auto split: option.splits if_splits)
    moreover have "tag_of ch = Tag m" using pending_future [OF i ch(1)] by metis
    ultimately show ?thesis using s inj by (auto simp: settled_def future_closed_def answered_def)
  next
    case 3
    then obtain ch where ch: "pendingRPCs st (Tag m) = Some ch" "st' = streamed st ch m"
      using r run_dispatch_stream_msg [OF i] by (auto split: option.splits if_splits)
    moreover have "tag_of ch = Tag m" using pending_future [OF i ch(1)] by metis
    ultimately show ?thesis using s by (auto simp: settled_def future_closed_def streamed_def)
  qed
qed

text \<open>The end of the loop closes every future that is not closed yet.\<close>

lemma settled_cancelled:
  assumes "settled st" and "set order = dom (pendingRPCs st)"
  shows "\<forall>ch < ctl_nfut st. future_closed (cancelled G e order st) ch"
  using assms by (force simp: settled_def future_closed_def cancelled_def domIff)

lemma life_inv_caller:
  assumes l: "life_inv ph st" and s: "caller_step G st st'"
  shows "life_inv ph st'"
proof -
  have k: "ctl_inv st'" "ctl_nfut st' < 2 ^ 64" "ctl_nfut st \<le> ctl_nfut st'"
    and old: "\<And>ch. ch < ctl_nfut st \<Longrightarrow> (future_closed st ch \<longrightarrow> future_closed st' ch) \<and>
      (ctl_futures st ch = Some (make_chan 1) \<longrightarrow> ctl_futures st' ch = Some (make_chan 1)) \<and>
      (pendingRPCs st (tag_of ch) = Some ch \<longrightarrow> pendingRPCs st' (tag_of ch) = Some ch)"
    and new: "\<And>ch. ctl_nfut st \<le> ch \<Longrightarrow> ch < ctl_nfut st' \<Longrightarrow>
      ctl_futures st' ch = Some (make_chan 1) \<and> pendingRPCs st' (tag_of ch) = Some ch"
    using caller_step_keeps [OF _ _ s] l by (auto simp: life_inv_def futures_kept_def)
  have f: "fresh_from n st'" if "fresh_from n st" for n
    using that old new unfolding fresh_from_def by (metis not_le)
  have "settled st'" if "settled st" using that old new unfolding settled_def by (metis not_le)
  then show ?thesis
    using l k f old by (auto simp: life_inv_def split: run_phase.splits)
qed

lemma life_inv_step:
  assumes l: "life_inv ph st" and "life_step G (ph, st) (ph', st')"
  shows "life_inv ph' st'"
  using assms(2)
proof cases
  case caller
  then show ?thesis using life_inv_caller l by blast
next
  case (receive c m)
  then have "ctl_nfut st' = ctl_nfut st" using run_dispatch_same [OF receive(3)] by blast
  with receive l settled_dispatch [OF _ _ _ receive(3)] ctl_inv_run_dispatch [OF _ receive(3)] show ?thesis
    by (simp add: life_inv_def)
next
  case (abort c m e)
  then have "st' = st" by (auto simp: run_dispatch_def split: option.splits RPC_Content.splits)
  with abort l show ?thesis by (simp add: life_inv_def fresh_from_def)
next
  case (finish order e)
  have i: "ctl_inv st" using l by (simp add: life_inv_def)
  have st': "st' = cancelled G e order st" using finish(4) cancel_pending_eq [OF i] by (auto split: if_splits)
  then have "ctl_nfut st' = ctl_nfut st" by (simp add: cancelled_def)
  moreover have "ctl_inv st'" unfolding st' by (rule ctl_inv_cancelled [OF i])
  moreover have "settled st" using l finish(1) by (simp add: life_inv_def)
  ultimately show ?thesis
    using l finish settled_cancelled [OF _ finish(3)] st' by (simp add: life_inv_def fresh_from_def)
qed

lemma life_inv_reachable: "life_reachable G ph st \<Longrightarrow> life_inv ph st"
proof (induction rule: life_reachable.induct)
  case (start st)
  then show ?case by (simp add: life_inv_def settled_def)
next
  case (step ph st ph' st')
  then show ?case by (blast intro: life_inv_step)
qed

lemma closed_ready: "future_closed st ch \<Longrightarrow> \<exists>v st'. recv_future ch st = Done (v, st')"
  by (auto simp: future_closed_def recv_future_def chan_recv_def split: list.split)

lemma fresh_blocks: "ctl_futures st ch = Some (make_chan 1) \<Longrightarrow> recv_future ch st = Blocks"
  by (simp add: recv_future_def chan_recv_def make_chan_def)

lemma fresh_stays:
  assumes "(caller_step G)\<^sup>*\<^sup>* st st'" and "ctl_inv st" and "ctl_nfut st < 2 ^ 64" and "ch < ctl_nfut st"
    and "ctl_futures st ch = Some (make_chan 1)"
  shows "ctl_inv st' \<and> ctl_nfut st' < 2 ^ 64 \<and> ch < ctl_nfut st' \<and> ctl_futures st' ch = Some (make_chan 1)"
  using assms
proof (induction rule: rtranclp_induct)
  case (step y z)
  then have y: "ctl_inv y" "ctl_nfut y < 2 ^ 64" "ch < ctl_nfut y" "ctl_futures y ch = Some (make_chan 1)" by blast+
  with caller_step_keeps [OF y(1,2) step.hyps(2)] show ?case by (auto simp: futures_kept_def)
qed simp

subsection \<open>What callers can rely on\<close>

text \<open>
  C20: When \<open>Run\<close> has ended, by an error or the end of the stream, whatever callers and
  workers do before and after, the calls that were made before its end return: their futures
  are closed, answered or cancelled, and reading them never blocks. The calls that were made
  after its end wait for ever: their futures are empty and open.
\<close>

theorem calls_around_end:
  assumes "life_reachable G (Ended n) st"
  shows "\<forall>ch < ctl_nfut st. if ch < n then \<exists>v st'. recv_future ch st = Done (v, st') else recv_future ch st = Blocks"
proof -
  have "\<forall>ch < n. future_closed st ch" "\<forall>ch. n \<le> ch \<longrightarrow> ch < ctl_nfut st \<longrightarrow> ctl_futures st ch = Some (make_chan 1)"
    using life_inv_reachable [OF assms] by (simp_all add: life_inv_def fresh_from_def)
  then show ?thesis by (simp add: closed_ready fresh_blocks)
qed

text \<open>
  C25: \<open>ClientConn.invoke\<close> after \<open>Run\<close> has returned never returns, unless its context ends:
  \<open>Request\<close> registers the call and ignores an \<open>io.EOF\<close> of the stream, and nobody is left to
  answer or cancel it, whatever the other goroutines do with the controller.
\<close>

theorem call_after_end_waits:
  assumes "CHR ''/'' \<notin> set svc" and "CHR ''/'' \<notin> set m" and "Marshal (e_codec E) (AnyV2 x) = (Some b, None)"
    and "w_ctls w (cc_controller cc) = Some st" and "life_reachable (e_lib E) ph st" and "ph \<noteq> Running"
    and "Suc (ctl_nfut st) < 2 ^ 64" and "ctx_err c = None"
    and env: "\<And>w1 st1. w_ctls w1 (cc_controller cc) = Some st1 \<Longrightarrow>
      \<exists>st2. w_ctls (e_env E w1) (cc_controller cc) = Some st2 \<and> (caller_step (e_lib E))\<^sup>*\<^sup>* st1 st2"
  shows "cc_invoke E cc c (slashName svc m) (AnyV2 x) reply opts w = Blocks"
proof -
  have i: "ctl_inv st" using life_inv_reachable [OF assms(5)] by (simp add: life_inv_def)
  obtain p where p: "prepare_call (e_lib E) (e_codec E) c (slashName svc m) (AnyV2 x) reply = Done (Inr p)"
    "pr_serviceName p = svc" "pr_methodName p = m" "pr_reqMsg p = b"
    using prepare_message [OF assms(1-3)] by blast
  obtain st1 where st1: "send_or_kick (call_request (e_lib E) c (ctl_count st + 1) svc m b) (with_call st) = Done st1"
    using ctl_inv_send_or_kick [OF ctl_inv_with_call [OF i]] by blast
  obtain w1 where s: "send_call (e_lib E) cc c p w = Done (ctl_nfut st, w1)"
    "w_ctls w1 = (w_ctls w)(cc_controller cc \<mapsto> st1)"
    using send_call_request [OF assms(4) i, of "e_lib E" c p] p(2-4) st1 by auto
  note n = sent [OF ctl_inv_with_call [OF i] st1]
  have 1: "ctl_inv st1" "ctl_nfut st1 < 2 ^ 64" "ctl_nfut st < ctl_nfut st1" "ctl_futures st1 (ctl_nfut st) = Some (make_chan 1)"
    using n(1,2,4) assms(7) by (simp_all add: with_call_def)
  have "w_ctls w1 (cc_controller cc) = Some st1" using s(2) by simp
  from env [OF this] obtain st2 where st2: "w_ctls (e_env E w1) (cc_controller cc) = Some st2" "(caller_step (e_lib E))\<^sup>*\<^sup>* st1 st2" by blast
  have "recv_future (ctl_nfut st) st2 = Blocks" using fresh_blocks fresh_stays [OF st2(2) 1] by blast
  then have "on_ctl (cc_controller cc) (recv_future (ctl_nfut st)) (e_env E w1) = Blocks" using st2(1) by (simp add: on_ctl_def)
  with p(1) s(1) assms(8) show ?thesis by (simp add: cc_invoke_def await_reply_def)
qed

subsection \<open>A concrete run\<close>

text \<open>A call, the end of the stream, and a second call.\<close>

definition ended_ctl :: "invoker StreamController" where
  "ended_ctl = cancelled std_lib None [1] caller"

lemma ended_reachable: "life_reachable std_lib (Ended 1) ended_ctl"
proof -
  have n: "ctl_nfut (idle_ctl :: invoker StreamController) = 0" "ctl_nfut caller = 1" "ctl_nfut ended_ctl = 1"
    by (simp_all add: link_run_defs ended_ctl_def cancelled_def)
  have "life_reachable std_lib Running caller"
    by (rule life_reachable.step [OF life_reachable.start [OF idle_ctl_inv n(1)]
      life_step.caller [OF caller_step.request [OF call_made]]]) (simp add: n)
  moreover have "life_step std_lib (Running, caller) (Ended (ctl_nfut ended_ctl), ended_ctl)"
  proof (rule life_step.finish)
    show d: "set [1] = dom (pendingRPCs caller)" by (simp add: link_run_defs)
    have "ctl_inv caller" using life_inv_reachable [OF calculation] by (simp add: life_inv_def)
    moreover have "future_empty caller 0" by (simp add: link_run_defs future_empty_def make_chan_def)
    moreover have "pendingRPCs caller = [1 \<mapsto> 0]" by (simp add: link_run_defs)
    ultimately show "cancel_pending std_lib None [1] caller = Done ended_ctl"
      using cancel_pending_eq [of caller std_lib None "[1]"] by (simp add: ended_ctl_def del: cancel_pending.simps)
  qed
  ultimately show ?thesis using life_reachable.step n(3) by metis
qed

theorem calls_around_end_witness:
  "life_reachable std_lib (Ended 1) ended_ctl \<and> (\<exists>v st'. recv_future 0 ended_ctl = Done (v, st'))"
proof -
  have "ctl_nfut ended_ctl = 1" by (simp add: link_run_defs ended_ctl_def cancelled_def)
  with calls_around_end [OF ended_reachable] ended_reachable show ?thesis by simp
qed

definition ended_world :: "unit world" where
  "ended_world = \<lparr>w_ctls = [0 \<mapsto> ended_ctl], w_known = [], w_alloc = 100, w_meter = empty_meter, w_user = ()\<rparr>"

theorem call_after_end_waits_witness:
  "cc_invoke echo_env \<lparr>cc_controller = 0, cc_interceptor = None, cc_metrics = None\<rparr> bg_ctx ''/svc/M'' (AnyV2 [7]) (AnyV2 []) []
     ended_world = Blocks"
proof -
  let ?cc = "\<lparr>cc_controller = 0, cc_interceptor = None, cc_metrics = None\<rparr>"
  have lib: "e_lib echo_env = std_lib" by (simp add: echo_env_def)
  have "cc_invoke echo_env ?cc bg_ctx (slashName ''svc'' ''M'') (AnyV2 [7]) (AnyV2 []) [] ended_world = Blocks"
  proof (rule call_after_end_waits)
    show "w_ctls ended_world (cc_controller ?cc) = Some ended_ctl" by (simp add: ended_world_def)
    show "life_reachable (e_lib echo_env) (Ended 1) ended_ctl" using ended_reachable by (simp add: lib)
    show "Suc (ctl_nfut ended_ctl) < 2 ^ 64" by (simp add: link_run_defs ended_ctl_def cancelled_def)
    show "Marshal (e_codec echo_env) (AnyV2 [7]) = (Some [7], None)" by (simp add: echo_env_def byte_codec_def)
    show "ctx_err bg_ctx = None" by (simp add: bg_ctx_def)
  qed (auto simp: echo_env_def)
  then show ?thesis by (simp add: slashName_def)
qed

end
