(* ===== verification/Example.thy ===== *)
theory Example
  imports Splicing
begin

text \<open>
  examples/simple: the service \<open>Hello\<close> and the two ends of a stream that both serve it over
  totem and call it on the other end. The in-memory listener and the gRPC server that carry
  the stream are not part of the repository: the stream is an argument. What is printed is
  returned.

  The generated code of the service (example_grpc.pb.go) is the glue between the service and
  the library: the handler that decodes the request, the description of the service and the
  client. The encoding of its two messages is the parameter \<open>codec\<close>.
\<close>

subsection \<open>The messages and the service\<close>

datatype hello_msg = HelloRequest string | HelloResponse string

fun GetName :: "hello_msg \<Rightarrow> string" where
  "GetName (HelloRequest n) = n"
| "GetName (HelloResponse _) = []"

fun GetMessage :: "hello_msg any_msg \<Rightarrow> string" where
  "GetMessage (AnyV2 (HelloResponse m)) = m"
| "GetMessage _ = []"

definition helloServer_Hello :: "ctx \<Rightarrow> hello_msg \<Rightarrow> go_error + hello_msg" where
  "helloServer_Hello c req = Inr (HelloResponse (''Hello, '' @ GetName req))"

text \<open>\<open>_Hello_Hello_Handler\<close>; \<open>ics\<close> gives the interceptor at an address.\<close>

definition Hello_Handler ::
  "(nat \<Rightarrow> ctx \<Rightarrow> hello_msg \<Rightarrow> (ctx \<Rightarrow> hello_msg \<Rightarrow> go_error + hello_msg) \<Rightarrow> 'x world \<Rightarrow>
     ((go_error + hello_msg any_msg) \<times> 'x world) outcome) \<Rightarrow> (hello_msg, 'x) handlers" where
  "Hello_Handler ics h srv c dec interceptor w =
     (case dec (HelloRequest []) w of
        (Inl err, w1) \<Rightarrow> Done (Inl err, w1)
      | (Inr req, w1) \<Rightarrow>
          (case interceptor of
             None \<Rightarrow> Done (map_sum id AnyV2 (helloServer_Hello c req), w1)
           | Some i \<Rightarrow> ics i c req helloServer_Hello w1))"

definition Hello_ServiceDesc :: ServiceDesc where
  "Hello_ServiceDesc = \<lparr>svc_ServiceName = ''simple.Hello'',
     svc_Methods = [\<lparr>mdesc_Name = ''Hello'', mdesc_Handler = 0\<rparr>], svc_Streams = []\<rparr>"

text \<open>The service is an address, which is never nil, of a type that has the methods of the service.\<close>

definition RegisterHelloServer :: "lib \<Rightarrow> loader \<Rightarrow> Server \<Rightarrow> nat \<Rightarrow> 'x world \<Rightarrow> 'x world outcome" where
  "RegisterHelloServer G load s srv w = RegisterService G load s Hello_ServiceDesc (Some srv) True w"

text \<open>The client holds the connection that \<open>Serve\<close> returned, which is nil when it failed.\<close>

type_synonym 'x client_interceptors =
  "nat \<Rightarrow> ctx \<Rightarrow> string \<Rightarrow> hello_msg any_msg \<Rightarrow> hello_msg any_msg \<Rightarrow>
   (ctx \<Rightarrow> string \<Rightarrow> hello_msg any_msg \<Rightarrow> hello_msg any_msg \<Rightarrow> call_option list \<Rightarrow> 'x world \<Rightarrow>
     (hello_msg call_result \<times> 'x world) outcome) \<Rightarrow>
   call_option list \<Rightarrow> 'x world \<Rightarrow> (hello_msg call_result \<times> 'x world) outcome"

definition helloClient_Hello ::
  "(hello_msg, 'x) env \<Rightarrow> 'x client_interceptors \<Rightarrow> ClientConn option \<Rightarrow> ctx \<Rightarrow> hello_msg \<Rightarrow> call_option list \<Rightarrow>
   'x world \<Rightarrow> ((go_error + hello_msg any_msg) \<times> 'x world) outcome" where
  "helloClient_Hello E ics cc c req opts w =
     (case cc of
        None \<Rightarrow> Panics ''nil pointer dereference''
      | Some conn \<Rightarrow>
          obind (cc_Invoke E ics conn c ''/simple.Hello/Hello'' (AnyV2 req) (AnyV2 (HelloResponse [])) opts w)
            (\<lambda>((err, out, _), w1). Done (case err of Some e \<Rightarrow> Inl e | None \<Rightarrow> Inr out, w1)))"

subsection \<open>The two ends\<close>

text \<open>
  \<open>exampleServer.Stream\<close>. \<open>bg\<close> is \<open>context.Background()\<close>; while \<open>Serve\<close> and the call wait,
  the other goroutines do \<open>e_env E\<close>.
\<close>

definition exampleServer_Stream ::
  "(hello_msg, 'x) env \<Rightarrow> 'x client_interceptors \<Rightarrow> disc \<Rightarrow> loader \<Rightarrow> (nat \<Rightarrow> (go_error + RPC) list) \<Rightarrow> ctx \<Rightarrow>
   stream \<Rightarrow> string \<Rightarrow> ctx \<Rightarrow> nat \<Rightarrow> 'x world \<Rightarrow> ((go_error option \<times> string list) \<times> 'x world) outcome" where
  "exampleServer_Stream E ics D load rs bg stream uuid setup srv w =
     obind (NewServer (e_lib E) load stream [] uuid setup w) (\<lambda>(totemServer, w1).
     obind (RegisterHelloServer (e_lib E) load totemServer srv w1) (\<lambda>w2.
     obind (Serve (e_lib E) D (e_env E) rs totemServer w2) (\<lambda>((clientConn, errC), _, w3).
     obind (helloClient_Hello E ics clientConn bg (HelloRequest ''server'') [] w3) (\<lambda>(r, w4).
       case r of
         Inl err \<Rightarrow> Done ((Some err, []), w4)
       | Inr resp \<Rightarrow> Done ((None, [''Client responded: '' @ GetMessage resp]), w4)))))"

text \<open>
  \<open>main\<close> from the stream it got: the error of the call is dropped, and the message of a nil
  response is empty.
\<close>

definition example_main ::
  "(hello_msg, 'x) env \<Rightarrow> 'x client_interceptors \<Rightarrow> disc \<Rightarrow> loader \<Rightarrow> (nat \<Rightarrow> (go_error + RPC) list) \<Rightarrow> ctx \<Rightarrow>
   stream \<Rightarrow> string \<Rightarrow> ctx \<Rightarrow> nat \<Rightarrow> 'x world \<Rightarrow> (string list \<times> 'x world) outcome" where
  "example_main E ics D load rs bg stream uuid setup srv w =
     obind (NewServer (e_lib E) load stream [] uuid setup w) (\<lambda>(totemServer, w1).
     obind (RegisterHelloServer (e_lib E) load totemServer srv w1) (\<lambda>w2.
     obind (Serve (e_lib E) D (e_env E) rs totemServer w2) (\<lambda>((clientConn, _), _, w3).
     obind (helloClient_Hello E ics clientConn bg (HelloRequest ''client'') [] w3) (\<lambda>(r, w4).
       Done ([''Server responded: '' @ (case r of Inl _ \<Rightarrow> [] | Inr resp \<Rightarrow> GetMessage resp)], w4)))))"

subsection \<open>The greeting\<close>

text \<open>
  The documented law of package proto for these messages: decoding into a message of the
  same type undoes encoding. It is asked for only where the text is ASCII, and so valid
  UTF-8, and short; nothing is said of decoding into a message of the other type, whose
  encoding is the same when the texts are.
\<close>

fun same_kind :: "hello_msg \<Rightarrow> hello_msg \<Rightarrow> bool" where
  "same_kind (HelloRequest _) (HelloRequest _) = True"
| "same_kind (HelloResponse _) (HelloResponse _) = True"
| "same_kind _ _ = False"

fun text_of :: "hello_msg \<Rightarrow> string" where
  "text_of (HelloRequest n) = n"
| "text_of (HelloResponse n) = n"

definition short_ascii :: "string \<Rightarrow> bool" where
  "short_ascii n \<longleftrightarrow> length n < 128 \<and> list_all (\<lambda>c. (of_char c :: nat) < 128) n"

definition hello_codec :: "hello_msg codec \<Rightarrow> bool" where
  "hello_codec K \<longleftrightarrow>
     (\<forall>m. short_ascii (text_of m) \<longrightarrow>
        (\<exists>b. Marshal K (AnyV2 m) = (Some b, None) \<and> (\<forall>v. same_kind v m \<longrightarrow> Unmarshal K b v = Inr m)))"

text \<open>The invoker of the service at the other end.\<close>

definition hello_invoker :: "nat \<Rightarrow> localServiceInvoker" where
  "hello_invoker srv = newLocalServiceInvoker srv Hello_ServiceDesc None None 0"

lemma hello_codecD:
  assumes "hello_codec K" and "short_ascii (text_of m)"
  obtains b where "Marshal K (AnyV2 m) = (Some b, None)" and "\<And>v. same_kind v m \<Longrightarrow> Unmarshal K b v = Inr m"
  using assms unfolding hello_codec_def by blast

text \<open>What the service gives for a request.\<close>

lemma hello_Invoke:
  assumes "MethodName q = ''Hello''" and "Unmarshal K (GetRequest (Some q)) (HelloRequest []) = Inr (HelloRequest n)"
    and "Marshal K (AnyV2 (HelloResponse (''Hello, '' @ n))) = (Some b, None)"
  shows "\<exists>w'. local_Invoke K (Hello_Handler ics) lat (hello_invoker srv) c q w = Done (Inr b, w')"
  using assms
  by (simp add: local_Invoke_def hello_invoker_def newLocalServiceInvoker_def Hello_ServiceDesc_def Hello_Handler_def
      local_decoder_def helloServer_Hello_def the_bytes_def Let_def)

lemma hello_Invoke_result:
  assumes "local_Invoke K (Hello_Handler ics) lat (hello_invoker srv) c q w = Done (r, w')" and "MethodName q = ''Hello''"
    and "Unmarshal K (GetRequest (Some q)) (HelloRequest []) = Inr (HelloRequest n)"
    and "Marshal K (AnyV2 (HelloResponse (''Hello, '' @ n))) = (Some b, None)"
  shows "r = Inr b"
  using hello_Invoke [where K = K and ics = ics and lat = lat and srv = srv and c = c and w = w, OF assms(2-4)] assms(1)
  by auto

text \<open>
  A call of \<open>Hello\<close> whose future gets what the service of the other end gives for the
  message that was sent.
\<close>

definition peer_greets ::
  "(hello_msg, 'x) env \<Rightarrow> nat \<Rightarrow> RPC \<Rightarrow> nat \<Rightarrow> invoker StreamController \<Rightarrow> 'x world \<Rightarrow> bool" where
  "peer_greets E k q ch st1 w \<longleftrightarrow>
     (\<exists>c ics lat srv (wp :: unit world) r wp'.
        local_Invoke (e_codec E) (Hello_Handler ics) lat (hello_invoker srv) c q wp = Done (r, wp') \<and>
        (\<forall>w1. w_ctls w1 = (w_ctls w)(k \<mapsto> st1) \<longrightarrow>
          (\<exists>st2. w_ctls (e_env E w1) k = Some st2 \<and>
            ctl_futures st2 ch = Some \<lparr>chan_buf = [result_reply (e_lib E) c (Tag q) r], chan_cap = 1, chan_closed = True\<rparr>)))"

lemma hello_method: "''/simple.Hello/Hello'' = slashName ''simple.Hello'' ''Hello''"
  by (simp add: slashName_def)

lemma hello_call:
  assumes K: "hello_codec (e_codec E)" and L: "status_laws (e_lib E)" and "ctx_err bg = None" and i: "cc_interceptor cc = None"
    and st: "w_ctls w (cc_controller cc) = Some st" "ctl_inv st"
    and b: "Marshal (e_codec E) (AnyV2 (HelloRequest n)) = (Some b, None)"
    and q: "q = call_request (e_lib E) bg (ctl_count st + 1) ''simple.Hello'' ''Hello'' b"
    and n: "short_ascii (''Hello, '' @ n)"
    and st1: "send_or_kick q (with_call st) = Done st1" and p: "peer_greets E (cc_controller cc) q (ctl_nfut st) st1 w"
  shows "\<exists>w'. helloClient_Hello E ics (Some cc) bg (HelloRequest n) [] w = Done (Inr (AnyV2 (HelloResponse (''Hello, '' @ n))), w')"
proof -
  let ?G = "e_lib E" and ?K = "e_codec E"
  obtain pr where pr: "prepare_call ?G ?K bg (slashName ''simple.Hello'' ''Hello'') (AnyV2 (HelloRequest n)) (AnyV2 (HelloResponse [])) = Done (Inr pr)"
    "pr_serviceName pr = ''simple.Hello''" "pr_methodName pr = ''Hello''" "pr_reqMsg pr = b"
    using prepare_message [OF _ _ b, of "''simple.Hello''" "''Hello''" ?G bg "AnyV2 (HelloResponse [])"] by auto
  have "short_ascii (text_of (HelloResponse (''Hello, '' @ n)))" using n by simp
  from hello_codecD [OF K this] obtain br where br: "Marshal ?K (AnyV2 (HelloResponse (''Hello, '' @ n))) = (Some br, None)"
    "Unmarshal ?K br (HelloResponse []) = Inr (HelloResponse (''Hello, '' @ n))" by (metis same_kind.simps(2))
  have m: "MethodName q = ''Hello''" "GetRequest (Some q) = b" by (simp_all add: q call_request_def getter_defs)
  have "short_ascii (text_of (HelloRequest n))" using n by (simp add: short_ascii_def)
  from hello_codecD [OF K this] obtain b' where "Marshal ?K (AnyV2 (HelloRequest n)) = (Some b', None)"
    "Unmarshal ?K b' (HelloRequest []) = Inr (HelloRequest n)" by (metis same_kind.simps(1))
  then have d: "Unmarshal ?K (GetRequest (Some q)) (HelloRequest []) = Inr (HelloRequest n)" using b m(2) by simp
  from p obtain c where inv: "\<exists>ics lat srv (wp :: unit world) wp' r. local_Invoke ?K (Hello_Handler ics) lat (hello_invoker srv) c q wp = Done (r, wp') \<and>
      (\<forall>w1. w_ctls w1 = (w_ctls w)(cc_controller cc \<mapsto> st1) \<longrightarrow> (\<exists>st2. w_ctls (e_env E w1) (cc_controller cc) = Some st2 \<and>
        ctl_futures st2 (ctl_nfut st) = Some \<lparr>chan_buf = [result_reply ?G c (Tag q) r], chan_cap = 1, chan_closed = True\<rparr>))"
    unfolding peer_greets_def by blast
  define rpc where "rpc = result_reply ?G c (Tag q) (Inr br)"
  have env: "\<exists>st2. w_ctls (e_env E w1) (cc_controller cc) = Some st2 \<and>
      ctl_futures st2 (ctl_nfut st) = Some \<lparr>chan_buf = [rpc], chan_cap = 1, chan_closed = True\<rparr>"
    if "w_ctls w1 = (w_ctls w)(cc_controller cc \<mapsto> st1)" for w1
    using inv that hello_Invoke_result [OF _ m(1) d br(1)] unfolding rpc_def by blast
  obtain w2 where "cc_invoke E cc bg (slashName ''simple.Hello'' ''Hello'') (AnyV2 (HelloRequest n)) (AnyV2 (HelloResponse [])) [] w =
      receive_reply ?G ?K cc False (e_latency E) pr [] (AnyV2 (HelloResponse [])) (Some rpc) w2"
    using call_receives [OF pr(1) st assms(3) _ env] st1 pr(2-4) q by fastforce
  moreover have "Content rpc = Some (RPC_Response (Some \<lparr>Response_bytes = br, StatusProto = Some \<lparr>st_code = OK, st_message = code_String ?G OK\<rparr>\<rparr>))"
    by (simp add: rpc_def result_reply_def ok_reply_def response_msg_def)
  from receive_reply_message [OF this, of ?G ?K cc "e_latency E" pr "[]" "HelloResponse []" w2]
  obtain w' where "receive_reply ?G ?K cc False (e_latency E) pr [] (AnyV2 (HelloResponse [])) (Some rpc) w2 =
      Done ((None, AnyV2 (HelloResponse (''Hello, '' @ n)), []), w')"
    by (auto simp: response_result_def GetStatus_def status_Err_laws [OF L] br(2))
  ultimately show ?thesis using i by (auto simp: helloClient_Hello_def cc_Invoke_def hello_method)
qed

text \<open>
  C40: The example greets: when the other end answers the call with what its own \<open>Hello\<close>
  service gives for the message that arrives, \<open>exampleServer.Stream\<close> prints
  "Client responded: Hello, server" and returns no error, through the registration of the
  service, \<open>Serve\<close>, the client call, the encoding of both messages and the local invoker of
  the other end. The codec is any that gives back the short ASCII messages it encodes when
  it decodes them into a message of their type.
\<close>

theorem example_greets:
  assumes "hello_codec (e_codec E)" and "status_laws (e_lib E)" and "ctx_err bg = None"
    and "server_wf w" and "env_wf (e_env E)"
    and new: "NewServer (e_lib E) load stream [] uuid setup w = Done (s, w1)"
    and reg: "RegisterHelloServer (e_lib E) load s srv w1 = Done w2"
    and serve: "Serve (e_lib E) D (e_env E) rs s w2 = Done ((Some cc, errC), s', w3)"
    and st: "w_ctls w3 (cc_controller cc) = Some st"
    and b: "Marshal (e_codec E) (AnyV2 (HelloRequest ''server'')) = (Some b, None)"
    and q: "q = call_request (e_lib E) bg (ctl_count st + 1) ''simple.Hello'' ''Hello'' b"
    and sent: "send_or_kick q (with_call st) = Done st1"
    and peer: "peer_greets E (cc_controller cc) q (ctl_nfut st) st1 w3"
  shows "\<exists>w4. exampleServer_Stream E ics D load rs bg stream uuid setup srv w =
    Done ((None, [''Client responded: Hello, server'']), w4)"
proof -
  have "server_inv s w1" by (rule NewServer_inv [OF assms(4) new])
  then have "server_inv s w2" using RegisterService_inv reg unfolding RegisterHelloServer_def by blast
  then have "server_inv s' w3" using Serve_inv [OF _ assms(5) serve] by blast
  then have "ctl_inv st" using st by (auto simp: server_inv_def server_wf_def world_ok_def)
  moreover have "cc_interceptor cc = None"
    using serve by (cases rule: Serve_Done) (use new in \<open>auto simp: NewServer_def default_options_def\<close>)
  moreover have n: "short_ascii (''Hello, '' @ ''server'')" by (simp add: short_ascii_def)
  ultimately obtain w4 where "helloClient_Hello E ics (Some cc) bg (HelloRequest ''server'') [] w3 =
      Done (Inr (AnyV2 (HelloResponse (''Hello, '' @ ''server''))), w4)"
    using hello_call [OF assms(1-3) _ st _ b q n sent peer] by blast
  then show ?thesis using new reg serve by (simp add: exampleServer_Stream_def)
qed

text \<open>
  When the discovery fails, \<open>Serve\<close> returns a nil connection and the error on its
  channel, which the example ignores: the call on that connection panics, in
  \<open>exampleServer.Stream\<close> as in \<open>main\<close>.
\<close>

lemma example_nil_connection:
  assumes "NewServer (e_lib E) load stream [] uuid setup w = Done (s, w1)"
    and "RegisterHelloServer (e_lib E) load s srv w1 = Done w2"
    and "Serve (e_lib E) D (e_env E) rs s w2 = Done ((None, errC), s', w3)"
  shows "chan_buf errC \<noteq> [] \<and>
    exampleServer_Stream E ics D load rs bg stream uuid setup srv w = Panics ''nil pointer dereference'' \<and>
    example_main E ics D load rs bg stream uuid setup srv w = Panics ''nil pointer dereference''"
proof -
  have "chan_buf errC \<noteq> []"
    using assms(3) by (cases rule: Serve_Done) simp_all
  then show ?thesis
    using assms by (simp add: exampleServer_Stream_def example_main_def helloClient_Hello_def)
qed

subsection \<open>A concrete run\<close>

text \<open>
  The encoding of protobuf for short texts: nothing for an empty text, otherwise the key of
  field 1, the length and the text. The type of a message is not encoded. Longer texts and
  others than ASCII are not encoded here.
\<close>

definition hello_enc :: "hello_msg \<Rightarrow> bytes" where
  "hello_enc m =
     (if text_of m = [] then []
      else 0x0A # word_of_nat (length (text_of m)) # map (\<lambda>c. word_of_nat (of_char c)) (text_of m))"

definition with_text :: "hello_msg \<Rightarrow> string \<Rightarrow> hello_msg" where
  "with_text v n = (case v of HelloRequest _ \<Rightarrow> HelloRequest n | HelloResponse _ \<Rightarrow> HelloResponse n)"

definition hello_dec :: "bytes \<Rightarrow> hello_msg \<Rightarrow> go_error + hello_msg" where
  "hello_dec b v =
     (case b of
        [] \<Rightarrow> Inr (with_text v [])
      | key # len # cs \<Rightarrow>
          if key = 0x0A \<and> unat len = length cs \<and> list_all (\<lambda>w. w < 128) cs
          then Inr (with_text v (map (\<lambda>w. char_of (unat w)) cs)) else Inl (ErrorString ''malformed'')
      | _ \<Rightarrow> Inl (ErrorString ''malformed''))"

definition sample_codec :: "hello_msg codec" where
  "sample_codec = \<lparr>Marshal = (\<lambda>m. case m of
       AnyV2 x \<Rightarrow> if short_ascii (text_of x) then (Some (hello_enc x), None) else (None, Some (ErrorString ''too long''))
     | _ \<Rightarrow> (None, None)),
     Unmarshal = hello_dec\<rparr>"

lemma hello_dec_enc:
  assumes "short_ascii (text_of m)" and "same_kind v m"
  shows "hello_dec (hello_enc m) v = Inr m"
proof -
  have t: "with_text v (text_of m) = m" using assms(2) by (cases v; cases m) (simp_all add: with_text_def)
  have b: "unat (word_of_nat (of_char c) :: 8 word) = of_char c" for c by (simp add: unat_of_nat)
  then have "map ((\<lambda>w. char_of (unat w)) \<circ> (\<lambda>c. word_of_nat (of_char c) :: 8 word)) n = n" for n
    by (induction n) simp_all
  moreover have "unat (word_of_nat (length (text_of m)) :: 8 word) = length (text_of m)"
    using assms(1) by (simp add: short_ascii_def unat_of_nat)
  moreover have "list_all (\<lambda>w. w < 128) (map (\<lambda>c. word_of_nat (of_char c) :: 8 word) (text_of m))"
    using assms(1) b by (auto simp: short_ascii_def list_all_iff word_less_nat_alt)
  ultimately show ?thesis using t by (cases "text_of m = []") (simp_all add: hello_enc_def hello_dec_def)
qed

lemma sample_codec_ok: "hello_codec sample_codec"
  by (simp add: hello_codec_def sample_codec_def hello_dec_enc)

definition greeting_reply :: RPC where
  "greeting_reply = result_reply std_lib bg_ctx 2 (Inr (hello_enc (HelloResponse ''Hello, server'')))"

definition greeting_env :: "(hello_msg, unit) env" where
  "greeting_env = \<lparr>e_lib = std_lib, e_codec = sample_codec, e_handlers = Hello_Handler (\<lambda>_ _ _ _ w. Done (Inl EOF, w)),
     e_streams = (\<lambda>_ _. PReturn None), e_metrics = (\<lambda>_. None), e_latency = 0, e_pick = True,
     e_env = (\<lambda>w. deliver_to greeting_reply 0 (demo_env w))\<rparr>"

lemma greeting_env_wf: "env_wf (e_env greeting_env)"
  using demo_env_wf deliver_to_wf grows_trans unfolding greeting_env_def env_wf_def by fastforce

definition greeting_world :: "unit world" where
  "greeting_world = (case RegisterHelloServer std_lib demo_load demo_server 7 demo_world of Done w \<Rightarrow> w | _ \<Rightarrow> demo_world)"

lemma greeting_register: "RegisterHelloServer std_lib demo_load demo_server 7 demo_world = Done greeting_world"
  by (simp add: greeting_world_def RegisterHelloServer_def RegisterService_def register_def Hello_ServiceDesc_def
      demo_world_def NewServer_def demo_defs Let_def empty_list_def)

lemma greeting_serve:
  "\<exists>cc errC s' w3 st. Serve std_lib number_disc (e_env greeting_env) (\<lambda>_. []) demo_server greeting_world = Done ((Some cc, errC), s', w3) \<and>
     cc_controller cc = 0 \<and> dom (w_ctls w3) = {0} \<and> w_ctls w3 0 = Some st \<and>
     ctl_count st = 1 \<and> ctl_nfut st = 1 \<and> pendingRPCs st = Map.empty \<and> (\<forall>sent m. s_send (ctl_stream st) sent m = None)"
  by (simp add: greeting_world_def greeting_env_def greeting_reply_def RegisterHelloServer_def RegisterService_def register_def
      Hello_ServiceDesc_def Serve_def demo_world_def NewServer_def demo_defs Let_def empty_list_def demo_call_defs
      result_reply_def ok_reply_def)

lemma greeting_answered:
  assumes "w_ctls w = [0 \<mapsto> st1]" and "ctl_futures st1 1 = Some (make_chan 1)" and "pendingRPCs st1 = [2 \<mapsto> 1]"
  shows "\<exists>st2. w_ctls (e_env greeting_env w) 0 = Some st2 \<and>
    ctl_futures st2 1 = Some \<lparr>chan_buf = [greeting_reply], chan_cap = 1, chan_closed = True\<rparr>"
  using assms
  by (simp add: greeting_env_def demo_env_def deliver_to_def demo_reply_def greeting_reply_def result_reply_def ok_reply_def
      run_dispatch_def response_msg_def send_future_def close_future_def chan_send_def chan_close_def make_chan_def)

lemma greeting_request:
  assumes "q = call_request std_lib bg_ctx 2 ''simple.Hello'' ''Hello'' (hello_enc (HelloRequest ''server''))"
  shows "\<exists>wp'. local_Invoke sample_codec (Hello_Handler ics) 0 (hello_invoker 7) bg_ctx q w =
    Done (Inr (hello_enc (HelloResponse ''Hello, server'')), wp')"
proof -
  have "Unmarshal sample_codec (hello_enc (HelloRequest ''server'')) (HelloRequest []) = Inr (HelloRequest ''server'')"
    using hello_dec_enc [of "HelloRequest ''server''" "HelloRequest []"] by (simp add: sample_codec_def short_ascii_def)
  moreover have "Marshal sample_codec (AnyV2 (HelloResponse (''Hello, '' @ ''server''))) =
      (Some (hello_enc (HelloResponse ''Hello, server'')), None)"
    by (simp add: sample_codec_def short_ascii_def)
  moreover have "MethodName q = ''Hello''" "GetRequest (Some q) = hello_enc (HelloRequest ''server'')"
    by (simp_all add: assms call_request_def getter_defs)
  ultimately show ?thesis by (intro hello_Invoke) simp_all
qed

lemma greeting_peer:
  assumes "q = call_request std_lib bg_ctx 2 ''simple.Hello'' ''Hello'' (hello_enc (HelloRequest ''server''))"
    and "w_ctls w = [0 \<mapsto> st]" and "ctl_futures st1 1 = Some (make_chan 1)" and "pendingRPCs st1 = [2 \<mapsto> 1]"
  shows "peer_greets greeting_env 0 q 1 st1 w"
proof -
  have E: "e_lib greeting_env = std_lib" "e_codec greeting_env = sample_codec" by (simp_all add: greeting_env_def)
  obtain wp' where "local_Invoke sample_codec (Hello_Handler (\<lambda>_ _ _ _ w. Done (Inl EOF, w))) 0 (hello_invoker 7) bg_ctx q demo_start =
      Done (Inr (hello_enc (HelloResponse ''Hello, server'')), wp')" using greeting_request [OF assms(1)] by blast
  moreover have "result_reply std_lib bg_ctx (Tag q) (Inr (hello_enc (HelloResponse ''Hello, server''))) = greeting_reply"
    by (simp add: greeting_reply_def assms(1) call_request_def)
  moreover have "\<exists>st2. w_ctls (e_env greeting_env w1) 0 = Some st2 \<and>
      ctl_futures st2 1 = Some \<lparr>chan_buf = [greeting_reply], chan_cap = 1, chan_closed = True\<rparr>"
    if "w_ctls w1 = (w_ctls w)(0 \<mapsto> st1)" for w1
    using greeting_answered [OF _ assms(3,4)] that assms(2) by simp
  ultimately show ?thesis unfolding peer_greets_def E by metis
qed

theorem example_greets_witness:
  "\<exists>w4. exampleServer_Stream greeting_env (\<lambda>_ _ _ _ _ _ _ w. Done ((None, AnyOther, []), w)) number_disc demo_load (\<lambda>_. []) bg_ctx
     (demo_stream 1) ''a'' bg_ctx 7 demo_start = Done ((None, [''Client responded: Hello, server'']), w4)"
proof -
  have E: "e_lib greeting_env = std_lib" "e_codec greeting_env = sample_codec" by (simp_all add: greeting_env_def)
  from greeting_serve obtain cc errC s' w3 st
    where s: "Serve std_lib number_disc (e_env greeting_env) (\<lambda>_. []) demo_server greeting_world = Done ((Some cc, errC), s', w3)"
    and k: "cc_controller cc = 0" "dom (w_ctls w3) = {0}" "w_ctls w3 0 = Some st"
    and st: "ctl_count st = 1" "ctl_nfut st = 1" "pendingRPCs st = Map.empty" "\<forall>sent m. s_send (ctl_stream st) sent m = None"
    by (elim exE conjE) rule
  define q where "q = call_request std_lib bg_ctx (ctl_count st + 1) ''simple.Hello'' ''Hello'' (hello_enc (HelloRequest ''server''))"
  obtain st1 where st1: "send_or_kick q (with_call st) = Done st1" "ctl_futures st1 1 = Some (make_chan 1)" "pendingRPCs st1 = [2 \<mapsto> 1]"
    using st by (simp add: send_or_kick_def stream_Send_def with_call_def Let_def)
  have "peer_greets greeting_env 0 q 1 st1 w3"
  proof (rule greeting_peer [OF _ _ st1(2,3)])
    have "w_ctls w3 x = [0 \<mapsto> st] x" for x using k(2,3) domIff [of x "w_ctls w3"] by (cases "x = 0") simp_all
    then show "w_ctls w3 = [0 \<mapsto> st]" by (rule ext)
  qed (simp add: q_def st(1))
  with example_greets [where E = greeting_env and ics = "\<lambda>_ _ _ _ _ _ _ w. Done ((None, AnyOther, []), w)" and q = q and ?st1.0 = st1
      and b = "hello_enc (HelloRequest ''server'')" and D = number_disc and rs = "\<lambda>_. []" and srv = 7 and cc = cc and st = st,
      OF _ _ _ demo_start_wf greeting_env_wf _ _ s [folded E(1)]]
  show ?thesis
    using sample_codec_ok demo_new greeting_register k st(2) st1(1) by (simp add: E q_def sample_codec_def bg_ctx_def short_ascii_def)
qed

text \<open>The other end refuses the discovery, and the pump of the controller ends after the kick.\<close>

definition refusal :: RPC where
  "refusal = response_msg 1 [] (Some \<lparr>st_code = Internal, st_message = ''no''\<rparr>) None"

definition refusing_env :: "(hello_msg, unit) env" where
  "refusing_env = greeting_env\<lparr>e_env := (\<lambda>w. deliver_to refusal 0
     (w\<lparr>w_ctls := map_option (\<lambda>st. st\<lparr>ctl_receiver := (ctl_receiver st)\<lparr>rw_done := True\<rparr>\<rparr>) \<circ> w_ctls w\<rparr>))\<rparr>"

lemma refused_serve:
  "\<exists>errC s' w3. Serve std_lib number_disc (e_env refusing_env) (\<lambda>_. []) demo_server greeting_world = Done ((None, errC), s', w3)"
  by (simp add: greeting_world_def refusing_env_def refusal_def RegisterHelloServer_def RegisterService_def register_def
      Hello_ServiceDesc_def Serve_def demo_world_def NewServer_def demo_defs Let_def empty_list_def demo_call_defs
      close_controller_def CloseOrRecv_def Wait_def Kick_def kick_once_def)

lemma example_nil_connection_witness:
  "exampleServer_Stream refusing_env (\<lambda>_ _ _ _ _ _ _ w. Done ((None, AnyOther, []), w)) number_disc demo_load (\<lambda>_. []) bg_ctx
     (demo_stream 1) ''a'' bg_ctx 7 demo_start = Panics ''nil pointer dereference''"
proof -
  have E: "e_lib refusing_env = std_lib" by (simp add: refusing_env_def greeting_env_def)
  obtain errC s' w3 where s: "Serve std_lib number_disc (e_env refusing_env) (\<lambda>_. []) demo_server greeting_world = Done ((None, errC), s', w3)"
    using refused_serve by (elim exE) rule
  show ?thesis
    using example_nil_connection [where E = refusing_env, unfolded E, OF demo_new greeting_register s] by blast
qed

end
