(* ===== verification/Spec2Isabelle.thy ===== *)
theory Spec2Isabelle
  imports Go_Prelude Messages Grpc_Metadata Handlers Recv_Wrapper Controller
    Stream_Wrappers Telemetry Invokers Dispatch Server_Streams Client_Conn Discovery Server Splicing Peers Workers
    Relay Relay_Streams Lifecycle Example
begin

text \<open>
  Totem turns one bidirectional gRPC stream into a connection over which both ends serve
  and call unary and server-streaming services. This development models the Go package
  under src/ and proves what its components promise and what they promise together.

  \<^bold>\<open>The program\<close>

  A \<open>Server\<close> (server.go) owns a stream. Its \<open>StreamController\<close> (stream.go) multiplexes calls
  over the stream: every request gets a tag and a future, a channel of capacity one; the
  loop \<open>Run\<close> takes messages from the receiver (recv.go), which a goroutine of its own fills
  from the stream, routes responses and stream messages to the futures, and gives requests
  to a worker pool. A worker runs \<open>handleRequest\<close>, which looks the service up in the table
  of handlers (types.go) and calls an invoker (invokers.go): a local one calls the service,
  a remote one forwards the request to another controller. Streaming handlers write to a
  wrapper and streaming clients read from one (stream_wrapper.go). \<open>Serve\<close> returns a
  \<open>ClientConn\<close> (clientconn.go) for calls to the peer. Services of other controllers are
  found by the recursive \<open>ListServices\<close> (stream.go, discovery.go). \<open>Splice\<close> joins another
  stream to a server, so that the services of its peer become services of the server.

  \<^bold>\<open>The theories\<close>

  \<^item> \<open>Go_Prelude\<close>: errors, statuses, contexts, channels and the outcome of a call:
    \<open>Done\<close>, \<open>Blocks\<close> (no ready case) or \<open>Panics\<close>; list and string functions of the
    standard library. The locale \<open>fifo_queue\<close> is the contract of channels.
  \<^item> \<open>Messages\<close>: the messages of totem.proto with their getters, metadata.go, status.go,
    and the functions on names of util.go.
  \<^item> \<open>Grpc_Metadata\<close>: the header validation of grpc_metadata.go.
  \<^item> \<open>Handlers\<close>: types.go. The locale \<open>handler_sequence\<close> is the contract of handler lists.
  \<^item> \<open>Recv_Wrapper\<close>: recv.go, as operations and as a step system of the pump, the reader
    and the kick.
  \<^item> \<open>Controller\<close>: the state and the operations of a controller: \<open>Request\<close>, \<open>Reply\<close>,
    \<open>ReplyErr\<close>, \<open>StreamReply\<close>, \<open>Kick\<close>, the body and the end of \<open>Run\<close>, \<open>CloseOrRecv\<close>.
  \<^item> \<open>Stream_Wrappers\<close>: both wrappers of stream_wrapper.go with all their methods.
  \<^item> \<open>Telemetry\<close>: metrics.go and tracing.go.
  \<^item> \<open>Invokers\<close>: invokers.go, and the world: the controllers of a process by their
    addresses, the set of known streams, the next free address, the measurements and the
    state of the user's services. The locale \<open>method_invoker\<close> is the interface
    \<open>MethodInvoker\<close>.
  \<^item> \<open>Dispatch\<close>: \<open>handleRequest\<close>; its lemmas are proved in \<open>method_invoker\<close>.
  \<^item> \<open>Server_Streams\<close>: the goroutine of a streaming handler and the loop of
    \<open>handleRequest\<close> as one step system.
  \<^item> \<open>Client_Conn\<close>: clientconn.go.
  \<^item> \<open>Discovery\<close>: \<open>ListServices\<close>, its generated handler, \<open>discoverServices\<close>, and networks
    of controllers.
  \<^item> \<open>Server\<close>: server.go, \<open>NewStreamController\<close>, and the invariant of the tables of
    services. The locale \<open>table_keeping\<close> is the contract of operations that leave the
    tables alone.
  \<^item> \<open>Splicing\<close>: the properties of servers, over all orders of their operations.
  \<^item> \<open>Peers\<close>: two controllers joined by a stream, in all interleavings.
  \<^item> \<open>Workers\<close>: \<open>handleRequest\<close> as a step of that system.
  \<^item> \<open>Relay\<close>: three parties, a client, a server and a server spliced into it, whose calls
    \<open>streamControllerInvoker.Invoke\<close> joins; again in all interleavings.
  \<^item> \<open>Relay_Streams\<close>: a streaming call for a spliced service: the goroutine of
    \<open>streamControllerInvoker.InvokeStream\<close> between the controller of the spliced stream and
    the loop of \<open>handleRequest\<close>.
  \<^item> \<open>Lifecycle\<close>: one controller before, during and after the end of \<open>Run\<close>, and its callers.
  \<^item> \<open>Example\<close>: the program of examples/simple, from \<open>NewServer\<close> to the greeting.

  \<^bold>\<open>How the code is modelled\<close>

  State is passed explicitly. A function that may fail returns a sum or an option as the
  source returns an error; panics and waiting are outcomes. Objects that are shared by
  pointer have addresses (\<open>sh_ptr\<close>, the domain of \<open>w_ctls\<close>, the futures of a controller).
  Tags are 64-bit words and wrap around; hop counts are 32-bit words that are decremented
  through zero and below; topology flags are words. A goroutine is a step of a step system
  or a function of its own that continues where the source starts it: the pump of a
  receiver, the handler of a stream, the end of \<open>Serve\<close>. A select with several ready cases
  takes an argument that says which one is taken, so a theorem that holds for all values
  of it holds for every choice. Where a function waits for other goroutines, an argument
  says what they do meanwhile; the theorems assume of it no more than that it keeps the
  invariants, which every operation of the library is shown to do. The iteration order of
  Go maps is an argument as well.

  Code that is not under src/ is a parameter: the gRPC status and metadata functions, the
  trace propagator and the formatting of values (the record \<open>lib\<close>), the encoding of messages
  (\<open>codec\<close>, \<open>disc\<close>), the stream (\<open>s_send\<close>, results of \<open>Recv\<close>), the handlers of the user's
  services, the loader of service descriptors, and UUIDs. What is assumed of them are
  named laws of their documentation (\<open>status_laws\<close>, \<open>outgoing_laws\<close>, \<open>incoming_laws\<close>,
  \<open>disc_ok\<close>, \<open>hello_codec\<close>); each is shown to hold for a concrete instance in a witness or
  in the lemmas before it.

  \<^bold>\<open>What is shown\<close>

  \<^item> Multiplexing: a controller refines a list of calls without tags and channels; its
    operations keep its invariant and always return; responses go to the call of their
    tag on every branch; when \<open>Run\<close> ends every pending call is cancelled, in any order. Two
    peers never see an unexpected tag as long as each makes fewer than \<open>2 ^ 64\<close> calls; the
    response in a future answers the request of that call. No call is lost, unless
    \<open>handleRequest\<close> leaves it unanswered, which it does for methods with a stream of the
    client and for streams whose context ends. The worker that runs \<open>handleRequest\<close> takes
    the steps that this system takes.
  \<^item> Relaying: what a client receives for a service of a spliced server is what a handler
    of that server answered to the forwarded request, or an error of the server between
    them; no relayed call is lost, with the same exceptions; the worker that relays refines the steps of the system.
    A relayed stream delivers the same messages in the same order, and the same end, as the
    spliced server itself would.
  \<^item> The end of \<open>Run\<close>: a call that was registered before it returns, one that comes later
    and ignores its context waits for ever.
  \<^item> Receiving: what the stream returns reaches the reader once and in order, through a
    channel of at most 256 messages; the receiver panics exactly when it is started again
    or read twice at once, in the ways that are stated.
  \<^item> Requests: each is answered exactly once under its tag, after the calls of its invokers
    and nothing else, except the methods with a stream of the client; broadcasts reach every
    handler; unknown services and methods are rejected; a streaming call passes on every
    message that its handler gave to \<open>SendMsg\<close>, in order, then one response, and the client
    reads them so.
  \<^item> Handlers: handlers are built exactly for valid descriptors, lists keep one descriptor
    each, and the end of a context removes exactly its handlers.
  \<^item> Discovery: it terminates on every network, cycles included, and finds each service of
    the controllers it reaches once. The fuel of the model is the depth of the recursion;
    the number of controllers not yet visited is enough for any hop limit.
  \<^item> Servers: whatever a server does, all tables of services stay well formed; a splice
    registers exactly the discovered services and offers the peer exactly the local
    services that are marked visible, to which \<open>Serve\<close> adds those that it discovers; the
    channel of \<open>Serve\<close> never blocks its writers.
  \<^item> Defects that the proofs showed are theorems too: lost headers of streaming handlers,
    lost metadata of forwarded calls, handlers stuck after a cancellation, connections that
    a cancelled stream stops, calls left pending by an invalid message, a \<open>Wait\<close> that never
    returns, options that \<open>Splice\<close> ignores, peers that make it panic, and the nil connection
    that the example would use when \<open>Serve\<close> fails. Some of them are lemmas beside the
    properties.

  \<^bold>\<open>Not modelled\<close>

  Logging and the formatting of log values, spans beyond their names, attributes and
  recorded results (starting a span leaves the context as it is), the size and the
  scheduling of the worker pool (its tasks run in any order), timers beyond their expiry,
  and memory that is written without synchronisation: each operation under a lock and each
  operation on an atomic or a concurrent map is one step. Error texts that print a Go type
  omit the type. The marshalling code that protoc generates, the build script, the tests,
  and the in-memory listener and the dialling of the example program are left out.
\<close>

end
